(* ===== verification/Prelude.thy ===== *)
theory Prelude
  imports Main "HOL-Library.Word" "HOL-Library.Monad_Syntax"
begin

text \<open>
  Shared vocabulary of the development: the C integer types of the kernel and of the boot
  loader as words, byte-addressed memory with little-endian 32-bit access (what a
  \<^verbatim>\<open>uint32_t*\<close> dereference does on i386), and the generic lemmas on words, lists and options
  that the component theories use.  The collection \<open>c_simps\<close> holds the rewrite rules that turn
  word arithmetic without overflow into arithmetic on natural numbers.
\<close>

unbundle bit_operations_syntax

named_theorems c_simps \<open>reading machine words as natural numbers\<close>

type_synonym u8 = "8 word"
type_synonym u16 = "16 word"
type_synonym u32 = "32 word"
type_synonym u64 = "64 word"

text \<open>A computation that may run into undefined behaviour of C (an access outside an array, a
  division by zero) or fault has an \<open>option\<close> result: \<open>None\<close> is the undefined or faulting case.\<close>

definition guard :: "bool \<Rightarrow> unit option" where
  "guard b = (if b then Some () else None)"

lemma guard_simps [simp]: "guard True = Some ()" "guard False = None"
  by (simp_all add: guard_def)

lemma guard_eq_Some [simp]: "guard b = Some u \<longleftrightarrow> b"
  by (simp add: guard_def)

lemma bind_guard [simp]: "(guard b \<bind> f) = (if b then f () else None)"
  by (simp add: guard_def)

text \<open>A counting loop whose body may be undefined: stop at the first undefined step.\<close>

fun for_each :: "('a \<Rightarrow> 's \<Rightarrow> 's option) \<Rightarrow> 'a list \<Rightarrow> 's \<Rightarrow> 's option" where
  "for_each f [] s = Some s"
| "for_each f (x # xs) s = f x s \<bind> for_each f xs"

lemma for_each_append: "for_each f (xs @ ys) s = for_each f xs s \<bind> for_each f ys"
  by (induction xs arbitrary: s) (auto split: bind_splits)

lemma for_each_invariant:
  assumes "I 0 s"
    and "\<And>i s. i < n \<Longrightarrow> I i s \<Longrightarrow> \<exists>s'. f (g i) s = Some s' \<and> I (Suc i) s'"
  shows "\<exists>s'. for_each f (map g [0..<n]) s = Some s' \<and> I n s'"
  using assms(2)
proof (induction n)
  case (Suc n)
  then obtain s1 where "for_each f (map g [0..<n]) s = Some s1" "I n s1"
    by (metis less_SucI)
  with Suc.prems [of n s1] show ?case
    by (auto simp: for_each_append)
qed (use assms(1) in simp)


text \<open>The first index of a counting loop that satisfies a test.\<close>

lemma find_upt_Some: "find P [a..<b] = Some k \<longleftrightarrow> a \<le> k \<and> k < b \<and> P k \<and> (\<forall>j. a \<le> j \<and> j < k \<longrightarrow> \<not> P j)"
proof (induction "b - a" arbitrary: a)
  case (Suc n)
  then have "[a..<b] = a # [Suc a..<b]" by (simp add: upt_conv_Cons)
  with Suc.hyps(1) [of "Suc a"] Suc.hyps(2) show ?case
    by (auto simp: Suc_le_eq) (metis le_neq_implies_less)+
qed auto

lemma find_upt_None: "find P [a..<b] = None \<longleftrightarrow> (\<forall>j. a \<le> j \<and> j < b \<longrightarrow> \<not> P j)"
  by (auto simp: find_None_iff)


section \<open>Words\<close>

lemma unat_and_mask [c_simps]: "unat (x AND mask n) = unat x mod 2 ^ n" for x :: "'a::len word"
proof -
  have "unat (x AND mask n) = unat (take_bit n x)"
    by (simp add: take_bit_eq_mask)
  also have "\<dots> = take_bit n (unat x)"
    by (rule unsigned_take_bit_eq)
  finally show ?thesis
    by (simp add: take_bit_eq_mod)
qed

lemma unat_and_not_mask [c_simps]:
  "unat (x AND NOT (mask n)) = unat x div 2 ^ n * 2 ^ n" for x :: "'a::len word"
proof -
  have split: "x = (x AND NOT (mask n)) + (x AND mask n)"
    by (subst disjunctive_add) (auto simp: bit_simps intro: bit_word_eqI)
  have le: "x AND NOT (mask n) \<le> x"
    by (rule word_and_le2)
  have "x AND mask n = x - (x AND NOT (mask n))"
    using split by (simp add: algebra_simps)
  with le have "unat (x AND mask n) = unat x - unat (x AND NOT (mask n))"
    by (simp add: unat_sub)
  moreover have "unat (x AND NOT (mask n)) \<le> unat x"
    using le by (simp add: word_le_nat_alt)
  ultimately have "unat (x AND NOT (mask n)) = unat x - unat x mod 2 ^ n"
    by (simp add: unat_and_mask)
  then show ?thesis
    by (simp add: minus_mod_eq_div_mult)
qed

text \<open>The page masks as the simplifier writes them.\<close>

lemma unat_and_page_offset [c_simps]: "unat (x AND 4095) = unat x mod 4096" for x :: u32
  using unat_and_mask [of x 12] by (simp add: mask_eq_exp_minus_1)

lemma unat_and_page_frame [c_simps]: "unat (x AND - 4096) = unat x div 4096 * 4096" for x :: u32
  using unat_and_not_mask [of x 12] by (simp add: mask_eq_exp_minus_1)

lemma unat_lt: "unat w < 2 ^ LENGTH('a)" for w :: "'a::len word"
  by (rule unsigned_less)

lemma unat_plus_small: "unat x + unat y < 2 ^ LENGTH('a) \<Longrightarrow> unat (x + y) = unat x + unat y"
  for x y :: "'a::len word"
  by (simp add: unat_word_ariths)

lemma unat_minus_small: "unat y \<le> unat x \<Longrightarrow> unat (x - y) = unat x - unat y"
  for x y :: "'a::len word"
  by (simp add: unat_sub word_le_nat_alt)

lemma unat_mult_small: "unat x * unat y < 2 ^ LENGTH('a) \<Longrightarrow> unat (x * y) = unat x * unat y"
  for x y :: "'a::len word"
  by (simp add: unat_word_ariths)

lemma unat_of_nat_small: "n < 2 ^ LENGTH('a) \<Longrightarrow> unat (of_nat n :: 'a::len word) = n"
  by (simp add: unat_of_nat)

lemma unat_ucast_up: "LENGTH('a) \<le> LENGTH('b) \<Longrightarrow> unat (ucast x :: 'b::len word) = unat x" for x :: "'a::len word"
proof -
  assume "LENGTH('a) \<le> LENGTH('b)"
  then have "(2::nat) ^ LENGTH('a) \<le> 2 ^ LENGTH('b)" by (rule power_increasing) simp
  with unat_lt [of x] have "unat x < 2 ^ LENGTH('b)" by (rule less_le_trans)
  then show ?thesis by (simp add: unsigned_ucast_eq take_bit_nat_eq_self)
qed

lemma of_nat_eq_small:
  "m < 2 ^ LENGTH('a) \<Longrightarrow> n < 2 ^ LENGTH('a) \<Longrightarrow> (of_nat m = (of_nat n :: 'a::len word)) = (m = n)"
  by (metis unat_of_nat_small)

lemma unat_inj: "(x = y) = (unat x = unat y)" for x y :: "'a::len word"
  by (simp add: word_unat_eq_iff)

text \<open>Setting and clearing one bit of a word, as the page bitmap does.\<close>

lemma bit_set_one: "bit (w OR 2 ^ i) j \<longleftrightarrow> bit w j \<or> (j = i \<and> i < LENGTH('a))"
  for w :: "'a::len word"
  by (auto simp: bit_simps)

lemma bit_clear_one: "bit (w AND NOT (2 ^ i)) j \<longleftrightarrow> bit w j \<and> j \<noteq> i"
  for w :: "'a::len word"
  using bit_imp_le_length by (auto simp: bit_simps)

lemma and_one_bit_nonzero: "w AND 2 ^ i \<noteq> 0 \<longleftrightarrow> bit w i" for w :: "'a::len word"
proof
  assume "w AND 2 ^ i \<noteq> 0"
  then obtain n where "bit (w AND 2 ^ i) n"
    by (metis bit_0_eq bit_eqI bot_apply bot_bool_def)
  then show "bit w i"
    by (auto simp: bit_simps)
next
  assume b: "bit w i"
  then have "bit (w AND 2 ^ i) i"
    using bit_imp_le_length by (auto simp: bit_simps)
  then show "w AND 2 ^ i \<noteq> 0"
    by auto
qed


section \<open>Byte-addressed memory\<close>

type_synonym memory = "u32 \<Rightarrow> u8"

definition load32 :: "memory \<Rightarrow> u32 \<Rightarrow> u32" where
  "load32 m a = ucast (m a) OR push_bit 8 (ucast (m (a + 1)))
     OR push_bit 16 (ucast (m (a + 2))) OR push_bit 24 (ucast (m (a + 3)))"

definition store32 :: "memory \<Rightarrow> u32 \<Rightarrow> u32 \<Rightarrow> memory" where
  "store32 m a v = m(a := ucast v, a + 1 := ucast (drop_bit 8 v),
     a + 2 := ucast (drop_bit 16 v), a + 3 := ucast (drop_bit 24 v))"

text \<open>The bytes \<open>a \<dots> a + 3\<close> of a 32-bit access.\<close>

definition footprint32 :: "u32 \<Rightarrow> u32 set" where
  "footprint32 a = {a, a + 1, a + 2, a + 3}"

lemma load32_store32_same [simp]: "load32 (store32 m a v) a = v"
proof (rule bit_word_eqI)
  fix n
  assume n: "n < LENGTH(32)"
  consider "n < 8" | "8 \<le> n" "n < 16" | "16 \<le> n" "n < 24" | "24 \<le> n" "n < 32"
    using n by fastforce
  then show "bit (load32 (store32 m a v) a) n = bit v n"
    by cases (auto simp: load32_def store32_def bit_simps less_diff_conv2)
qed

lemma store32_outside: "x \<notin> footprint32 a \<Longrightarrow> store32 m a v x = m x"
  by (simp add: store32_def footprint32_def)

lemma load32_cong: "(\<And>x. x \<in> footprint32 a \<Longrightarrow> m x = m' x) \<Longrightarrow> load32 m a = load32 m' a"
  by (simp add: load32_def footprint32_def)

lemma load32_store32_disjoint:
  "footprint32 a \<inter> footprint32 b = {} \<Longrightarrow> load32 (store32 m a v) b = load32 m b"
  by (rule load32_cong, rule store32_outside) auto

lemma footprint32_unat: "unat a + 4 \<le> 2 ^ 32 \<Longrightarrow> footprint32 a = {x. unat a \<le> unat x \<and> unat x < unat a + 4}"
proof -
  assume a: "unat a + 4 \<le> 2 ^ 32"
  have "unat (a + 1) = unat a + 1" "unat (a + 2) = unat a + 2" "unat (a + 3) = unat a + 3"
    using a by (simp_all add: unat_plus_small)
  then show ?thesis
    by (auto simp: footprint32_def unat_inj)
qed

lemma footprint32_of_nat:
  "a + 4 \<le> 2 ^ 32 \<Longrightarrow> footprint32 (of_nat a) = {x. a \<le> unat x \<and> unat x < a + 4}"
  using footprint32_unat [of "of_nat a"] by (simp add: unat_of_nat_small)

text \<open>Two aligned or otherwise separate 32-bit cells do not interfere.\<close>

lemma load32_store32_apart:
  assumes "a + 4 \<le> 2 ^ 32" "b + 4 \<le> 2 ^ 32" "a + 4 \<le> b \<or> b + 4 \<le> a"
  shows "load32 (store32 m (of_nat a) v) (of_nat b) = load32 m (of_nat b)"
proof (rule load32_store32_disjoint)
  show "footprint32 (of_nat a) \<inter> footprint32 (of_nat b) = {}"
    using assms by (auto simp: footprint32_of_nat)
qed

text \<open>\<open>changes_only S m m'\<close>: outside the addresses \<open>S\<close> the two memories agree.\<close>

definition changes_only :: "nat set \<Rightarrow> memory \<Rightarrow> memory \<Rightarrow> bool" where
  "changes_only S m m' \<longleftrightarrow> (\<forall>x. unat x \<notin> S \<longrightarrow> m' x = m x)"

lemma changes_only_refl [simp]: "changes_only S m m"
  by (simp add: changes_only_def)

lemma changes_only_trans: "changes_only S m m1 \<Longrightarrow> changes_only S m1 m2 \<Longrightarrow> changes_only S m m2"
  by (simp add: changes_only_def)

lemma changes_only_mono: "changes_only S m m' \<Longrightarrow> S \<subseteq> T \<Longrightarrow> changes_only T m m'"
  by (auto simp: changes_only_def)

lemma changes_only_store32: "b + 4 \<le> 2 ^ 32 \<Longrightarrow> changes_only {b..<b + 4} m (store32 m (of_nat b) v)"
  unfolding changes_only_def by (auto intro!: store32_outside simp: footprint32_of_nat)

lemma changes_only_byte: "b < 2 ^ 32 \<Longrightarrow> changes_only {b} m (m(of_nat b := v))"
  unfolding changes_only_def by (auto simp: unat_of_nat_small)

lemma changes_only_load32:
  "changes_only S m m' \<Longrightarrow> {b..<b + 4} \<inter> S = {} \<Longrightarrow> b + 4 \<le> 2 ^ 32 \<Longrightarrow>
   load32 m' (of_nat b) = load32 m (of_nat b)"
  by (rule load32_cong) (auto simp: footprint32_of_nat changes_only_def disjoint_iff)

lemma of_nat_less_u32: "x < 2 ^ 32 \<Longrightarrow> y < 2 ^ 32 \<Longrightarrow> (of_nat x < (of_nat y :: u32)) = (x < y)"
  by (simp add: word_less_nat_alt unat_of_nat_small)

lemma of_nat_nonzero_u32: "0 < x \<Longrightarrow> x < 2 ^ 32 \<Longrightarrow> of_nat x \<noteq> (0 :: u32)"
  using unat_of_nat_small [of x, where 'a = 32] by auto

end
