(* ===== verification/Machine.thy ===== *)
theory Machine
  imports Prelude
begin

text \<open>
  The hardware state the C code touches: EFLAGS, memory, the control registers and the TLB that
  paging uses, and the I/O ports.  The kernel's global variables are added to this record file by
  file (each component theory extends it), so that one state passes through every operation.

  Port input is an environment: \<open>port_in s n port\<close> is what the \<open>n\<close>-th \<^verbatim>\<open>inb\<close> since power-on
  returns when it reads \<open>port\<close>; nothing is assumed about it.  Port output is the sequence of
  \<^verbatim>\<open>outb\<close> instructions executed, oldest first.
\<close>

record machine =
  eflags :: u32
  mem :: memory
  cr0 :: u32
  cr3 :: u32
  tlb :: "u32 \<rightharpoonup> u32"
  port_in :: "nat \<Rightarrow> u16 \<Rightarrow> u8"
  in_count :: nat
  out_trace :: "(u16 \<times> u8) list"

definition outb :: "u16 \<Rightarrow> u8 \<Rightarrow> 'a machine_scheme \<Rightarrow> 'a machine_scheme" where
  "outb port value s = s\<lparr>out_trace := out_trace s @ [(port, value)]\<rparr>"

definition inb :: "u16 \<Rightarrow> 'a machine_scheme \<Rightarrow> u8 \<times> 'a machine_scheme" where
  "inb port s = (port_in s (in_count s) port, s\<lparr>in_count := Suc (in_count s)\<rparr>)"

text \<open>Bit 9 of EFLAGS is the interrupt flag; \<^verbatim>\<open>cli\<close> clears it, \<^verbatim>\<open>popf\<close> reloads the register.\<close>

definition IF_BIT :: u32 where
  "IF_BIT = 0x200"

definition irq_save :: "'a machine_scheme \<Rightarrow> u32 \<times> 'a machine_scheme" where
  "irq_save s = (eflags s, s\<lparr>eflags := eflags s AND NOT IF_BIT\<rparr>)"

definition irq_restore :: "u32 \<Rightarrow> 'a machine_scheme \<Rightarrow> 'a machine_scheme" where
  "irq_restore flags s = s\<lparr>eflags := flags\<rparr>"

definition interrupts_enabled :: "'a machine_scheme \<Rightarrow> bool" where
  "interrupts_enabled s \<longleftrightarrow> eflags s AND IF_BIT \<noteq> 0"

lemma irq_save_disables: "irq_save s = (flags, s') \<Longrightarrow> \<not> interrupts_enabled s'"
  by (auto simp: irq_save_def interrupts_enabled_def and.assoc)

lemma out_trace_outb [simp]: "out_trace (outb p v s) = out_trace s @ [(p, v)]"
  by (simp add: outb_def)

end
