(* ===== verification/Format.thy ===== *)
theory Format
  imports Prelude
begin

text \<open>
  Text output.  The kernel's screen driver (\<^verbatim>\<open>kernel/drivers/video/vga.c\<close>) and the boot
  loader's BIOS output (\<^verbatim>\<open>boot/stage2/lib/print.c\<close>) both print through a function that emits
  one character and contain the same conversion of an unsigned number to digits.  This theory holds
  what they share: the variadic arguments, the digit loop, the interface of a character sink (the
  locale \<open>char_sink\<close>), and the reference definitions the formatted-output functions are proved
  against (\<open>unsigned_text\<close>, \<open>signed_text\<close>, \<open>fmt_text\<close>).

  A C string is the list of its characters before the terminating NUL.
\<close>

section \<open>Variadic arguments\<close>

text \<open>An \<^verbatim>\<open>int\<close> or \<^verbatim>\<open>unsigned int\<close> argument, or a \<^verbatim>\<open>const char*\<close> (\<open>None\<close> is the null pointer).
  \<^verbatim>\<open>va_arg\<close> past the last argument or at another type is undefined.\<close>

datatype c_arg = ArgInt u32 | ArgStr "string option"

fun va_arg_int :: "c_arg list \<Rightarrow> (u32 \<times> c_arg list) option" where
  "va_arg_int (ArgInt w # args) = Some (w, args)"
| "va_arg_int _ = None"

fun va_arg_str :: "c_arg list \<Rightarrow> (string option \<times> c_arg list) option" where
  "va_arg_str (ArgStr p # args) = Some (p, args)"
| "va_arg_str _ = None"


section \<open>Digits\<close>

definition DIGITS :: string where
  "DIGITS = ''0123456789abcdef'' @ [CHR 0x00]"

text \<open>
  The loop \<^verbatim>\<open>while (value != 0u) { buffer[idx++] = digits[value % base]; value /= base; }\<close>
  on \<^verbatim>\<open>char buffer[16]\<close>: \<open>buf\<close> is the part of the buffer written so far, so \<^verbatim>\<open>idx\<close> is its length.
\<close>

function digits_loop :: "u32 \<Rightarrow> u32 \<Rightarrow> string \<Rightarrow> string option" where
  "digits_loop value base buf =
     (if value = 0 then Some buf
      else if base = 0 \<or> 16 \<le> length buf \<or> length DIGITS \<le> unat (value mod base) then None
      else digits_loop (value div base) base (buf @ [DIGITS ! unat (value mod base)]))"
  by pat_completeness auto
termination
  by (relation "measure (\<lambda>(v, b, buf). 16 - length buf)") auto

declare digits_loop.simps [simp del]

text \<open>Reference: the digits of a number, least significant first, and reading them back.\<close>

fun nat_digits :: "nat \<Rightarrow> nat \<Rightarrow> nat list" where
  "nat_digits b n = (if n = 0 \<or> b < 2 then [] else (n mod b) # nat_digits b (n div b))"

declare nat_digits.simps [simp del]

fun digits_value :: "nat \<Rightarrow> nat list \<Rightarrow> nat" where
  "digits_value b [] = 0"
| "digits_value b (d # ds) = d + b * digits_value b ds"

definition digit_char :: "nat \<Rightarrow> char" where
  "digit_char d = DIGITS ! d"

definition char_digit :: "char \<Rightarrow> nat" where
  "char_digit c = (if of_char c < (58::nat) then of_char c - 48 else of_char c - 87)"

lemma char_digit_digit_char: "d < 16 \<Longrightarrow> char_digit (digit_char d) = d"
proof -
  assume "d < 16"
  then have "d \<in> set [0..<16]" by simp
  moreover have "\<forall>d \<in> set [0..<16]. char_digit (digit_char d) = d"
    by code_simp
  ultimately show ?thesis by blast
qed

lemma nat_digits_0 [simp]: "nat_digits b 0 = []"
  by (simp add: nat_digits.simps)

lemma digits_value_nat_digits: "2 \<le> b \<Longrightarrow> digits_value b (nat_digits b n) = n"
proof (induction b n rule: nat_digits.induct)
  case (1 b n)
  then show ?case
    by (cases "n = 0") (simp_all add: nat_digits.simps [of b n] not_less [symmetric])
qed

lemma nat_digits_less: "d \<in> set (nat_digits b n) \<Longrightarrow> d < b"
proof (induction b n rule: nat_digits.induct)
  case (1 b n)
  then show ?case
    by (auto simp: nat_digits.simps [of b n] split: if_splits)
qed

lemma length_nat_digits: "2 \<le> b \<Longrightarrow> n < b ^ k \<Longrightarrow> length (nat_digits b n) \<le> k"
proof (induction k arbitrary: n)
  case 0
  then show ?case by simp
next
  case (Suc k)
  show ?case
  proof (cases "n = 0")
    case False
    have "n div b < b ^ k"
      using Suc.prems by (simp add: less_mult_imp_div_less mult.commute)
    then show ?thesis
      using Suc False by (simp add: nat_digits.simps [of b n])
  qed simp
qed

text \<open>The loop writes the digits of the reference definition; the buffer of 16 characters is
  long enough for every base from 4 to 16, as \<open>2\<^sup>3\<^sup>2 = 4\<^sup>1\<^sup>6\<close>.\<close>

lemma digits_loop_eq:
  assumes "2 \<le> unat base" "unat base \<le> 16" "length buf + length (nat_digits (unat base) (unat v)) \<le> 16"
  shows "digits_loop v base buf = Some (buf @ map digit_char (nat_digits (unat base) (unat v)))"
  using assms
proof (induction v base buf rule: digits_loop.induct)
  case (1 v base buf)
  show ?case
  proof (cases "v = 0")
    case True
    then show ?thesis by (simp add: digits_loop.simps)
  next
    case False
    have nd: "nat_digits (unat base) (unat v) =
        (unat v mod unat base) # nat_digits (unat base) (unat v div unat base)"
      using False "1.prems" by (simp add: nat_digits.simps [of _ "unat v"] unat_eq_0)
    have b0: "base \<noteq> 0" using "1.prems" by auto
    have md: "unat (v mod base) < unat base"
      using "1.prems" by (simp add: unat_mod)
    then have len: "unat (v mod base) < length DIGITS"
      using "1.prems" by (simp add: DIGITS_def)
    have buf: "length buf < 16" using "1.prems" nd by simp
    have "digits_loop (v div base) base (buf @ [DIGITS ! unat (v mod base)]) =
        Some ((buf @ [DIGITS ! unat (v mod base)]) @
          map digit_char (nat_digits (unat base) (unat (v div base))))"
      using False b0 len buf "1.prems" nd by (intro "1.IH") (auto simp: unat_div)
    then show ?thesis
      using False b0 len buf nd
      by (simp add: digits_loop.simps [of v] digit_char_def unat_div unat_mod)
  qed
qed

lemma digits_loop_total:
  assumes "4 \<le> unat base" "unat base \<le> 16"
  shows "digits_loop v base [] = Some (map digit_char (nat_digits (unat base) (unat v)))"
proof -
  have "unat v < 2 ^ 32" using unat_lt [of v] by simp
  also have "(2::nat) ^ 32 = 4 ^ 16" by simp
  also have "(4::nat) ^ 16 \<le> unat base ^ 16" using assms by (intro power_mono) auto
  finally have "length (nat_digits (unat base) (unat v)) \<le> 16"
    using assms by (intro length_nat_digits) auto
  then show ?thesis
    using digits_loop_eq [of base "[]" v] assms by simp
qed


section \<open>Reference text of the conversions\<close>

definition unsigned_text :: "nat \<Rightarrow> u32 \<Rightarrow> string" where
  "unsigned_text base w =
     (if w = 0 then ''0'' else map digit_char (rev (nat_digits base (unat w))))"

definition signed_text :: "u32 \<Rightarrow> string" where
  "signed_text w = (if sint w < 0 then CHR ''-'' # unsigned_text 10 (- w) else unsigned_text 10 w)"

text \<open>Reading a printed number back.\<close>

definition parse_unsigned :: "nat \<Rightarrow> string \<Rightarrow> nat" where
  "parse_unsigned base cs = digits_value base (rev (map char_digit cs))"

lemma unsigned_text_nonempty: "unsigned_text base w \<noteq> [] \<or> base < 2"
  by (auto simp: unsigned_text_def nat_digits.simps [of _ "unat w"] unat_eq_0)

lemma parse_unsigned_text:
  assumes "2 \<le> base" "base \<le> 16"
  shows "parse_unsigned base (unsigned_text base w) = unat w"
proof (cases "w = 0")
  case True
  have "char_digit CHR ''0'' = 0" by code_simp
  with True show ?thesis by (simp add: parse_unsigned_def unsigned_text_def)
next
  case False
  have "map (char_digit \<circ> digit_char) (nat_digits base (unat w)) = nat_digits base (unat w)"
    using nat_digits_less assms by (intro map_idI) (fastforce simp: char_digit_digit_char)
  then show ?thesis
    using False assms
    by (simp add: parse_unsigned_def unsigned_text_def rev_map digits_value_nat_digits)
qed


section \<open>Character sinks\<close>

text \<open>Emitting a string character by character, as the \<^verbatim>\<open>while (*str)\<close> loops do.\<close>

fun put_all :: "(char \<Rightarrow> 's \<Rightarrow> 's option) \<Rightarrow> string \<Rightarrow> 's \<Rightarrow> 's option" where
  "put_all put [] s = Some s"
| "put_all put (c # cs) s = put c s \<bind> put_all put cs"

lemma put_all_append: "put_all put (xs @ ys) s = put_all put xs s \<bind> put_all put ys"
  by (induction xs arbitrary: s) (auto split: bind_splits)

lemma put_all_single [simp]: "put_all put [c] s = put c s"
  by (cases "put c s") auto

text \<open>What a client of a sink relies on: on a good state every character can be emitted and the
  state stays good.  The lemmas below are what formatted output needs of it.\<close>

locale char_sink =
  fixes put :: "char \<Rightarrow> 's \<Rightarrow> 's option"
    and good :: "'s \<Rightarrow> bool"
  assumes put_good: "good s \<Longrightarrow> \<exists>s'. put c s = Some s' \<and> good s'"
begin

lemma put_all_good: "good s \<Longrightarrow> \<exists>s'. put_all put cs s = Some s' \<and> good s'"
proof (induction cs arbitrary: s)
  case (Cons c cs)
  then obtain s1 where "put c s = Some s1" "good s1"
    using put_good by blast
  then show ?case using Cons.IH by simp
qed simp

lemma put_all_invariant:
  assumes step: "\<And>c s s'. good s \<Longrightarrow> put c s = Some s' \<Longrightarrow> f s' = f s"
  shows "good s \<Longrightarrow> put_all put cs s = Some s' \<Longrightarrow> f s' = f s"
proof (induction cs arbitrary: s)
  case (Cons c cs)
  from put_good [OF Cons.prems(1)] obtain s1 where s1: "put c s = Some s1" "good s1"
    by blast
  with Cons have "f s' = f s1" by simp
  with step [OF Cons.prems(1) s1(1)] show ?case by simp
qed simp

end


section \<open>Reference text of a format string\<close>

text \<open>
  The text a format string stands for, for a formatter whose \<^verbatim>\<open>%x\<close> prints \<open>hexpre\<close> before the
  digits.  \<open>None\<close>: the arguments do not match the format string.  A trailing \<^verbatim>\<open>%\<close> prints nothing,
  an unknown conversion prints itself.
\<close>

fun fmt_text :: "string \<Rightarrow> string \<Rightarrow> c_arg list \<Rightarrow> string option" where
  "fmt_text hexpre [] args = Some []"
| "fmt_text hexpre (c # fmt) args =
     (if c \<noteq> CHR ''%'' then map_option ((@) [c]) (fmt_text hexpre fmt args)
      else case fmt of
        [] \<Rightarrow> Some []
      | f # fmt' \<Rightarrow>
          if f = CHR ''%'' then map_option ((@) ''%'') (fmt_text hexpre fmt' args)
          else if f = CHR ''c'' then
            do { (w, args) \<leftarrow> va_arg_int args;
                 map_option ((@) [char_of (unat w)]) (fmt_text hexpre fmt' args) }
          else if f = CHR ''s'' then
            do { (p, args) \<leftarrow> va_arg_str args;
                 map_option ((@) (case p of None \<Rightarrow> ''(null)'' | Some str \<Rightarrow> str))
                   (fmt_text hexpre fmt' args) }
          else if f = CHR ''d'' \<or> f = CHR ''i'' then
            do { (w, args) \<leftarrow> va_arg_int args;
                 map_option ((@) (signed_text w)) (fmt_text hexpre fmt' args) }
          else if f = CHR ''u'' then
            do { (w, args) \<leftarrow> va_arg_int args;
                 map_option ((@) (unsigned_text 10 w)) (fmt_text hexpre fmt' args) }
          else if f = CHR ''x'' then
            do { (w, args) \<leftarrow> va_arg_int args;
                 map_option ((@) (hexpre @ unsigned_text 16 w)) (fmt_text hexpre fmt' args) }
          else map_option ((@) [CHR ''%'', f]) (fmt_text hexpre fmt' args))"

end
