(* ===== verification/Vga.thy ===== *)
theory Vga
  imports Machine Format
begin

text \<open>
  The text terminal of \<^verbatim>\<open>kernel/drivers/video/vga.c\<close>: a buffer of 1000 lines behind an 80 by 25
  window on the memory-mapped screen.  The state adds the file's static variables and the screen
  cells to \<open>machine\<close>; the counters of type \<^verbatim>\<open>size_t\<close> are natural numbers, as \<open>vga_inv\<close> bounds
  every one of them by 1000.  A write outside \<^verbatim>\<open>terminalBuffer\<close> is \<open>None\<close>.

  Shown: every operation is defined on a state that satisfies \<open>vga_inv\<close> and keeps it (no access
  outside the buffer, cursor and window in range, the screen shows the window of the buffer
  whenever no redraw is pending); the effect of each character; formatted output prints exactly
  the reference text of its format string and returns its length.
\<close>

section \<open>State\<close>

definition VGA_WIDTH :: nat where "VGA_WIDTH = 80"
definition VGA_HEIGHT :: nat where "VGA_HEIGHT = 25"
definition TERMINAL_LINES :: nat where "TERMINAL_LINES = 1000"

lemmas vga_dims = VGA_WIDTH_def VGA_HEIGHT_def TERMINAL_LINES_def

record vga = machine +
  terminalBuffer :: "nat \<Rightarrow> nat \<Rightarrow> u16"
  cursorX :: nat
  cursorY :: nat
  viewportY :: nat
  renderPending :: bool
  vgaColor :: u8
  vgaMem :: "nat \<Rightarrow> u16"

definition VGA_COLOR :: "u8 \<Rightarrow> u8 \<Rightarrow> u32" where
  "VGA_COLOR fg bg = ucast fg OR push_bit 4 (ucast bg)"

definition VGA_ENTRY :: "char \<Rightarrow> u8 \<Rightarrow> u8 \<Rightarrow> u16" where
  "VGA_ENTRY ch fg bg = of_char ch OR push_bit 8 (ucast (VGA_COLOR fg bg))"

definition VGA_BLACK :: u8 where "VGA_BLACK = 0x0"
definition VGA_GREEN :: u8 where "VGA_GREEN = 0x2"
definition VGA_RED :: u8 where "VGA_RED = 0x4"
definition VGA_WHITE :: u8 where "VGA_WHITE = 0xF"

definition VGA_CLEAR :: u16 where
  "VGA_CLEAR = VGA_ENTRY CHR '' '' VGA_BLACK VGA_BLACK"

text \<open>\<^verbatim>\<open>VGA_AT(row, col) = v\<close> and \<^verbatim>\<open>terminalBuffer[y][x] = v\<close>.\<close>

definition set_vga_at :: "nat \<Rightarrow> nat \<Rightarrow> u16 \<Rightarrow> (nat \<Rightarrow> u16) \<Rightarrow> (nat \<Rightarrow> u16)" where
  "set_vga_at row col v m = m(row * VGA_WIDTH + col := v)"

definition set_cell :: "nat \<Rightarrow> nat \<Rightarrow> u16 \<Rightarrow> (nat \<Rightarrow> nat \<Rightarrow> u16) \<Rightarrow> (nat \<Rightarrow> nat \<Rightarrow> u16)" where
  "set_cell y x v b = b(y := (b y)(x := v))"


section \<open>Operations\<close>

definition vga_render :: "'a vga_scheme \<Rightarrow> 'a vga_scheme" where
  "vga_render s = s\<lparr>vgaMem :=
     fold (\<lambda>screenY m. let bufferY = viewportY s + screenY in
         fold (\<lambda>x m. set_vga_at screenY x
             (if bufferY < TERMINAL_LINES then terminalBuffer s bufferY x else VGA_CLEAR) m)
           [0..<VGA_WIDTH] m)
       [0..<VGA_HEIGHT] (vgaMem s)\<rparr>"

definition vga_follow_cursor :: "'a vga_scheme \<Rightarrow> 'a vga_scheme" where
  "vga_follow_cursor s =
     (if cursorY s \<ge> viewportY s + VGA_HEIGHT
      then s\<lparr>viewportY := cursorY s - VGA_HEIGHT + 1, renderPending := True\<rparr>
      else s)"

definition vga_write_cell :: "nat \<Rightarrow> nat \<Rightarrow> u16 \<Rightarrow> 'a vga_scheme \<Rightarrow> 'a vga_scheme" where
  "vga_write_cell bufferY x entry s =
     (if \<not> renderPending s \<and> bufferY \<ge> viewportY s \<and> bufferY < viewportY s + VGA_HEIGHT
      then s\<lparr>vgaMem := set_vga_at (bufferY - viewportY s) x entry (vgaMem s)\<rparr>
      else s)"

definition vga_flush :: "'a vga_scheme \<Rightarrow> 'a vga_scheme" where
  "vga_flush s = (if renderPending s then (vga_render s)\<lparr>renderPending := False\<rparr> else s)"

text \<open>\<^verbatim>\<open>terminalBuffer[cursorY][cursorX] = entry; vga_write_cell(cursorY, cursorX, entry);\<close>\<close>

definition put_cell :: "u16 \<Rightarrow> 'a vga_scheme \<Rightarrow> 'a vga_scheme option" where
  "put_cell entry s =
     (if cursorY s < TERMINAL_LINES \<and> cursorX s < VGA_WIDTH
      then Some (vga_write_cell (cursorY s) (cursorX s) entry
        (s\<lparr>terminalBuffer := set_cell (cursorY s) (cursorX s) entry (terminalBuffer s)\<rparr>))
      else None)"

text \<open>The \<^verbatim>\<open>switch\<close> of \<^verbatim>\<open>vga_putchar_raw\<close>.\<close>

definition putchar_switch :: "char \<Rightarrow> 'a vga_scheme \<Rightarrow> 'a vga_scheme option" where
  "putchar_switch c s =
     (if c = CHR 0x09 then
        (let x = (cursorX s + 4) div 4 * 4 in
         Some (if x \<ge> VGA_WIDTH then s\<lparr>cursorX := 0, cursorY := cursorY s + 1\<rparr>
               else s\<lparr>cursorX := x\<rparr>))
      else if c = CHR 0x0A then Some (s\<lparr>cursorX := 0, cursorY := cursorY s + 1\<rparr>)
      else if c = CHR 0x0D then Some (s\<lparr>cursorX := 0\<rparr>)
      else if c = CHR 0x08 then
        (if cursorX s > 0 then put_cell VGA_CLEAR (s\<lparr>cursorX := cursorX s - 1\<rparr>) else Some s)
      else
        do { s \<leftarrow> put_cell (of_char c OR push_bit 8 (ucast (vgaColor s))) s;
             let x = cursorX s + 1;
             Some (if x \<ge> VGA_WIDTH then s\<lparr>cursorX := 0, cursorY := cursorY s + 1\<rparr>
                   else s\<lparr>cursorX := x\<rparr>) })"

text \<open>The two loops that move the buffer up by one line.\<close>

definition copy_lines_up :: "(nat \<Rightarrow> nat \<Rightarrow> u16) \<Rightarrow> (nat \<Rightarrow> nat \<Rightarrow> u16)" where
  "copy_lines_up b = fold (\<lambda>y b. fold (\<lambda>x b. set_cell (y - 1) x (b y x) b) [0..<VGA_WIDTH] b)
     [1..<TERMINAL_LINES] b"

definition clear_last_line :: "(nat \<Rightarrow> nat \<Rightarrow> u16) \<Rightarrow> (nat \<Rightarrow> nat \<Rightarrow> u16)" where
  "clear_last_line b = fold (\<lambda>x b. set_cell (TERMINAL_LINES - 1) x VGA_CLEAR b) [0..<VGA_WIDTH] b"

definition scroll_buffer :: "'a vga_scheme \<Rightarrow> 'a vga_scheme" where
  "scroll_buffer s =
     (if cursorY s \<ge> TERMINAL_LINES
      then s\<lparr>terminalBuffer := clear_last_line (copy_lines_up (terminalBuffer s)),
             cursorY := TERMINAL_LINES - 1, renderPending := True\<rparr>
      else s)"

definition vga_putchar_raw :: "char \<Rightarrow> 'a vga_scheme \<Rightarrow> 'a vga_scheme option" where
  "vga_putchar_raw c s = map_option (\<lambda>s. vga_follow_cursor (scroll_buffer s)) (putchar_switch c s)"

definition vga_print_unsigned :: "u32 \<Rightarrow> u32 \<Rightarrow> 'a vga_scheme \<Rightarrow> (nat \<times> 'a vga_scheme) option" where
  "vga_print_unsigned value base s =
     (if value = 0 then map_option (Pair 1) (vga_putchar_raw CHR ''0'' s)
      else do { buffer \<leftarrow> digits_loop value base [];
                s \<leftarrow> put_all vga_putchar_raw (rev buffer) s;
                Some (length buffer, s) })"

definition vga_print_signed :: "u32 \<Rightarrow> 'a vga_scheme \<Rightarrow> (nat \<times> 'a vga_scheme) option" where
  "vga_print_signed value s =
     (if sint value < 0
      then do { s \<leftarrow> vga_putchar_raw CHR ''-'' s;
                (n, s) \<leftarrow> vga_print_unsigned (- (value + 1) + 1) 10 s;
                Some (1 + n, s) }
      else vga_print_unsigned value 10 s)"

definition vga_set_color :: "u8 \<Rightarrow> u8 \<Rightarrow> 'a vga_scheme \<Rightarrow> 'a vga_scheme" where
  "vga_set_color fg bg s = s\<lparr>vgaColor := ucast (VGA_COLOR fg bg)\<rparr>"

definition vga_set_foreground :: "u8 \<Rightarrow> 'a vga_scheme \<Rightarrow> 'a vga_scheme" where
  "vga_set_foreground fg s = s\<lparr>vgaColor := ucast (VGA_COLOR fg (drop_bit 4 (vgaColor s)))\<rparr>"

definition vga_set_background :: "u8 \<Rightarrow> 'a vga_scheme \<Rightarrow> 'a vga_scheme" where
  "vga_set_background bg s = s\<lparr>vgaColor := ucast (VGA_COLOR (vgaColor s AND 0x0F) bg)\<rparr>"

definition vga_clear :: "'a vga_scheme \<Rightarrow> 'a vga_scheme" where
  "vga_clear s = s\<lparr>
     terminalBuffer := fold (\<lambda>y b. fold (\<lambda>x b. set_cell y x VGA_CLEAR b) [0..<VGA_WIDTH] b)
       [0..<TERMINAL_LINES] (terminalBuffer s),
     cursorX := 0, cursorY := 0, viewportY := 0,
     vgaMem := fold (\<lambda>y m. fold (\<lambda>x m. set_vga_at y x VGA_CLEAR m) [0..<VGA_WIDTH] m)
       [0..<VGA_HEIGHT] (vgaMem s)\<rparr>"

definition vga_putchar :: "char \<Rightarrow> 'a vga_scheme \<Rightarrow> 'a vga_scheme option" where
  "vga_putchar c s =
     (let (flags, s) = irq_save s in
      do { s \<leftarrow> vga_putchar_raw c s;
           Some (irq_restore flags (vga_flush s)) })"

definition vga_write :: "string \<Rightarrow> 'a vga_scheme \<Rightarrow> 'a vga_scheme option" where
  "vga_write str s =
     (let (flags, s) = irq_save s in
      do { s \<leftarrow> put_all vga_putchar_raw str s;
           Some (irq_restore flags (vga_flush s)) })"

definition vga_scroll_up :: "'a vga_scheme \<Rightarrow> 'a vga_scheme" where
  "vga_scroll_up s =
     (if viewportY s > 0 then vga_render (s\<lparr>viewportY := viewportY s - 1\<rparr>) else s)"

definition max_viewport :: "'a vga_scheme \<Rightarrow> nat" where
  "max_viewport s = (if cursorY s \<ge> VGA_HEIGHT then cursorY s - VGA_HEIGHT + 1 else 0)"

definition vga_scroll_down :: "'a vga_scheme \<Rightarrow> 'a vga_scheme" where
  "vga_scroll_down s =
     (if viewportY s < max_viewport s then vga_render (s\<lparr>viewportY := viewportY s + 1\<rparr>) else s)"

definition vga_page_up :: "'a vga_scheme \<Rightarrow> 'a vga_scheme" where
  "vga_page_up s =
     vga_render (if viewportY s \<ge> VGA_HEIGHT then s\<lparr>viewportY := viewportY s - VGA_HEIGHT\<rparr>
                 else s\<lparr>viewportY := 0\<rparr>)"

definition vga_page_down :: "'a vga_scheme \<Rightarrow> 'a vga_scheme" where
  "vga_page_down s =
     (let v = viewportY s + VGA_HEIGHT in
      vga_render (s\<lparr>viewportY := (if v > max_viewport s then max_viewport s else v)\<rparr>))"

definition vga_init :: "'a vga_scheme \<Rightarrow> 'a vga_scheme" where
  "vga_init s = vga_clear s"

text \<open>The \<^verbatim>\<open>while\<close> loop of \<^verbatim>\<open>vvga_write\<close>, with the characters printed so far in \<open>cnt\<close>.\<close>

fun vvga_loop :: "string \<Rightarrow> c_arg list \<Rightarrow> nat \<Rightarrow> 'a vga_scheme \<Rightarrow> (nat \<times> 'a vga_scheme) option" where
  "vvga_loop [] args cnt s = Some (cnt, s)"
| "vvga_loop (c # fmt) args cnt s =
     (if c \<noteq> CHR ''%'' then
        do { s \<leftarrow> vga_putchar_raw c s; vvga_loop fmt args (cnt + 1) s }
      else case fmt of
        [] \<Rightarrow> Some (cnt, s)
      | f # fmt' \<Rightarrow>
          if f = CHR ''%'' then
            do { s \<leftarrow> vga_putchar_raw CHR ''%'' s; vvga_loop fmt' args (cnt + 1) s }
          else if f = CHR ''c'' then
            do { (w, args) \<leftarrow> va_arg_int args;
                 s \<leftarrow> vga_putchar_raw (char_of (unat w)) s;
                 vvga_loop fmt' args (cnt + 1) s }
          else if f = CHR ''s'' then
            do { (p, args) \<leftarrow> va_arg_str args;
                 let str = (case p of None \<Rightarrow> ''(null)'' | Some str \<Rightarrow> str);
                 s \<leftarrow> put_all vga_putchar_raw str s;
                 vvga_loop fmt' args (cnt + length str) s }
          else if f = CHR ''d'' \<or> f = CHR ''i'' then
            do { (w, args) \<leftarrow> va_arg_int args;
                 (n, s) \<leftarrow> vga_print_signed w s;
                 vvga_loop fmt' args (cnt + n) s }
          else if f = CHR ''u'' then
            do { (w, args) \<leftarrow> va_arg_int args;
                 (n, s) \<leftarrow> vga_print_unsigned w 10 s;
                 vvga_loop fmt' args (cnt + n) s }
          else if f = CHR ''x'' then
            do { (w, args) \<leftarrow> va_arg_int args;
                 s \<leftarrow> vga_putchar_raw CHR ''0'' s;
                 s \<leftarrow> vga_putchar_raw CHR ''x'' s;
                 (n, s) \<leftarrow> vga_print_unsigned w 16 s;
                 vvga_loop fmt' args (cnt + 2 + n) s }
          else
            do { s \<leftarrow> vga_putchar_raw CHR ''%'' s;
                 s \<leftarrow> vga_putchar_raw f s;
                 vvga_loop fmt' args (cnt + 2) s })"

definition vvga_write :: "string \<Rightarrow> c_arg list \<Rightarrow> 'a vga_scheme \<Rightarrow> (nat \<times> 'a vga_scheme) option" where
  "vvga_write fmt args s = vvga_loop fmt args 0 s"

definition fvga_write :: "string \<Rightarrow> c_arg list \<Rightarrow> 'a vga_scheme \<Rightarrow> (nat \<times> 'a vga_scheme) option" where
  "fvga_write fmt args s =
     (let (flags, s) = irq_save s in
      do { (cnt, s) \<leftarrow> vvga_write fmt args s;
           Some (cnt, irq_restore flags (vga_flush s)) })"


section \<open>The loops in closed form\<close>

lemma fold_set_vga_row:
  "fold (\<lambda>x m. set_vga_at r x (g x) m) [0..<n] m =
     (\<lambda>i. if r * VGA_WIDTH \<le> i \<and> i < r * VGA_WIDTH + n then g (i - r * VGA_WIDTH) else m i)"
  by (induction n) (auto simp: set_vga_at_def fun_eq_iff)

lemma fold_set_vga_rows:
  "fold (\<lambda>r m. fold (\<lambda>x m. set_vga_at r x (g r x) m) [0..<VGA_WIDTH] m) [0..<n] m =
     (\<lambda>i. if i < n * VGA_WIDTH then g (i div VGA_WIDTH) (i mod VGA_WIDTH) else m i)"
proof (induction n)
  case (Suc n)
  have "i div VGA_WIDTH = n \<and> i mod VGA_WIDTH = i - n * VGA_WIDTH"
    if "n * VGA_WIDTH \<le> i" "i < n * VGA_WIDTH + VGA_WIDTH" for i
  proof -
    have "i div VGA_WIDTH = n" using that by (intro div_nat_eqI) (auto simp: mult.commute)
    then show ?thesis by (simp add: modulo_nat_def)
  qed
  then show ?case
    by (auto simp: Suc fold_set_vga_row [where r = n] fun_eq_iff simp del: upt_Suc
        simp: upt_Suc_append)
qed simp

lemma fold_set_cell_row:
  "fold (\<lambda>x b. set_cell r x (g x) b) [0..<n] b = (\<lambda>y x. if y = r \<and> x < n then g x else b y x)"
  by (induction n) (auto simp: set_cell_def fun_eq_iff)

lemma fold_set_cell_rows:
  "fold (\<lambda>y b. fold (\<lambda>x b. set_cell y x (g y x) b) [0..<VGA_WIDTH] b) [0..<n] b =
     (\<lambda>y x. if y < n \<and> x < VGA_WIDTH then g y x else b y x)"
  by (induction n) (auto simp: fold_set_cell_row fun_eq_iff)

lemma fold_copy_row:
  "r \<noteq> q \<Longrightarrow> fold (\<lambda>x b. set_cell r x (b q x) b) [0..<n] b =
     (\<lambda>y x. if y = r \<and> x < n then b q x else b y x)"
  by (induction n) (auto simp: set_cell_def fun_eq_iff)

lemma fold_copy_rows:
  "fold (\<lambda>y b. fold (\<lambda>x b. set_cell (y - 1) x (b y x) b) [0..<VGA_WIDTH] b) [1..<Suc n] b =
     (\<lambda>y x. if y < n \<and> x < VGA_WIDTH then b (Suc y) x else b y x)"
proof (induction n)
  case (Suc n)
  have "[1..<Suc (Suc n)] = [1..<Suc n] @ [Suc n]" by simp
  then show ?case
    by (simp only: fold_append o_apply fold.simps id_apply Suc diff_Suc_1)
      (auto simp: fold_copy_row fun_eq_iff less_Suc_eq)
qed simp

lemma copy_lines_up_eq:
  "copy_lines_up b =
     (\<lambda>y x. if y < TERMINAL_LINES - 1 \<and> x < VGA_WIDTH then b (Suc y) x else b y x)"
proof -
  have "[1..<TERMINAL_LINES] = [1..<Suc (TERMINAL_LINES - 1)]"
    by (simp add: TERMINAL_LINES_def del: upt_Suc)
  then show ?thesis
    by (simp only: copy_lines_up_def fold_copy_rows)
qed

lemma clear_last_line_eq:
  "clear_last_line b =
     (\<lambda>y x. if y = TERMINAL_LINES - 1 \<and> x < VGA_WIDTH then VGA_CLEAR else b y x)"
  by (simp add: clear_last_line_def fold_set_cell_row)

lemma vgaMem_vga_render:
  "vgaMem (vga_render s) = (\<lambda>i. if i < VGA_HEIGHT * VGA_WIDTH
     then (if viewportY s + i div VGA_WIDTH < TERMINAL_LINES
           then terminalBuffer s (viewportY s + i div VGA_WIDTH) (i mod VGA_WIDTH) else VGA_CLEAR)
     else vgaMem s i)"
  by (simp add: vga_render_def Let_def fold_set_vga_rows)

lemma vga_render_other:
  "vga_render s = s\<lparr>vgaMem := vgaMem (vga_render s)\<rparr>"
  by (simp add: vga_render_def)

lemma vga_render_sel [simp]:
  "terminalBuffer (vga_render s) = terminalBuffer s" "cursorX (vga_render s) = cursorX s"
  "cursorY (vga_render s) = cursorY s" "viewportY (vga_render s) = viewportY s"
  "renderPending (vga_render s) = renderPending s" "vgaColor (vga_render s) = vgaColor s"
  "eflags (vga_render s) = eflags s"
  by (simp_all add: vga_render_def)


section \<open>The invariant\<close>

text \<open>The screen shows the 25 buffer lines from \<open>viewportY\<close> on.\<close>

definition screen_shows_window :: "'a vga_scheme \<Rightarrow> bool" where
  "screen_shows_window s \<longleftrightarrow> (\<forall>y < VGA_HEIGHT. \<forall>x < VGA_WIDTH.
     vgaMem s (y * VGA_WIDTH + x) = terminalBuffer s (viewportY s + y) x)"

definition vga_inv :: "'a vga_scheme \<Rightarrow> bool" where
  "vga_inv s \<longleftrightarrow> cursorX s < VGA_WIDTH \<and> cursorY s < TERMINAL_LINES \<and>
     viewportY s \<le> max_viewport s \<and> (\<not> renderPending s \<longrightarrow> screen_shows_window s)"

lemma max_viewport_bound: "cursorY s < TERMINAL_LINES \<Longrightarrow> max_viewport s + VGA_HEIGHT \<le> TERMINAL_LINES"
  by (auto simp: max_viewport_def vga_dims)

lemma max_viewport_cong: "cursorY s = cursorY t \<Longrightarrow> max_viewport s = max_viewport t"
  by (simp add: max_viewport_def)

lemma max_viewport_upd [simp]:
  "max_viewport (s\<lparr>viewportY := v\<rparr>) = max_viewport s"
  "max_viewport (s\<lparr>renderPending := b\<rparr>) = max_viewport s"
  "max_viewport (s\<lparr>vgaMem := m\<rparr>) = max_viewport s"
  "max_viewport (s\<lparr>terminalBuffer := buf\<rparr>) = max_viewport s"
  "max_viewport (s\<lparr>cursorX := x\<rparr>) = max_viewport s"
  "max_viewport (s\<lparr>eflags := f\<rparr>) = max_viewport s"
  "max_viewport (vga_render s) = max_viewport s"
  by (simp_all add: max_viewport_def)

lemma screen_after_render:
  assumes "viewportY s + VGA_HEIGHT \<le> TERMINAL_LINES"
  shows "screen_shows_window (vga_render s)"
proof -
  have "y * VGA_WIDTH + x < VGA_HEIGHT * VGA_WIDTH \<and> (y * VGA_WIDTH + x) div VGA_WIDTH = y \<and>
      (y * VGA_WIDTH + x) mod VGA_WIDTH = x" if "y < VGA_HEIGHT" "x < VGA_WIDTH" for y x
    using that by (simp add: vga_dims)
  then show ?thesis
    using assms by (simp add: screen_shows_window_def vgaMem_vga_render)
qed

lemma vga_inv_render:
  assumes "vga_inv s" "v \<le> max_viewport s"
  shows "vga_inv (vga_render (s\<lparr>viewportY := v\<rparr>)) \<and> screen_shows_window (vga_render (s\<lparr>viewportY := v\<rparr>))"
proof -
  have "v + VGA_HEIGHT \<le> TERMINAL_LINES"
    using assms max_viewport_bound [of s] by (simp add: vga_inv_def)
  then have "screen_shows_window (vga_render (s\<lparr>viewportY := v\<rparr>))"
    by (simp add: screen_after_render)
  then show ?thesis
    using assms by (simp add: vga_inv_def)
qed

lemma vga_inv_flush:
  assumes "vga_inv s"
  shows "vga_inv (vga_flush s) \<and> \<not> renderPending (vga_flush s) \<and> screen_shows_window (vga_flush s)"
proof (cases "renderPending s")
  case True
  have "screen_shows_window (vga_render s)"
    using assms max_viewport_bound [of s] by (intro screen_after_render) (simp add: vga_inv_def)
  with assms True show ?thesis
    by (simp add: vga_inv_def vga_flush_def screen_shows_window_def)
next
  case False
  with assms show ?thesis by (simp add: vga_inv_def vga_flush_def)
qed

lemma vga_flush_sel [simp]:
  "terminalBuffer (vga_flush s) = terminalBuffer s" "cursorX (vga_flush s) = cursorX s"
  "cursorY (vga_flush s) = cursorY s" "viewportY (vga_flush s) = viewportY s"
  "eflags (vga_flush s) = eflags s"
  by (simp_all add: vga_flush_def)

lemma vga_inv_irq [simp]: "vga_inv (s\<lparr>eflags := f\<rparr>) = vga_inv s"
  by (simp add: vga_inv_def screen_shows_window_def)

lemma vga_render_irq [simp]: "vga_render (s\<lparr>eflags := f\<rparr>) = (vga_render s)\<lparr>eflags := f\<rparr>"
  by (rule vga.equality) (simp_all add: vgaMem_vga_render fun_eq_iff, simp_all add: vga_render_def)

lemma cell_index_inj:
  assumes "x < VGA_WIDTH" "x' < VGA_WIDTH"
  shows "(y * VGA_WIDTH + x = y' * VGA_WIDTH + x') = (y = y' \<and> x = x')"
proof
  assume eq: "y * VGA_WIDTH + x = y' * VGA_WIDTH + x'"
  have "(y * VGA_WIDTH + x) div VGA_WIDTH = y" "(y' * VGA_WIDTH + x') div VGA_WIDTH = y'"
    using assms by simp_all
  with eq show "y = y' \<and> x = x'" by simp
qed simp

text \<open>Writing the cell under the cursor keeps the screen in step with the buffer.\<close>

lemma screen_write_cell:
  assumes "screen_shows_window s" "y < TERMINAL_LINES" "x < VGA_WIDTH" "\<not> renderPending s"
  shows "screen_shows_window (vga_write_cell y x e (s\<lparr>terminalBuffer := set_cell y x e (terminalBuffer s)\<rparr>))"
  unfolding screen_shows_window_def
proof (intro allI impI)
  fix y' x'
  assume b: "y' < VGA_HEIGHT" "x' < VGA_WIDTH"
  then have old: "vgaMem s (y' * VGA_WIDTH + x') = terminalBuffer s (viewportY s + y') x'"
    using assms by (simp add: screen_shows_window_def)
  show "vgaMem (vga_write_cell y x e (s\<lparr>terminalBuffer := set_cell y x e (terminalBuffer s)\<rparr>))
      (y' * VGA_WIDTH + x') = terminalBuffer (vga_write_cell y x e (s\<lparr>terminalBuffer :=
      set_cell y x e (terminalBuffer s)\<rparr>)) (viewportY (vga_write_cell y x e (s\<lparr>terminalBuffer :=
      set_cell y x e (terminalBuffer s)\<rparr>)) + y') x'"
    using assms b old cell_index_inj [OF b(2) assms(3), of y' "y - viewportY s"]
    by (auto simp: vga_write_cell_def set_vga_at_def set_cell_def)
qed

lemma put_cell_inv:
  assumes "vga_inv s"
  shows "\<exists>s'. put_cell e s = Some s' \<and> vga_inv s' \<and>
    s' = s\<lparr>terminalBuffer := set_cell (cursorY s) (cursorX s) e (terminalBuffer s), vgaMem := vgaMem s'\<rparr>"
proof -
  let ?s = "s\<lparr>terminalBuffer := set_cell (cursorY s) (cursorX s) e (terminalBuffer s)\<rparr>"
  let ?t = "vga_write_cell (cursorY s) (cursorX s) e ?s"
  have t: "?t = ?s\<lparr>vgaMem := vgaMem ?t\<rparr>"
    by (simp add: vga_write_cell_def)
  have sel: "cursorX ?t = cursorX s" "cursorY ?t = cursorY s" "viewportY ?t = viewportY s"
    "renderPending ?t = renderPending s" "max_viewport ?t = max_viewport s"
    by (simp_all add: vga_write_cell_def)
  have inv: "vga_inv ?t"
    using assms screen_write_cell [of s "cursorY s" "cursorX s" e]
    by (simp add: vga_inv_def sel)
  have "put_cell e s = Some ?t"
    using assms by (simp add: put_cell_def vga_inv_def)
  then show ?thesis
    by (intro exI [of _ ?t] conjI inv t)
qed


text \<open>The rest of the state: what no output operation touches (apart from the interrupt flag, which
  the operations of the interface save and restore).\<close>

definition vga_rest :: "'a vga_scheme \<Rightarrow> 'a vga_scheme" where
  "vga_rest s = s\<lparr>terminalBuffer := (\<lambda>_ _. 0), cursorX := 0, cursorY := 0, viewportY := 0,
     renderPending := False, vgaMem := (\<lambda>_. 0)\<rparr>"

lemma vga_rest_upd [simp]:
  "vga_rest (s\<lparr>terminalBuffer := b\<rparr>) = vga_rest s" "vga_rest (s\<lparr>cursorX := x\<rparr>) = vga_rest s"
  "vga_rest (s\<lparr>cursorY := y\<rparr>) = vga_rest s" "vga_rest (s\<lparr>viewportY := v\<rparr>) = vga_rest s"
  "vga_rest (s\<lparr>renderPending := p\<rparr>) = vga_rest s" "vga_rest (s\<lparr>vgaMem := m\<rparr>) = vga_rest s"
  "vga_rest (vga_render s) = vga_rest s" "vga_rest (vga_flush s) = vga_rest s"
  by (simp_all add: vga_rest_def vga_render_def vga_flush_def)

lemma vga_rest_eflags: "vga_rest (s\<lparr>eflags := f\<rparr>) = (vga_rest s)\<lparr>eflags := f\<rparr>"
  by (rule vga.equality) (simp_all add: vga_rest_def)

lemma vga_rest_sel:
  "eflags (vga_rest s) = eflags s" "mem (vga_rest s) = mem s" "cr0 (vga_rest s) = cr0 s"
  "cr3 (vga_rest s) = cr3 s" "tlb (vga_rest s) = tlb s" "port_in (vga_rest s) = port_in s"
  "in_count (vga_rest s) = in_count s" "out_trace (vga_rest s) = out_trace s"
  "vgaColor (vga_rest s) = vgaColor s" "vga.more (vga_rest s) = vga.more s"
  by (simp_all add: vga_rest_def)


section \<open>One character\<close>

text \<open>Between the \<^verbatim>\<open>switch\<close> and the end of \<^verbatim>\<open>vga_putchar_raw\<close> the cursor may stand one line below
  the buffer.\<close>

definition switched :: "'a vga_scheme \<Rightarrow> bool" where
  "switched s \<longleftrightarrow> cursorX s < VGA_WIDTH \<and> cursorY s \<le> TERMINAL_LINES \<and>
     viewportY s \<le> max_viewport s \<and> viewportY s + VGA_HEIGHT \<le> TERMINAL_LINES \<and>
     (\<not> renderPending s \<longrightarrow> screen_shows_window s)"

lemma vga_inv_switched: "vga_inv s \<Longrightarrow> switched s"
  using max_viewport_bound [of s] by (auto simp: vga_inv_def switched_def)

lemma screen_shows_window_upd [simp]:
  "screen_shows_window (s\<lparr>cursorX := x\<rparr>) = screen_shows_window s"
  "screen_shows_window (s\<lparr>cursorY := y\<rparr>) = screen_shows_window s"
  "screen_shows_window (s\<lparr>renderPending := p\<rparr>) = screen_shows_window s"
  by (simp_all add: screen_shows_window_def)

lemma vga_inv_cursorX: "vga_inv s \<Longrightarrow> x < VGA_WIDTH \<Longrightarrow> vga_inv (s\<lparr>cursorX := x\<rparr>)"
  by (simp add: vga_inv_def)

lemma switched_next_line:
  assumes "vga_inv s"
  shows "switched (s\<lparr>cursorX := 0, cursorY := cursorY s + 1\<rparr>)"
proof -
  have "max_viewport s \<le> max_viewport (s\<lparr>cursorX := 0, cursorY := cursorY s + 1\<rparr>)"
    by (auto simp: max_viewport_def)
  then show ?thesis
    using assms max_viewport_bound [of s]
    by (simp add: vga_inv_def switched_def VGA_WIDTH_def)
qed

lemma switched_advance:
  assumes "vga_inv s"
  shows "switched (if x \<ge> VGA_WIDTH then s\<lparr>cursorX := 0, cursorY := cursorY s + 1\<rparr> else s\<lparr>cursorX := x\<rparr>)"
  using switched_next_line [OF assms] vga_inv_switched [OF vga_inv_cursorX [OF assms, of x]] by auto

lemma putchar_switch_switched:
  assumes "vga_inv s"
  shows "\<exists>s'. putchar_switch c s = Some s' \<and> switched s' \<and> vga_rest s' = vga_rest s"
proof -
  have cell: "\<exists>t. put_cell e s1 = Some t \<and> vga_inv t \<and> vga_rest t = vga_rest s1"
    if "vga_inv s1" for e and s1 :: "'a vga_scheme"
    using put_cell_inv [OF that, of e] by (metis vga_rest_upd(1,6))
  consider (tab) "c = CHR 0x09" | (nl) "c = CHR 0x0A" | (cr) "c = CHR 0x0D" | (bs) "c = CHR 0x08"
    | (plain) "c \<noteq> CHR 0x09" "c \<noteq> CHR 0x0A" "c \<noteq> CHR 0x0D" "c \<noteq> CHR 0x08"
    by blast
  then show ?thesis
  proof cases
    case tab
    then show ?thesis
      using switched_advance [OF assms, of "(cursorX s + 4) div 4 * 4"]
      by (simp add: putchar_switch_def Let_def)
  next
    case nl
    then show ?thesis
      using switched_next_line [OF assms] by (simp add: putchar_switch_def)
  next
    case cr
    then show ?thesis
      using vga_inv_switched [OF vga_inv_cursorX [OF assms, of 0]]
      by (simp add: putchar_switch_def VGA_WIDTH_def)
  next
    case bs
    have "vga_inv (s\<lparr>cursorX := cursorX s - 1\<rparr>)"
      using assms by (intro vga_inv_cursorX) (auto simp: vga_inv_def)
    from cell [OF this, of VGA_CLEAR] show ?thesis
      using bs vga_inv_switched [OF assms] vga_inv_switched by (auto simp: putchar_switch_def)
  next
    case plain
    obtain t where t: "put_cell (of_char c OR push_bit 8 (ucast (vgaColor s))) s = Some t"
        "vga_inv t" "vga_rest t = vga_rest s"
      using cell [OF assms] by blast
    then show ?thesis
      using plain switched_advance [OF t(2), of "cursorX t + 1"]
      by (auto simp: putchar_switch_def Let_def split: if_splits)
  qed
qed

lemma switched_scroll_follow:
  assumes "switched s"
  shows "vga_inv (vga_follow_cursor (scroll_buffer s)) \<and>
    cursorY (vga_follow_cursor (scroll_buffer s)) <
      viewportY (vga_follow_cursor (scroll_buffer s)) + VGA_HEIGHT \<and>
    vga_rest (vga_follow_cursor (scroll_buffer s)) = vga_rest s"
  using assms
  by (auto simp: vga_inv_def switched_def vga_follow_cursor_def scroll_buffer_def max_viewport_def vga_dims)

lemma vga_putchar_raw_inv:
  assumes "vga_inv s"
  shows "\<exists>s'. vga_putchar_raw c s = Some s' \<and> vga_inv s' \<and>
    cursorY s' < viewportY s' + VGA_HEIGHT \<and> vga_rest s' = vga_rest s"
proof -
  obtain t where "putchar_switch c s = Some t" "switched t" "vga_rest t = vga_rest s"
    using putchar_switch_switched [OF assms] by blast
  then show ?thesis
    using switched_scroll_follow [of t] by (simp add: vga_putchar_raw_def)
qed

text \<open>The screen driver is a character sink.\<close>

interpretation screen: char_sink vga_putchar_raw vga_inv
  by unfold_locales (use vga_putchar_raw_inv in blast)

lemma put_all_rest:
  "vga_inv s \<Longrightarrow> put_all vga_putchar_raw cs s = Some s' \<Longrightarrow> vga_rest s' = vga_rest s"
  by (erule (1) screen.put_all_invariant [where f = vga_rest, rotated])
    (metis option.inject vga_putchar_raw_inv)



section \<open>The operations of the interface\<close>

lemma vga_rest_init: "vga_rest (s\<lparr>eflags := e\<rparr>) = vga_rest t \<Longrightarrow> vga_rest (t\<lparr>eflags := eflags s\<rparr>) = vga_rest s"
  by (metis (no_types, lifting) vga_rest_eflags vga_rest_sel(1) machine.surjective machine.update_convs(1))

text \<open>\<^verbatim>\<open>vga_write\<close> prints the whole string, leaves the screen showing the window, and restores the
  interrupt flag.\<close>

definition vga_shown :: "'a vga_scheme \<Rightarrow> bool" where
  "vga_shown s \<longleftrightarrow> vga_inv s \<and> \<not> renderPending s \<and> screen_shows_window s"

lemma vga_write_shown:
  assumes "vga_inv s"
  shows "\<exists>s'. vga_write str s = Some s' \<and> vga_shown s' \<and> vga_rest s' = vga_rest s"
proof -
  let ?s = "s\<lparr>eflags := eflags s AND NOT IF_BIT\<rparr>"
  have inv: "vga_inv ?s" using assms by simp
  then obtain t where t: "put_all vga_putchar_raw str ?s = Some t" "vga_inv t"
    using screen.put_all_good by blast
  from put_all_rest [OF inv t(1)] have "vga_rest ((vga_flush t)\<lparr>eflags := eflags s\<rparr>) = vga_rest s"
    by (intro vga_rest_init) simp
  then show ?thesis
    using t vga_inv_flush [OF t(2)]
    by (simp add: vga_write_def irq_save_def irq_restore_def vga_shown_def screen_shows_window_def)
qed

lemma vga_putchar_eq_write: "vga_putchar c s = vga_write [c] s"
  by (simp add: vga_putchar_def vga_write_def)

text \<open>Formatted output is plain output of the reference text.\<close>

lemma vga_print_unsigned_text:
  assumes "4 \<le> unat base" "unat base \<le> 16"
  shows "vga_print_unsigned v base s =
    map_option (Pair (length (unsigned_text (unat base) v)))
      (put_all vga_putchar_raw (unsigned_text (unat base) v) s)"
  using assms
  by (auto simp: vga_print_unsigned_def unsigned_text_def digits_loop_total rev_map map_option_case
      split: bind_splits)

lemma vga_print_signed_text:
  "vga_print_signed v s =
    map_option (Pair (length (signed_text v))) (put_all vga_putchar_raw (signed_text v) s)"
  by (auto simp: vga_print_signed_def signed_text_def vga_print_unsigned_text map_option_case
      split: bind_splits option.splits)

lemma vvga_loop_text:
  "vvga_loop fmt args cnt s =
     do { t \<leftarrow> fmt_text ''0x'' fmt args;
          s' \<leftarrow> put_all vga_putchar_raw t s;
          Some (cnt + length t, s') }"
proof (induction "length fmt" arbitrary: fmt args cnt s rule: less_induct)
  case less
  note IH = less.hyps
  show ?case
  proof (cases fmt)
    case (Cons c fmt1)
    show ?thesis
    proof (cases "c = CHR ''%''")
      case False
      then show ?thesis
        using IH [of fmt1] Cons by (auto simp: map_option_case split: bind_splits option.splits)
    next
      case True
      show ?thesis
      proof (cases fmt1)
        case (Cons f fmt')
        have out: "(put_all vga_putchar_raw u s \<bind> vvga_loop fmt' args (cnt + length u)) =
            do { t \<leftarrow> map_option ((@) u) (fmt_text ''0x'' fmt' args);
                 s' \<leftarrow> put_all vga_putchar_raw t s; Some (cnt + length t, s') }"
          for u args cnt and s :: "'a vga_scheme"
        proof (cases "fmt_text ''0x'' fmt' args")
          case None
          then show ?thesis
            using IH [of fmt' args] by (simp add: Cons \<open>fmt = c # fmt1\<close> split: bind_split)
        next
          case (Some t)
          then show ?thesis
            using IH [of fmt' args]
            by (cases "put_all vga_putchar_raw u s")
              (simp_all add: Cons \<open>fmt = c # fmt1\<close> put_all_append add.assoc)
        qed
        note out1 = out [of "[c]" for c, unfolded put_all_single, simplified]
        note out2 = out [of "[c, d]" for c d, simplified]
        note out3 = out [of "c # d # cs" for c d cs, simplified]
        note eqs = Cons \<open>fmt = c # fmt1\<close> True Let_def vga_print_unsigned_text
          vga_print_signed_text bind_map_option o_def add.assoc split_def
        show ?thesis
        proof (cases "f \<in> set ''%csdiu''")
          case True
          then show ?thesis by (auto simp: eqs out1 out)
        next
          case False
          then show ?thesis by (cases "f = CHR ''x''") (simp_all add: eqs out2 out3)
        qed
      qed (simp add: True \<open>fmt = c # fmt1\<close>)
    qed
  qed simp
qed


lemma fvga_write_text:
  "fvga_write fmt args s =
     do { t \<leftarrow> fmt_text ''0x'' fmt args; s' \<leftarrow> vga_write t s; Some (length t, s') }"
  by (simp add: fvga_write_def vvga_write_def vvga_loop_text vga_write_def irq_save_def)

lemma fvga_write_shown:
  assumes "vga_inv s" "fmt_text ''0x'' fmt args = Some t"
  shows "\<exists>s'. fvga_write fmt args s = Some (length t, s') \<and> vga_shown s' \<and> vga_rest s' = vga_rest s"
  using vga_write_shown [OF assms(1), of t] assms(2) by (auto simp: fvga_write_text)

lemma vga_clear_shown:
  "vga_inv (vga_clear s) \<and> screen_shows_window (vga_clear s)"
proof -
  have "vgaMem (vga_clear s) = (\<lambda>i. if i < VGA_HEIGHT * VGA_WIDTH then VGA_CLEAR else vgaMem s i)"
    using fold_set_vga_rows [where g = "\<lambda>_ _. VGA_CLEAR"] by (simp add: vga_clear_def)
  moreover have "terminalBuffer (vga_clear s) =
      (\<lambda>y x. if y < TERMINAL_LINES \<and> x < VGA_WIDTH then VGA_CLEAR else terminalBuffer s y x)"
    using fold_set_cell_rows [where g = "\<lambda>_ _. VGA_CLEAR"] by (simp add: vga_clear_def)
  ultimately have "screen_shows_window (vga_clear s)"
    by (simp add: screen_shows_window_def) (simp add: vga_clear_def vga_dims)
  then show ?thesis
    by (simp add: vga_inv_def) (simp add: vga_clear_def vga_dims max_viewport_def)
qed

lemma vga_scroll_shown:
  assumes "vga_inv s"
  shows "vga_inv (vga_scroll_up s)" "vga_inv (vga_scroll_down s)"
    "vga_inv (vga_page_up s)" "vga_inv (vga_page_down s)"
  using assms vga_inv_render [OF assms]
  by (auto simp: vga_scroll_up_def vga_scroll_down_def vga_page_up_def vga_page_down_def Let_def vga_inv_def)


section \<open>What a line of text does\<close>

definition printable :: "char \<Rightarrow> bool" where
  "printable c \<longleftrightarrow> c \<notin> {CHR 0x08, CHR 0x09, CHR 0x0A, CHR 0x0D}"

definition text_entry :: "u8 \<Rightarrow> char \<Rightarrow> u16" where
  "text_entry col c = of_char c OR push_bit 8 (ucast col)"

lemma vga_putchar_raw_printable:
  assumes "vga_inv s" "printable c" "cursorX s + 1 < VGA_WIDTH"
  shows "\<exists>s'. vga_putchar_raw c s = Some s' \<and> vga_inv s' \<and> vgaColor s' = vgaColor s \<and>
    cursorX s' = cursorX s + 1 \<and> cursorY s' = cursorY s \<and>
    terminalBuffer s' = set_cell (cursorY s) (cursorX s) (text_entry (vgaColor s) c) (terminalBuffer s)"
proof -
  obtain t where t: "put_cell (text_entry (vgaColor s) c) s = Some t" "vga_inv t"
    "t = s\<lparr>terminalBuffer := set_cell (cursorY s) (cursorX s) (text_entry (vgaColor s) c)
       (terminalBuffer s), vgaMem := vgaMem t\<rparr>"
    using put_cell_inv [OF assms(1)] by blast
  have sel: "cursorX t = cursorX s" "cursorY t = cursorY s" "vgaColor t = vgaColor s"
    "terminalBuffer t = set_cell (cursorY s) (cursorX s) (text_entry (vgaColor s) c) (terminalBuffer s)"
    by (subst t(3); simp)+
  let ?u = "t\<lparr>cursorX := cursorX s + 1\<rparr>"
  have "putchar_switch c s = Some ?u"
    using assms(2,3) t(1) by (simp add: putchar_switch_def printable_def text_entry_def sel)
  moreover have "scroll_buffer ?u = ?u"
    using t(2) by (simp add: scroll_buffer_def vga_inv_def)
  ultimately have eq: "vga_putchar_raw c s = Some (vga_follow_cursor ?u)"
    by (simp add: vga_putchar_raw_def)
  then have "vga_inv (vga_follow_cursor ?u)"
    using vga_putchar_raw_inv [OF assms(1), of c] by auto
  then show ?thesis
    unfolding eq by (simp add: vga_follow_cursor_def sel)
qed

lemma put_all_line:
  assumes "vga_inv s" "list_all printable cs" "cursorX s + length cs < VGA_WIDTH"
  shows "\<exists>s'. put_all vga_putchar_raw cs s = Some s' \<and> vga_inv s' \<and> vgaColor s' = vgaColor s \<and>
    cursorX s' = cursorX s + length cs \<and> cursorY s' = cursorY s \<and>
    terminalBuffer s' = (\<lambda>y x. if y = cursorY s \<and> cursorX s \<le> x \<and> x < cursorX s + length cs
      then text_entry (vgaColor s) (cs ! (x - cursorX s)) else terminalBuffer s y x)"
  using assms
proof (induction cs arbitrary: s)
  case (Cons c cs)
  then obtain t where t: "vga_putchar_raw c s = Some t" "vga_inv t" "vgaColor t = vgaColor s"
    "cursorX t = cursorX s + 1" "cursorY t = cursorY s"
    "terminalBuffer t = set_cell (cursorY s) (cursorX s) (text_entry (vgaColor s) c) (terminalBuffer s)"
    using vga_putchar_raw_printable [of s c] by auto
  obtain s' where s': "put_all vga_putchar_raw cs t = Some s'" "vga_inv s'" "vgaColor s' = vgaColor t"
    "cursorX s' = cursorX t + length cs" "cursorY s' = cursorY t"
    "terminalBuffer s' = (\<lambda>y x. if y = cursorY t \<and> cursorX t \<le> x \<and> x < cursorX t + length cs
      then text_entry (vgaColor t) (cs ! (x - cursorX t)) else terminalBuffer t y x)"
    using Cons.IH [of t] Cons.prems t by auto
  have "terminalBuffer s' = (\<lambda>y x. if y = cursorY s \<and> cursorX s \<le> x \<and> x < cursorX s + length (c # cs)
      then text_entry (vgaColor s) ((c # cs) ! (x - cursorX s)) else terminalBuffer s y x)"
    unfolding s'(6) t by (auto simp: fun_eq_iff set_cell_def nth_Cons' not_less_eq_eq)
  with s' t show ?case by auto
qed (auto simp: fun_eq_iff)

lemma vga_write_line:
  assumes "vga_inv s" "list_all printable str" "cursorX s + length str < VGA_WIDTH"
  shows "\<exists>s'. vga_write str s = Some s' \<and> vga_shown s' \<and>
    cursorX s' = cursorX s + length str \<and> cursorY s' = cursorY s \<and>
    terminalBuffer s' = (\<lambda>y x. if y = cursorY s \<and> cursorX s \<le> x \<and> x < cursorX s + length str
      then text_entry (vgaColor s) (str ! (x - cursorX s)) else terminalBuffer s y x)"
proof -
  let ?s = "s\<lparr>eflags := eflags s AND NOT IF_BIT\<rparr>"
  obtain t where t: "put_all vga_putchar_raw str ?s = Some t"
    "cursorX t = cursorX s + length str" "cursorY t = cursorY s"
    "terminalBuffer t = (\<lambda>y x. if y = cursorY s \<and> cursorX s \<le> x \<and> x < cursorX s + length str
      then text_entry (vgaColor s) (str ! (x - cursorX s)) else terminalBuffer s y x)"
    using put_all_line [of ?s str] assms by (auto cong: if_cong)
  obtain s' where "vga_write str s = Some s'" "vga_shown s'"
    using vga_write_shown [OF assms(1)] by blast
  moreover have "vga_write str s = Some ((vga_flush t)\<lparr>eflags := eflags s\<rparr>)"
    using t(1) by (simp add: vga_write_def irq_save_def irq_restore_def)
  ultimately show ?thesis
    using t by auto
qed

text \<open>A newline on the last buffer line moves everything up and leaves an empty line.\<close>

lemma vga_putchar_newline_scrolls:
  assumes "vga_inv s" "cursorY s = TERMINAL_LINES - 1"
  shows "\<exists>s'. vga_putchar CHR 0x0A s = Some s' \<and> vga_shown s' \<and>
    cursorX s' = 0 \<and> cursorY s' = TERMINAL_LINES - 1 \<and>
    viewportY s' = TERMINAL_LINES - VGA_HEIGHT \<and>
    (\<forall>x < VGA_WIDTH. terminalBuffer s' (TERMINAL_LINES - 1) x = VGA_CLEAR \<and>
      (\<forall>y < TERMINAL_LINES - 1. terminalBuffer s' y x = terminalBuffer s (Suc y) x))"
proof -
  obtain s' where s': "vga_putchar CHR 0x0A s = Some s'" "vga_shown s'"
    using vga_write_shown [OF assms(1), of "[CHR 0x0A]"] by (auto simp: vga_putchar_eq_write)
  have eq: "s' = (vga_flush (vga_follow_cursor (scroll_buffer (s\<lparr>eflags := eflags s AND NOT IF_BIT,
      cursorX := 0, cursorY := TERMINAL_LINES\<rparr>))))\<lparr>eflags := eflags s\<rparr>"
    using s'(1) assms(2)
    by (simp add: vga_putchar_def irq_save_def irq_restore_def vga_putchar_raw_def putchar_switch_def
        TERMINAL_LINES_def)
  show ?thesis
  proof (intro exI conjI)
    show "viewportY s' = TERMINAL_LINES - VGA_HEIGHT"
      using assms by (auto simp: eq vga_follow_cursor_def scroll_buffer_def vga_inv_def max_viewport_def vga_dims)
  qed (use s' in \<open>auto simp: eq vga_follow_cursor_def scroll_buffer_def clear_last_line_eq copy_lines_up_eq vga_dims\<close>)
qed


section \<open>Properties\<close>

text \<open>The statics of \<^verbatim>\<open>vga.c\<close> as the kernel image loads them, on a machine that has just enabled interrupts.\<close>

definition vga_loaded :: vga where
  "vga_loaded = \<lparr>eflags = 0x202, mem = (\<lambda>_. 0), cr0 = 0, cr3 = 0, tlb = (\<lambda>_. None), port_in = (\<lambda>_ _. 0),
     in_count = 0, out_trace = [], terminalBuffer = (\<lambda>_ _. 0), cursorX = 0, cursorY = 0, viewportY = 0,
     renderPending = False, vgaColor = ucast (VGA_COLOR VGA_WHITE VGA_BLACK), vgaMem = (\<lambda>_. 0)\<rparr>"

lemma vga_loaded_inv: "vga_inv (vga_init vga_loaded)"
  by (simp add: vga_init_def vga_clear_shown)

lemma vga_init_fields [simp]:
  "cursorX (vga_init s) = 0" "cursorY (vga_init s) = 0" "viewportY (vga_init s) = 0" "vgaColor (vga_init s) = vgaColor s"
  by (simp_all add: vga_init_def vga_clear_def)

text \<open>C11. Writing any string (control characters, wrapped lines and scrolling included) never indexes
  outside the terminal buffer, leaves the cursor and the viewport in range and the 25 lines of video
  memory equal to the viewport, and restores every other part of the state, the interrupt flag included.\<close>

theorem vga_write_safe:
  assumes "vga_inv s"
  shows "\<exists>s'. vga_write str s = Some s' \<and> vga_inv s' \<and> screen_shows_window s' \<and> vga_rest s' = vga_rest s"
  using vga_write_shown [OF assms, of str] by (auto simp: vga_shown_def)

theorem vga_write_safe_witness:
  "vga_inv (vga_init vga_loaded) \<and>
   (\<exists>s'. vga_write (''neilOS'' @ [CHR 0x0A, CHR 0x09]) (vga_init vga_loaded) = Some s' \<and> vga_inv s' \<and>
      screen_shows_window s' \<and> vga_rest s' = vga_rest (vga_init vga_loaded))"
  using vga_write_safe [OF vga_loaded_inv] vga_loaded_inv by blast


text \<open>C27. The number printer terminates within its 16-character buffer for bases 4 to 16, prints the numeral
  of the value, counts its digits, and the printed digits read back as the value.\<close>

theorem vga_print_unsigned_roundtrip:
  assumes "4 \<le> unat base" "unat base \<le> 16"
  shows "vga_print_unsigned v base s =
      map_option (Pair (length (unsigned_text (unat base) v))) (put_all vga_putchar_raw (unsigned_text (unat base) v) s)
    \<and> parse_unsigned (unat base) (unsigned_text (unat base) v) = unat v"
  using vga_print_unsigned_text [OF assms] parse_unsigned_text [of "unat base" v] assms by simp

theorem vga_print_unsigned_roundtrip_witness:
  "4 \<le> unat (16 :: u32) \<and> unat (16 :: u32) \<le> 16 \<and>
   vga_print_unsigned 0xBEEF 16 vga_loaded =
      map_option (Pair (length (unsigned_text 16 0xBEEF))) (put_all vga_putchar_raw (unsigned_text 16 0xBEEF) vga_loaded)
    \<and> parse_unsigned 16 (unsigned_text 16 0xBEEF) = 0xBEEF"
  using vga_print_unsigned_roundtrip [of 16 "0xBEEF" vga_loaded] by simp

text \<open>C28. Scrolling through the history keeps the window on buffered lines and the screen in step with it:
  one line or one page (25 lines) at a time, stopping at the first line and at the cursor's page.\<close>

theorem vga_scroll_window:
  assumes "vga_inv s"
  shows "vga_inv (vga_scroll_up s) \<and> viewportY (vga_scroll_up s) = viewportY s - 1 \<and>
    vga_inv (vga_scroll_down s) \<and> viewportY (vga_scroll_down s) = min (viewportY s + 1) (max_viewport s) \<and>
    vga_inv (vga_page_up s) \<and> viewportY (vga_page_up s) = viewportY s - VGA_HEIGHT \<and>
    vga_inv (vga_page_down s) \<and> viewportY (vga_page_down s) = min (viewportY s + VGA_HEIGHT) (max_viewport s)"
  using vga_scroll_shown [OF assms] assms
  by (auto simp: vga_scroll_up_def vga_scroll_down_def vga_page_up_def vga_page_down_def Let_def vga_inv_def vga_render_def)

theorem vga_scroll_window_witness:
  "vga_inv (vga_init vga_loaded) \<and> vga_inv (vga_page_up (vga_init vga_loaded)) \<and>
   viewportY (vga_page_up (vga_init vga_loaded)) = 0"
  using vga_scroll_window [OF vga_loaded_inv] vga_loaded_inv by simp

end
