(* ===== verification/Physical.thy ===== *)
theory Physical
  imports Vga
begin

text \<open>
  The physical page allocator of \<^verbatim>\<open>kernel/mm/physical.c\<close>: one bit per 4 KiB page of the first
  64 MiB, set when the page is in use, and a count of the free pages.  The bounds of the kernel
  image and of the heap come from \<^verbatim>\<open>kernel/linker.ld\<close>; the end of the image depends on the build
  and is an argument, which the linker script asserts to be at most \<open>0x98000\<close>.  A bitmap access out
  of range is \<open>None\<close>.

  Shown: initialisation leaves exactly the pages from 2 MiB on free; allocation takes the lowest
  free page at or above 1 MiB and changes nothing else; freeing an allocated page restores the
  state before the allocation; the counter is the number of clear bits in every reachable state.
  The locale \<open>frame_allocator\<close> is the contract the page tables rely on.
\<close>

section \<open>State and operations\<close>

definition PAGE_SIZE :: u32 where "PAGE_SIZE = 4096"
definition PHYSICAL_MEMORY_SIZE :: u32 where "PHYSICAL_MEMORY_SIZE = 64 * 1024 * 1024"
definition PHYSICAL_PAGE_COUNT :: u32 where "PHYSICAL_PAGE_COUNT = PHYSICAL_MEMORY_SIZE div PAGE_SIZE"
definition BITMAP_WORD_COUNT :: u32 where "BITMAP_WORD_COUNT = (PHYSICAL_PAGE_COUNT + 31) div 32"

lemma physical_consts [simp]:
  "PAGE_SIZE = 4096" "PHYSICAL_PAGE_COUNT = 16384" "BITMAP_WORD_COUNT = 512"
  by (simp_all add: PAGE_SIZE_def PHYSICAL_MEMORY_SIZE_def PHYSICAL_PAGE_COUNT_def BITMAP_WORD_COUNT_def)

text \<open>Symbols of the linker script.\<close>

definition kernel_start :: u32 where "kernel_start = 0x9000"
definition kernel_end_limit :: u32 where "kernel_end_limit = 0x98000"
definition heap_start :: u32 where "heap_start = 0x100000"
definition heap_end :: u32 where "heap_end = heap_start + 0x100000"

record phys = vga +
  pageBitMap :: "u32 list"
  freePages :: u32

definition mark_used :: "u32 \<Rightarrow> 'a phys_scheme \<Rightarrow> 'a phys_scheme option" where
  "mark_used page s =
     (let i = unat (page div 32) in
      if i < length (pageBitMap s)
      then Some (s\<lparr>pageBitMap := (pageBitMap s)[i := pageBitMap s ! i OR push_bit (unat (page mod 32)) 1]\<rparr>)
      else None)"

definition mark_free :: "u32 \<Rightarrow> 'a phys_scheme \<Rightarrow> 'a phys_scheme option" where
  "mark_free page s =
     (let i = unat (page div 32) in
      if i < length (pageBitMap s)
      then Some (s\<lparr>pageBitMap := (pageBitMap s)[i := pageBitMap s ! i AND NOT (push_bit (unat (page mod 32)) 1)]\<rparr>)
      else None)"

definition is_used :: "u32 \<Rightarrow> 'a phys_scheme \<Rightarrow> bool option" where
  "is_used page s =
     (let i = unat (page div 32) in
      if i < length (pageBitMap s)
      then Some (pageBitMap s ! i AND push_bit (unat (page mod 32)) 1 \<noteq> 0)
      else None)"

text \<open>The loop of \<^verbatim>\<open>reserve_range\<close>.\<close>

function reserve_loop :: "u32 \<Rightarrow> u32 \<Rightarrow> 'a phys_scheme \<Rightarrow> 'a phys_scheme option" where
  "reserve_loop address end s =
     (if address < end then
        let page = address div PAGE_SIZE in
        if page \<ge> PHYSICAL_PAGE_COUNT then Some s
        else do {
          used \<leftarrow> is_used page s;
          s \<leftarrow> (if \<not> used
                then do { s \<leftarrow> mark_used page s; Some (s\<lparr>freePages := freePages s - 1\<rparr>) }
                else Some s);
          reserve_loop (address + PAGE_SIZE) end s }
      else Some s)"
  by pat_completeness auto
termination
proof (relation "measure (\<lambda>(a, e, s). 2 ^ 26 - unat a)", goal_cases)
  case (2 address "end" s page)
  then have "unat address < 2 ^ 26"
    by (simp add: word_le_nat_alt unat_div)
  then have "unat (address + 4096) = unat address + 4096"
    by (simp add: unat_plus_small)
  with \<open>unat address < 2 ^ 26\<close> show ?case by simp
qed simp

declare reserve_loop.simps [simp del]

definition reserve_range :: "u32 \<Rightarrow> u32 \<Rightarrow> 'a phys_scheme \<Rightarrow> 'a phys_scheme option" where
  "reserve_range start end s =
     reserve_loop (start AND NOT (PAGE_SIZE - 1)) ((end + PAGE_SIZE - 1) AND NOT (PAGE_SIZE - 1)) s"

text \<open>The two loops of \<^verbatim>\<open>physical_init\<close>: every page used, then every page of the first 64 MiB free.\<close>

definition fill_bitmap :: "'a phys_scheme \<Rightarrow> 'a phys_scheme option" where
  "fill_bitmap s = for_each (\<lambda>i s. if i < length (pageBitMap s)
      then Some (s\<lparr>pageBitMap := (pageBitMap s)[i := 0xFFFFFFFF]\<rparr>) else None)
    [0..<unat BITMAP_WORD_COUNT] s"

definition free_all_pages :: "'a phys_scheme \<Rightarrow> 'a phys_scheme option" where
  "free_all_pages s =
     for_each (\<lambda>page s. do { s \<leftarrow> mark_free page s; Some (s\<lparr>freePages := freePages s + 1\<rparr>) })
       (map of_nat [0..<unat PHYSICAL_PAGE_COUNT]) s"

definition physical_init :: "u32 \<Rightarrow> 'a phys_scheme \<Rightarrow> 'a phys_scheme option" where
  "physical_init kernel_end s = do {
     s \<leftarrow> fill_bitmap s;
     s \<leftarrow> free_all_pages (s\<lparr>freePages := 0\<rparr>);
     s \<leftarrow> reserve_range 0x00000000 0x00001000 s;
     s \<leftarrow> reserve_range 0x00000000 0x00100000 s;
     s \<leftarrow> reserve_range kernel_start kernel_end s;
     s \<leftarrow> reserve_range heap_start heap_end s;
     reserve_range 0x00098000 0x000A0000 s }"

text \<open>The loop of \<^verbatim>\<open>physical_alloc_page\<close>.\<close>

function alloc_loop :: "u32 \<Rightarrow> 'a phys_scheme \<Rightarrow> (u32 \<times> 'a phys_scheme) option" where
  "alloc_loop page s =
     (if page < PHYSICAL_PAGE_COUNT then
        do { used \<leftarrow> is_used page s;
             if \<not> used
             then do { s \<leftarrow> mark_used page s;
                       Some (page * PAGE_SIZE, s\<lparr>freePages := freePages s - 1\<rparr>) }
             else alloc_loop (page + 1) s }
      else Some (0, s))"
  by pat_completeness auto
termination
proof (relation "measure (\<lambda>(p, s). 16384 - unat p)", goal_cases)
  case (2 page s used)
  then have "unat page < 16384"
    by (simp add: word_less_nat_alt)
  then have "unat (page + 1) = unat page + 1"
    by (simp add: unat_plus_small)
  with \<open>unat page < 16384\<close> show ?case by simp
qed simp

declare alloc_loop.simps [simp del]

definition physical_alloc_page :: "'a phys_scheme \<Rightarrow> (u32 \<times> 'a phys_scheme) option" where
  "physical_alloc_page s = alloc_loop 256 s"

definition physical_free_page :: "u32 \<Rightarrow> 'a phys_scheme \<Rightarrow> 'a phys_scheme option" where
  "physical_free_page address s =
     (if address AND (PAGE_SIZE - 1) \<noteq> 0 then Some s
      else let page = address div PAGE_SIZE in
        if page \<ge> PHYSICAL_PAGE_COUNT then Some s
        else if address < 0x00100000 then Some s
        else do {
          used \<leftarrow> is_used page s;
          if \<not> used then Some s
          else do { s \<leftarrow> mark_free page s; Some (s\<lparr>freePages := freePages s + 1\<rparr>) } })"


section \<open>The set of used pages\<close>

definition PAGES :: nat where "PAGES = 16384"

definition page_used :: "'a phys_scheme \<Rightarrow> nat \<Rightarrow> bool" where
  "page_used s p \<longleftrightarrow> bit (pageBitMap s ! (p div 32)) (p mod 32)"

definition used_pages :: "'a phys_scheme \<Rightarrow> nat set" where
  "used_pages s = {p. p < PAGES \<and> page_used s p}"

definition free_pages :: "'a phys_scheme \<Rightarrow> nat set" where
  "free_pages s = {p. p < PAGES \<and> \<not> page_used s p}"

definition phys_inv :: "'a phys_scheme \<Rightarrow> bool" where
  "phys_inv s \<longleftrightarrow> length (pageBitMap s) = 512 \<and> unat (freePages s) = card (free_pages s)"

lemma finite_pages [simp]: "finite (used_pages s)" "finite (free_pages s)"
  by (simp_all add: used_pages_def free_pages_def)

lemma free_pages_eq: "free_pages s = {..<PAGES} - used_pages s"
  by (auto simp: free_pages_def used_pages_def)

lemma used_pages_upd [simp]:
  "used_pages (s\<lparr>freePages := n\<rparr>) = used_pages s" "free_pages (s\<lparr>freePages := n\<rparr>) = free_pages s"
  by (simp_all add: used_pages_def free_pages_def page_used_def)

lemma card_free_bound: "card (free_pages s) \<le> PAGES"
  using card_mono [of "{..<PAGES}" "free_pages s"] by (auto simp: free_pages_def)

text \<open>The bitmap operations on page numbers below \<open>PAGES\<close>, as functions of natural numbers.\<close>

definition bitmap_set :: "nat \<Rightarrow> u32 list \<Rightarrow> u32 list" where
  "bitmap_set p bm = bm[p div 32 := bm ! (p div 32) OR push_bit (p mod 32) 1]"

definition bitmap_clear :: "nat \<Rightarrow> u32 list \<Rightarrow> u32 list" where
  "bitmap_clear p bm = bm[p div 32 := bm ! (p div 32) AND NOT (push_bit (p mod 32) 1)]"

lemma page_index:
  "unat (page div 32) = unat page div 32" "unat (page mod 32) = unat page mod 32"
  "page < 16384 \<Longrightarrow> unat page div 32 < 512" for page :: u32
  by (simp_all add: unat_div unat_mod word_less_nat_alt less_mult_imp_div_less)

lemma is_used_eq: "length (pageBitMap s) = 512 \<Longrightarrow> page < 16384 \<Longrightarrow> is_used page s = Some (page_used s (unat page))"
  by (simp add: is_used_def page_index page_used_def and_one_bit_nonzero)

lemma mark_used_eq:
  "length (pageBitMap s) = 512 \<Longrightarrow> page < 16384 \<Longrightarrow>
   mark_used page s = Some (s\<lparr>pageBitMap := bitmap_set (unat page) (pageBitMap s)\<rparr>)"
  by (simp add: mark_used_def page_index bitmap_set_def Let_def)

lemma mark_free_eq:
  "length (pageBitMap s) = 512 \<Longrightarrow> page < 16384 \<Longrightarrow>
   mark_free page s = Some (s\<lparr>pageBitMap := bitmap_clear (unat page) (pageBitMap s)\<rparr>)"
  by (simp add: mark_free_def page_index bitmap_clear_def Let_def)

lemma length_bitmap_ops [simp]:
  "length (bitmap_set p bm) = length bm" "length (bitmap_clear p bm) = length bm"
  by (simp_all add: bitmap_set_def bitmap_clear_def)

lemma same_page: "p div 32 = q div 32 \<Longrightarrow> p mod 32 = q mod 32 \<Longrightarrow> p = q" for p q :: nat
  by (metis div_mult_mod_eq)

lemma used_pages_set:
  assumes "length (pageBitMap s) = 512" "p < PAGES"
  shows "used_pages (s\<lparr>pageBitMap := bitmap_set p (pageBitMap s)\<rparr>) = insert p (used_pages s)"
proof -
  have "page_used (s\<lparr>pageBitMap := bitmap_set p (pageBitMap s)\<rparr>) q \<longleftrightarrow> q = p \<or> page_used s q"
    if "q < PAGES" for q
  proof (cases "q div 32 = p div 32")
    case True
    then show ?thesis
      using assms same_page [of q p]
      by (auto simp: page_used_def bitmap_set_def bit_set_one PAGES_def)
  next
    case False
    then show ?thesis by (auto simp: page_used_def bitmap_set_def)
  qed
  then show ?thesis using assms by (auto simp: used_pages_def)
qed

lemma used_pages_clear:
  assumes "length (pageBitMap s) = 512" "p < PAGES"
  shows "used_pages (s\<lparr>pageBitMap := bitmap_clear p (pageBitMap s)\<rparr>) = used_pages s - {p}"
proof -
  have "page_used (s\<lparr>pageBitMap := bitmap_clear p (pageBitMap s)\<rparr>) q \<longleftrightarrow> q \<noteq> p \<and> page_used s q"
    if "q < PAGES" for q
  proof (cases "q div 32 = p div 32")
    case True
    then show ?thesis
      using assms same_page [of q p]
      by (auto simp: page_used_def bitmap_clear_def bit_clear_one PAGES_def)
  next
    case False
    then show ?thesis by (auto simp: page_used_def bitmap_clear_def)
  qed
  then show ?thesis by (auto simp: used_pages_def)
qed

text \<open>Clearing a bit that was just set gives the bitmap back.\<close>

lemma bitmap_clear_set:
  assumes "length bm = 512" "p < PAGES" "\<not> bit (bm ! (p div 32)) (p mod 32)"
  shows "bitmap_clear p (bitmap_set p bm) = bm"
proof -
  have "(bm ! (p div 32) OR push_bit (p mod 32) 1) AND NOT (push_bit (p mod 32) 1) = bm ! (p div 32)"
    using assms(3) by (intro bit_word_eqI) (auto simp: bit_clear_one bit_set_one)
  then show ?thesis
    using assms by (simp add: bitmap_set_def bitmap_clear_def PAGES_def less_mult_imp_div_less)
qed

text \<open>Taking a free page and giving a used page back, with the counter.\<close>

lemma phys_inv_take:
  assumes "phys_inv s" "p \<in> free_pages s"
  defines "t \<equiv> s\<lparr>pageBitMap := bitmap_set p (pageBitMap s), freePages := freePages s - 1\<rparr>"
  shows "phys_inv t" "used_pages t = insert p (used_pages s)" "free_pages t = free_pages s - {p}"
proof -
  have p: "p < PAGES" using assms(2) by (simp add: free_pages_def)
  show used: "used_pages t = insert p (used_pages s)"
    using assms(1) p by (simp add: t_def used_pages_set phys_inv_def)
  then show free: "free_pages t = free_pages s - {p}"
    by (auto simp: free_pages_eq)
  have "0 < card (free_pages s)" using assms(2) by (auto simp: card_gt_0_iff)
  then have "unat (freePages s - 1) = card (free_pages s) - 1"
    using assms(1) by (simp add: phys_inv_def unat_minus_small)
  with free assms(1,2) show "phys_inv t"
    by (simp add: phys_inv_def) (simp add: t_def)
qed

lemma phys_inv_give:
  assumes "phys_inv s" "p \<in> used_pages s"
  defines "t \<equiv> s\<lparr>pageBitMap := bitmap_clear p (pageBitMap s), freePages := freePages s + 1\<rparr>"
  shows "phys_inv t" "used_pages t = used_pages s - {p}" "free_pages t = insert p (free_pages s)"
proof -
  have p: "p < PAGES" "p \<notin> free_pages s" using assms(2) by (auto simp: used_pages_def free_pages_def)
  show used: "used_pages t = used_pages s - {p}"
    using assms(1) p by (simp add: t_def used_pages_clear phys_inv_def)
  then show free: "free_pages t = insert p (free_pages s)"
    using p by (auto simp: free_pages_eq)
  have "unat (freePages s + 1) = card (free_pages s) + 1"
    using assms(1) card_free_bound [of s] by (simp add: phys_inv_def unat_plus_small PAGES_def)
  with free p assms(1) show "phys_inv t"
    by (simp add: phys_inv_def) (simp add: t_def)
qed


text \<open>What the allocator does not touch.\<close>

definition phys_rest :: "'a phys_scheme \<Rightarrow> 'a phys_scheme" where
  "phys_rest s = s\<lparr>pageBitMap := [], freePages := 0\<rparr>"

lemma phys_rest_upd [simp]:
  "phys_rest (s\<lparr>pageBitMap := b\<rparr>) = phys_rest s" "phys_rest (s\<lparr>freePages := n\<rparr>) = phys_rest s"
  by (simp_all add: phys_rest_def)


section \<open>Initialisation\<close>

lemma reserve_loop_inv:
  assumes "phys_inv s" "unat address mod 4096 = 0"
  shows "\<exists>s'. reserve_loop address end s = Some s' \<and> phys_inv s' \<and> phys_rest s' = phys_rest s \<and>
    used_pages s' = used_pages s \<union> {p. unat address div 4096 \<le> p \<and> p < PAGES \<and> p * 4096 < unat end}"
  using assms
proof (induction address "end" s rule: reserve_loop.induct)
  case (1 address e s)
  let ?page = "address div 4096"
  define n where "n = unat address div 4096"
  have page: "unat ?page = n" by (simp add: unat_div n_def)
  have addr: "unat address = n * 4096"
    using "1.prems"(2) by (simp add: n_def modulo_nat_def)
  have len: "length (pageBitMap s) = 512" using "1.prems"(1) by (simp add: phys_inv_def)
  show ?case
  proof (cases "address < e \<and> ?page < 16384")
    case False
    then have "{p. n \<le> p \<and> p < PAGES \<and> p * 4096 < unat e} = {}"
      by (auto simp: page addr word_less_nat_alt PAGES_def not_less)
    moreover have "reserve_loop address e s = Some s"
      using False by (auto simp: reserve_loop.simps [of address e s] Let_def not_less)
    ultimately show ?thesis
      using "1.prems" by (auto simp: addr)
  next
    case True
    then have small: "n < 16384" by (simp add: word_less_nat_alt page)
    then have next_addr: "unat (address + 4096) = (n + 1) * 4096"
      using addr by (simp add: unat_plus_small)
    define s1 where "s1 = (if page_used s n then s
      else s\<lparr>pageBitMap := bitmap_set n (pageBitMap s), freePages := freePages s - 1\<rparr>)"
    have s1: "phys_inv s1" "phys_rest s1 = phys_rest s" "used_pages s1 = insert n (used_pages s)"
      using phys_inv_take [OF "1.prems"(1), of n] "1.prems"(1) small
      by (auto simp: s1_def free_pages_def used_pages_def PAGES_def)
    have eq: "reserve_loop address e s = reserve_loop (address + 4096) e s1"
      using True len
      by (auto simp: reserve_loop.simps [of address e s] Let_def is_used_eq mark_used_eq page s1_def)
    have "\<exists>s'. reserve_loop (address + 4096) e s1 = Some s' \<and> phys_inv s' \<and> phys_rest s' = phys_rest s1 \<and>
      used_pages s' = used_pages s1 \<union> {p. n + 1 \<le> p \<and> p < PAGES \<and> p * 4096 < unat e}"
    proof (cases "page_used s n")
      case used: True
      then show ?thesis
        using "1.IH" [of ?page True s] True len "1.prems"(1) next_addr
        by (simp add: is_used_eq page not_le s1_def)
    next
      case unused: False
      then show ?thesis
        using "1.IH" [of ?page False s1] True len s1(1) next_addr
        by (simp add: is_used_eq mark_used_eq page not_le s1_def)
    qed
    moreover have "insert n {p. n + 1 \<le> p \<and> p < PAGES \<and> p * 4096 < unat e} =
        {p. n \<le> p \<and> p < PAGES \<and> p * 4096 < unat e}"
      using True addr small by (auto simp: word_less_nat_alt PAGES_def)
    ultimately show ?thesis
      using s1 by (auto simp: eq addr)
  qed
qed

text \<open>\<^verbatim>\<open>reserve_range\<close> on a byte range that does not reach the top of the address space marks every
  page the range overlaps.\<close>

lemma reserve_range_inv:
  assumes "phys_inv s" "unat end + 4095 < 2 ^ 32"
  shows "\<exists>s'. reserve_range start end s = Some s' \<and> phys_inv s' \<and> phys_rest s' = phys_rest s \<and>
    used_pages s' = used_pages s \<union> {p. unat start div 4096 \<le> p \<and> p < PAGES \<and> p * 4096 < unat end}"
proof -
  have e: "unat (4095 + end) = unat end + 4095"
    using assms(2) by (simp add: unat_plus_small)
  have le: "p < (n + 4095) div 4096 \<longleftrightarrow> p * 4096 < n" for p n :: nat
    using less_eq_div_iff_mult_less_eq [of 4096 "Suc p" "n + 4095"] by (simp add: Suc_le_eq)
  have "end + PAGE_SIZE - 1 = 4095 + end" by simp
  then show ?thesis
    using reserve_loop_inv [OF assms(1), of "start AND - 4096" "4095 + end AND - 4096"]
    by (simp add: reserve_range_def unat_and_page_frame e le)
qed

lemma fill_bitmap_used:
  assumes "length (pageBitMap s) = 512"
  shows "\<exists>s'. fill_bitmap s = Some s' \<and> length (pageBitMap s') = 512 \<and>
    phys_rest s' = phys_rest s \<and> used_pages s' = {..<PAGES}"
proof -
  have "\<exists>s'. for_each (\<lambda>i s. if i < length (pageBitMap s)
      then Some (s\<lparr>pageBitMap := (pageBitMap s)[i := 0xFFFFFFFF]\<rparr>) else None)
        (map (\<lambda>i. i) [0..<unat BITMAP_WORD_COUNT]) s = Some s' \<and>
    (length (pageBitMap s') = 512 \<and> phys_rest s' = phys_rest s \<and>
      (\<forall>j < unat BITMAP_WORD_COUNT. pageBitMap s' ! j = (0xFFFFFFFF :: u32)))"
    using assms by (intro for_each_invariant [where I = "\<lambda>i s'. length (pageBitMap s') = 512 \<and>
        phys_rest s' = phys_rest s \<and> (\<forall>j < i. pageBitMap s' ! j = (0xFFFFFFFF :: u32))"])
      (auto simp: nth_list_update less_Suc_eq)
  then obtain s' where s': "length (pageBitMap s') = 512" "phys_rest s' = phys_rest s"
      "\<forall>j < unat BITMAP_WORD_COUNT. pageBitMap s' ! j = (0xFFFFFFFF :: u32)"
    and eq: "fill_bitmap s = Some s'"
    unfolding fill_bitmap_def list.map_ident by blast
  have ones: "(0xFFFFFFFF :: u32) = mask 32" by (simp add: mask_eq_exp_minus_1)
  have "page_used s' p" if "p < PAGES" for p
  proof -
    have "p div 32 < 512" using that by (simp add: PAGES_def less_mult_imp_div_less)
    then show ?thesis using s'(3) by (simp add: page_used_def ones bit_mask_iff)
  qed
  then have "used_pages s' = {..<PAGES}"
    by (auto simp: used_pages_def)
  with s' eq show ?thesis by blast
qed

lemma free_all_pages_used:
  assumes "length (pageBitMap s) = 512" "used_pages s = {..<PAGES}" "freePages s = 0"
  shows "\<exists>s'. free_all_pages s = Some s' \<and>
    (phys_inv s' \<and> phys_rest s' = phys_rest s \<and> used_pages s' = {unat PHYSICAL_PAGE_COUNT..<PAGES})"
  unfolding free_all_pages_def
proof (rule for_each_invariant [where n = "unat PHYSICAL_PAGE_COUNT" and g = of_nat and
    I = "\<lambda>i s'. phys_inv s' \<and> phys_rest s' = phys_rest s \<and> used_pages s' = {i..<PAGES}"])
  show "phys_inv s \<and> phys_rest s = phys_rest s \<and> used_pages s = {0..<PAGES}"
    using assms by (simp add: phys_inv_def free_pages_eq lessThan_atLeast0)
next
  fix i and t :: "'a phys_scheme"
  assume i: "i < unat PHYSICAL_PAGE_COUNT"
    and t: "phys_inv t \<and> phys_rest t = phys_rest s \<and> used_pages t = {i..<PAGES}"
  have small: "i < 16384" using i by simp
  have pg: "unat (of_nat i :: u32) = i" using small by (simp add: unat_of_nat_small)
  have lt: "(of_nat i :: u32) < 16384" using small pg by (simp add: word_less_nat_alt)
  have "i \<in> used_pages t" using t small by (simp add: PAGES_def)
  note give = phys_inv_give [OF conjunct1 [OF t] this]
  have len: "length (pageBitMap t) = 512" using t by (simp add: phys_inv_def)
  let ?u = "t\<lparr>pageBitMap := bitmap_clear i (pageBitMap t), freePages := freePages t + 1\<rparr>"
  have "(do { s \<leftarrow> mark_free (of_nat i) t; Some (s\<lparr>freePages := freePages s + 1\<rparr>) }) = Some ?u"
    by (simp add: mark_free_eq [OF len lt] pg)
  moreover have "phys_rest ?u = phys_rest s"
    using t by simp
  moreover have "{i..<PAGES} - {i} = {Suc i..<PAGES}"
    by auto
  then have "used_pages ?u = {Suc i..<PAGES}"
    by (simp only: give(2) t)
  ultimately show "\<exists>s'. (do { s \<leftarrow> mark_free (of_nat i) t; Some (s\<lparr>freePages := freePages s + 1\<rparr>) }) = Some s' \<and>
      phys_inv s' \<and> phys_rest s' = phys_rest s \<and> used_pages s' = {Suc i..<PAGES}"
    using give(1) by blast
qed

lemma kernel_end_small: "kernel_end \<le> kernel_end_limit \<Longrightarrow> unat kernel_end \<le> 0x98000"
  by (simp add: kernel_end_limit_def word_le_nat_alt)

lemma physical_init_inv:
  assumes "length (pageBitMap s) = 512" "kernel_end \<le> kernel_end_limit"
  shows "\<exists>s'. physical_init kernel_end s = Some s' \<and> phys_inv s' \<and> phys_rest s' = phys_rest s \<and>
    used_pages s' = {..<512} \<and> freePages s' = 15872"
proof -
  obtain s1 where s1: "fill_bitmap s = Some s1"
    "length (pageBitMap s1) = 512" "phys_rest s1 = phys_rest s" "used_pages s1 = {..<PAGES}"
    using fill_bitmap_used [OF assms(1)] by blast
  obtain s2 where s2: "free_all_pages (s1\<lparr>freePages := 0\<rparr>) = Some s2"
    "phys_inv s2" "phys_rest s2 = phys_rest s" "used_pages s2 = {}"
    using free_all_pages_used [of "s1\<lparr>freePages := 0\<rparr>"] s1 by (auto simp: PAGES_def)
  obtain s3 where s3: "reserve_range 0 0x1000 s2 = Some s3" "phys_inv s3" "phys_rest s3 = phys_rest s"
    "used_pages s3 = {p. p < PAGES \<and> p * 4096 < 0x1000}"
    using reserve_range_inv [OF s2(2), of "0x1000" 0] s2 by auto
  obtain s4 where s4: "reserve_range 0 0x100000 s3 = Some s4" "phys_inv s4" "phys_rest s4 = phys_rest s"
    "used_pages s4 = used_pages s3 \<union> {p. p < PAGES \<and> p * 4096 < 0x100000}"
    using reserve_range_inv [OF s3(2), of "0x100000" 0] s3 by auto
  obtain s5 where s5: "reserve_range kernel_start kernel_end s4 = Some s5" "phys_inv s5"
    "phys_rest s5 = phys_rest s"
    "used_pages s5 = used_pages s4 \<union> {p. 9 \<le> p \<and> p < PAGES \<and> p * 4096 < unat kernel_end}"
    using reserve_range_inv [OF s4(2), of kernel_end kernel_start] s4 kernel_end_small [OF assms(2)]
    by (auto simp: kernel_start_def)
  obtain s6 where s6: "reserve_range heap_start heap_end s5 = Some s6" "phys_inv s6"
    "phys_rest s6 = phys_rest s"
    "used_pages s6 = used_pages s5 \<union> {p. 256 \<le> p \<and> p < PAGES \<and> p * 4096 < 0x200000}"
    using reserve_range_inv [OF s5(2), of heap_end heap_start] s5 by (auto simp: heap_start_def heap_end_def)
  obtain s7 where s7: "reserve_range 0x98000 0xA0000 s6 = Some s7" "phys_inv s7" "phys_rest s7 = phys_rest s"
    "used_pages s7 = used_pages s6 \<union> {p. 0x98 \<le> p \<and> p < PAGES \<and> p * 4096 < 0xA0000}"
    using reserve_range_inv [OF s6(2), of "0xA0000" "0x98000"] s6 by auto
  have "used_pages s7 = {..<512}"
    using kernel_end_small [OF assms(2)]
    unfolding s7(4) s6(4) s5(4) s4(4) s3(4) by (auto simp: PAGES_def)
  moreover from this have "freePages s7 = 15872"
  proof -
    have "free_pages s7 = {512..<PAGES}"
      using \<open>used_pages s7 = {..<512}\<close> by (auto simp: free_pages_eq)
    then show ?thesis
      using s7(2) by (simp add: phys_inv_def PAGES_def unat_inj)
  qed
  moreover have "physical_init kernel_end s = Some s7"
    using s1(1) s2(1) s3(1) s4(1) s5(1) s6(1) s7(1) by (simp add: physical_init_def)
  ultimately show ?thesis using s7 by blast
qed



section \<open>Allocating and freeing\<close>

definition take_page :: "nat \<Rightarrow> 'a phys_scheme \<Rightarrow> 'a phys_scheme" where
  "take_page p s = s\<lparr>pageBitMap := bitmap_set p (pageBitMap s), freePages := freePages s - 1\<rparr>"

definition give_page :: "nat \<Rightarrow> 'a phys_scheme \<Rightarrow> 'a phys_scheme" where
  "give_page p s = s\<lparr>pageBitMap := bitmap_clear p (pageBitMap s), freePages := freePages s + 1\<rparr>"

lemmas take_page_inv = phys_inv_take [folded take_page_def]
lemmas give_page_inv = phys_inv_give [folded give_page_def]

lemma phys_rest_pages [simp]: "phys_rest (take_page p s) = phys_rest s" "phys_rest (give_page p s) = phys_rest s"
  by (simp_all add: take_page_def give_page_def)

lemma give_take_page:
  assumes "phys_inv s" "p \<in> free_pages s"
  shows "give_page p (take_page p s) = s"
  using assms bitmap_clear_set [of "pageBitMap s" p]
  by (simp add: give_page_def take_page_def phys_inv_def free_pages_def page_used_def)

text \<open>The pages the allocator may hand out from page number \<open>n\<close> on.\<close>

definition candidates :: "nat \<Rightarrow> 'a phys_scheme \<Rightarrow> nat set" where
  "candidates n s = {p \<in> free_pages s. n \<le> p}"

lemma finite_candidates [simp]: "finite (candidates n s)"
  by (simp add: candidates_def)

lemma alloc_loop_eq:
  assumes "phys_inv s"
  shows "alloc_loop page s =
    (if candidates (unat page) s = {} then Some (0, s)
     else Some (of_nat (Min (candidates (unat page) s)) * 4096,
                take_page (Min (candidates (unat page) s)) s))"
  using assms
proof (induction page s rule: alloc_loop.induct)
  case (1 page s)
  have len: "length (pageBitMap s) = 512" using "1.prems" by (simp add: phys_inv_def)
  show ?case
  proof (cases "page < 16384")
    case False
    then have "candidates (unat page) s = {}"
      by (auto simp: candidates_def free_pages_def PAGES_def word_less_nat_alt)
    with False show ?thesis by (simp add: alloc_loop.simps [of page])
  next
    case True
    then have lt: "unat page < PAGES" by (simp add: word_less_nat_alt PAGES_def)
    show ?thesis
    proof (cases "page_used s (unat page)")
      case True
      have "unat (page + 1) = unat page + 1"
        using lt by (simp add: unat_plus_small PAGES_def)
      then have same: "candidates (unat (page + 1)) s = candidates (unat page) s"
        using True by (auto simp: candidates_def free_pages_def Suc_le_eq le_less)
      have "alloc_loop page s = alloc_loop (page + 1) s"
        using \<open>page < 16384\<close> True len by (simp add: alloc_loop.simps [of page] is_used_eq)
      moreover note "1.IH" [of True] 
      ultimately show ?thesis
        using \<open>page < 16384\<close> True len "1.prems" same by (simp add: is_used_eq)
    next
      case False
      then have "unat page \<in> candidates (unat page) s"
        using lt by (simp add: candidates_def free_pages_def)
      then have "Min (candidates (unat page) s) = unat page" "candidates (unat page) s \<noteq> {}"
        by (auto intro!: Min_eqI simp: candidates_def)
      then show ?thesis
        using \<open>page < 16384\<close> False len
        by (simp add: alloc_loop.simps [of page] is_used_eq mark_used_eq take_page_def)
    qed
  qed
qed

lemma physical_alloc_page_eq:
  assumes "phys_inv s"
  shows "physical_alloc_page s =
    (if candidates 256 s = {} then Some (0, s)
     else Some (of_nat (Min (candidates 256 s)) * 4096, take_page (Min (candidates 256 s)) s))"
  using alloc_loop_eq [OF assms, of 256] by (simp add: physical_alloc_page_def)

text \<open>The page number of an address, and the address of a page.\<close>

definition page_address :: "nat \<Rightarrow> u32" where
  "page_address p = of_nat p * 4096"

lemma unat_page_address: "p < PAGES \<Longrightarrow> unat (page_address p) = p * 4096"
  by (simp add: page_address_def PAGES_def unat_of_nat_small unat_mult_small)

lemma page_address_inj: "p < PAGES \<Longrightarrow> q < PAGES \<Longrightarrow> (page_address p = page_address q) = (p = q)"
  by (simp add: unat_inj unat_page_address)

lemma page_address_nonzero: "p < PAGES \<Longrightarrow> (page_address p = 0) = (p = 0)"
  by (simp add: unat_inj unat_page_address)

lemma page_address_div: "p < PAGES \<Longrightarrow> page_address p div 4096 = of_nat p"
  by (simp add: unat_inj [of "page_address p div 4096"] unat_div unat_page_address unat_of_nat_small PAGES_def)

lemma page_address_aligned: "p < PAGES \<Longrightarrow> page_address p AND 4095 = 0"
  by (simp add: unat_inj [of "page_address p AND 4095"] unat_and_page_offset unat_page_address)

lemma min_candidate:
  assumes "candidates n s \<noteq> {}"
  shows "Min (candidates n s) \<in> free_pages s" "n \<le> Min (candidates n s)" "Min (candidates n s) < PAGES"
    "\<And>q. q \<in> free_pages s \<Longrightarrow> n \<le> q \<Longrightarrow> Min (candidates n s) \<le> q"
proof -
  have "Min (candidates n s) \<in> candidates n s"
    using assms by (intro Min_in) auto
  then show "Min (candidates n s) \<in> free_pages s" "n \<le> Min (candidates n s)" "Min (candidates n s) < PAGES"
    by (auto simp: candidates_def free_pages_def)
  fix q
  assume "q \<in> free_pages s" "n \<le> q"
  then show "Min (candidates n s) \<le> q"
    by (intro Min_le) (auto simp: candidates_def)
qed

lemma physical_free_page_eq:
  assumes "phys_inv s"
  shows "physical_free_page a s =
    Some (if a AND 4095 = 0 \<and> 256 \<le> unat a div 4096 \<and> unat a div 4096 \<in> used_pages s
          then give_page (unat a div 4096) s else s)"
proof -
  have len: "length (pageBitMap s) = 512" using assms by (simp add: phys_inv_def)
  have low: "a < 0x00100000 \<longleftrightarrow> unat a div 4096 < 256" 
    by (simp add: word_less_nat_alt div_less_iff_less_mult)
  have high: "a div 4096 < 16384 \<longleftrightarrow> unat a div 4096 < PAGES"
    by (simp add: word_less_nat_alt unat_div PAGES_def)
  show ?thesis
    using len
    by (auto simp: physical_free_page_def Let_def low high is_used_eq mark_free_eq give_page_def
        used_pages_def unat_div not_le simp flip: not_less)
qed



section \<open>The contract of a frame allocator\<close>

text \<open>Allocating \<open>n\<close> times in a row.\<close>

fun alloc_run :: "('s \<Rightarrow> (u32 \<times> 's) option) \<Rightarrow> nat \<Rightarrow> 's \<Rightarrow> (u32 list \<times> 's) option" where
  "alloc_run alloc 0 s = Some ([], s)"
| "alloc_run alloc (Suc n) s =
     do { (a, s) \<leftarrow> alloc s; (as, s) \<leftarrow> alloc_run alloc n s; Some (a # as, s) }"

text \<open>What a client (the page tables) relies on: allocation either hands out an aligned frame that
  nobody holds, or returns 0 and changes nothing; giving a frame back undoes the allocation.\<close>

locale frame_allocator =
  fixes alloc :: "'s \<Rightarrow> (u32 \<times> 's) option"
    and free :: "u32 \<Rightarrow> 's \<Rightarrow> 's option"
    and inv :: "'s \<Rightarrow> bool"
    and frames :: "'s \<Rightarrow> u32 set"
  assumes alloc_defined: "inv s \<Longrightarrow> \<exists>a s'. alloc s = Some (a, s') \<and> inv s'"
    and alloc_none: "inv s \<Longrightarrow> alloc s = Some (0, s') \<Longrightarrow> s' = s"
    and alloc_frame: "inv s \<Longrightarrow> alloc s = Some (a, s') \<Longrightarrow> a \<noteq> 0 \<Longrightarrow>
      a \<notin> frames s \<and> frames s' = insert a (frames s) \<and> a AND 4095 = 0"
    and free_defined: "inv s \<Longrightarrow> \<exists>s'. free a s = Some s' \<and> inv s'"
    and free_alloc: "inv s \<Longrightarrow> alloc s = Some (a, s') \<Longrightarrow> a \<noteq> 0 \<Longrightarrow> free a s' = Some s"
begin

lemma alloc_run_fresh:
  "inv s \<Longrightarrow> \<exists>as s'. alloc_run alloc n s = Some (as, s') \<and> inv s' \<and> length as = n \<and>
    distinct (filter (\<lambda>a. a \<noteq> 0) as) \<and> set (filter (\<lambda>a. a \<noteq> 0) as) \<inter> frames s = {} \<and>
    frames s' = frames s \<union> set (filter (\<lambda>a. a \<noteq> 0) as)"
proof (induction n arbitrary: s)
  case (Suc n)
  then obtain a s1 where s1: "alloc s = Some (a, s1)" "inv s1"
    using alloc_defined by blast
  then obtain as s' where s': "alloc_run alloc n s1 = Some (as, s')" "inv s'" "length as = n"
      "distinct (filter (\<lambda>a. a \<noteq> 0) as)" "set (filter (\<lambda>a. a \<noteq> 0) as) \<inter> frames s1 = {}"
      "frames s' = frames s1 \<union> set (filter (\<lambda>a. a \<noteq> 0) as)"
    using Suc.IH by blast
  show ?case
  proof (cases "a = 0")
    case True
    then have "s1 = s" using alloc_none [OF Suc.prems] s1 by simp
    with True s1 s' show ?thesis by auto
  next
    case False
    with alloc_frame [OF Suc.prems s1(1)] s1 s' show ?thesis by auto
  qed
qed simp

end

definition used_frames :: "'a phys_scheme \<Rightarrow> u32 set" where
  "used_frames s = page_address ` used_pages s"

lemma used_frames_take:
  assumes "phys_inv s" "p \<in> free_pages s"
  shows "page_address p \<notin> used_frames s \<and> used_frames (take_page p s) = insert (page_address p) (used_frames s)"
proof -
  have "page_address p \<notin> used_frames s"
    using assms(2) by (auto simp: used_frames_def used_pages_def free_pages_def page_address_inj)
  then show ?thesis
    using take_page_inv(2) [OF assms] by (simp add: used_frames_def)
qed

interpretation physical: frame_allocator physical_alloc_page physical_free_page phys_inv used_frames
proof (unfold_locales, goal_cases)
  case (1 s)
  then show ?case
    using take_page_inv(1) min_candidate(1) by (fastforce simp: physical_alloc_page_eq)
next
  case (2 s s')
  show ?case
  proof (cases "candidates 256 s = {}")
    case True
    with 2 show ?thesis by (simp add: physical_alloc_page_eq)
  next
    case False
    from min_candidate(2) [OF False] have "Min (candidates 256 s) \<noteq> 0" by linarith
    with page_address_nonzero [OF min_candidate(3) [OF False]] 2 False show ?thesis
      by (simp add: physical_alloc_page_eq page_address_def)
  qed
next
  case (3 s a s')
  then have ne: "candidates 256 s \<noteq> {}" and a: "a = page_address (Min (candidates 256 s))"
    and s': "s' = take_page (Min (candidates 256 s)) s"
    by (auto simp: physical_alloc_page_eq page_address_def split: if_splits)
  show ?case
    unfolding a s'
    using used_frames_take [OF 3(1) min_candidate(1) [OF ne]] page_address_aligned [OF min_candidate(3) [OF ne]]
    by blast
next
  case (4 s a)
  then show ?case
    using give_page_inv(1) [OF 4] by (simp add: physical_free_page_eq)
next
  case (5 s a s')
  then have ne: "candidates 256 s \<noteq> {}" and a: "a = page_address (Min (candidates 256 s))"
    and s': "s' = take_page (Min (candidates 256 s)) s"
    by (auto simp: physical_alloc_page_eq page_address_def split: if_splits)
  note m = min_candidate [OF ne]
  have "phys_inv s'" and u: "used_pages s' = insert (Min (candidates 256 s)) (used_pages s)"
    using take_page_inv [OF 5(1) m(1)] by (simp_all add: s')
  then show ?case
    using m(2,3) give_take_page [OF 5(1) m(1)] page_address_aligned [OF m(3)]
    by (simp add: physical_free_page_eq a unat_page_address s')
qed


section \<open>Any sequence of allocations and frees\<close>

datatype phys_op = AllocPage | FreePage u32

fun phys_step :: "phys_op \<Rightarrow> 'a phys_scheme \<Rightarrow> 'a phys_scheme option" where
  "phys_step AllocPage s = map_option snd (physical_alloc_page s)"
| "phys_step (FreePage a) s = physical_free_page a s"

lemma phys_step_low_pages:
  assumes "phys_inv s" "{..<256} \<subseteq> used_pages s"
  shows "\<exists>s'. phys_step op s = Some s' \<and> phys_inv s' \<and> {..<256} \<subseteq> used_pages s' \<and> phys_rest s' = phys_rest s"
proof (cases op)
  case AllocPage
  show ?thesis
  proof (cases "candidates 256 s = {}")
    case True
    then show ?thesis using assms AllocPage by (simp add: physical_alloc_page_eq)
  next
    case False
    then show ?thesis
      using assms AllocPage take_page_inv [OF assms(1) min_candidate(1) [OF False]]
      by (simp add: physical_alloc_page_eq) blast
  qed
next
  case (FreePage a)
  show ?thesis
  proof (cases "a AND 4095 = 0 \<and> 256 \<le> unat a div 4096 \<and> unat a div 4096 \<in> used_pages s")
    case True
    then show ?thesis
      using assms FreePage give_page_inv [OF assms(1), of "unat a div 4096"]
      by (simp add: physical_free_page_eq) fastforce
  next
    case False
    then show ?thesis
      using assms FreePage by (simp only: phys_step.simps physical_free_page_eq if_False) simp
  qed
qed

lemma phys_run_low_pages:
  assumes "phys_inv s" "{..<256} \<subseteq> used_pages s"
  shows "\<exists>s'. for_each phys_step ops s = Some s' \<and> phys_inv s' \<and> {..<256} \<subseteq> used_pages s'"
  using assms
proof (induction ops arbitrary: s)
  case (Cons op ops)
  then obtain s1 where "phys_step op s = Some s1" "phys_inv s1" "{..<256} \<subseteq> used_pages s1"
    using phys_step_low_pages by blast
  with Cons.IH show ?case by auto
qed auto


section \<open>Properties\<close>

text \<open>A kernel image of 92 KiB, loaded and initialised.\<close>

definition phys_loaded :: phys where
  "phys_loaded = \<lparr>eflags = 0, mem = (\<lambda>_. 0), cr0 = 0, cr3 = 0, tlb = (\<lambda>_. None), port_in = (\<lambda>_ _. 0),
     in_count = 0, out_trace = [], terminalBuffer = (\<lambda>_ _. 0), cursorX = 0, cursorY = 0, viewportY = 0,
     renderPending = False, vgaColor = 0, vgaMem = (\<lambda>_. 0), pageBitMap = replicate 512 0, freePages = 0\<rparr>"

definition phys_booted :: phys where
  "phys_booted = the (physical_init 0x20000 phys_loaded)"

lemma phys_booted:
  "physical_init 0x20000 phys_loaded = Some phys_booted" "phys_inv phys_booted"
  "used_pages phys_booted = {..<512}" "freePages phys_booted = 15872"
proof -
  have "length (pageBitMap phys_loaded) = 512" "(0x20000 :: u32) \<le> kernel_end_limit"
    by (simp_all add: phys_loaded_def kernel_end_limit_def)
  from physical_init_inv [OF this] obtain s' where s': "physical_init 0x20000 phys_loaded = Some s' \<and> phys_inv s' \<and>
      phys_rest s' = phys_rest phys_loaded \<and> used_pages s' = {..<512} \<and> freePages s' = 15872"
    by (rule exE)
  then have "phys_booted = s'" by (simp add: phys_booted_def)
  with s' show "physical_init 0x20000 phys_loaded = Some phys_booted" "phys_inv phys_booted"
    "used_pages phys_booted = {..<512}" "freePages phys_booted = 15872"
    by simp_all
qed

lemma phys_booted_candidates: "candidates 256 phys_booted = {512..<PAGES}"
  unfolding candidates_def free_pages_eq phys_booted(3)
  by (rule set_eqI, simp only: mem_Collect_eq Diff_iff lessThan_iff atLeastLessThan_iff) linarith

lemma phys_booted_min: "candidates 256 phys_booted \<noteq> {} \<and> Min (candidates 256 phys_booted) = 512"
  by (simp only: phys_booted_candidates PAGES_def) (simp add: Min_eq_iff del: atLeastLessThan_nat_numeral)

text \<open>C23. Initialisation, for every kernel image that ends below the kernel stack, leaves exactly the first
  512 pages (low memory, kernel, stack and the heap up to 2 MiB) in use, counts the remaining 15872
  pages as free, and touches nothing but the allocator's own state.\<close>

theorem physical_init_exact:
  assumes "length (pageBitMap s) = 512" "kernel_end \<le> kernel_end_limit"
  shows "\<exists>s'. physical_init kernel_end s = Some s' \<and> phys_inv s' \<and> used_pages s' = {..<512} \<and>
    freePages s' = 15872 \<and> phys_rest s' = phys_rest s"
  using physical_init_inv [OF assms] by blast

theorem physical_init_exact_witness:
  "length (pageBitMap phys_loaded) = 512 \<and> 0x20000 \<le> kernel_end_limit \<and>
   (\<exists>s'. physical_init 0x20000 phys_loaded = Some s' \<and> phys_inv s' \<and> used_pages s' = {..<512} \<and>
     freePages s' = 15872 \<and> phys_rest s' = phys_rest phys_loaded)"
proof -
  have h: "length (pageBitMap phys_loaded) = 512" "(0x20000 :: u32) \<le> kernel_end_limit"
    by (simp_all add: phys_loaded_def kernel_end_limit_def)
  with physical_init_exact [OF h] show ?thesis by simp
qed

text \<open>C25. \<^verbatim>\<open>physical_alloc_page\<close> returns the address of the lowest free page at or above 1 MiB, marks that page
  and no other, and takes one from the free count; when there is none it returns 0 and changes nothing.\<close>

theorem physical_alloc_page_lowest:
  assumes "phys_inv s"
  shows "if {p \<in> free_pages s. 256 \<le> p} = {} then physical_alloc_page s = Some (0, s)
    else \<exists>p s'. physical_alloc_page s = Some (of_nat (p * 4096), s') \<and> p \<in> free_pages s \<and> 256 \<le> p \<and>
      (\<forall>q \<in> free_pages s. 256 \<le> q \<longrightarrow> p \<le> q) \<and> phys_inv s' \<and> used_pages s' = insert p (used_pages s) \<and>
      freePages s' = freePages s - 1 \<and> phys_rest s' = phys_rest s"
proof (cases "candidates 256 s = {}")
  case True
  then show ?thesis using physical_alloc_page_eq [OF assms] by (simp add: candidates_def)
next
  case False
  let ?p = "Min (candidates 256 s)"
  note m = min_candidate [OF False] and t = take_page_inv [OF assms min_candidate(1) [OF False]]
  have "physical_alloc_page s = Some (of_nat (?p * 4096), take_page ?p s)"
    using physical_alloc_page_eq [OF assms] False by simp
  moreover have "freePages (take_page ?p s) = freePages s - 1" by (simp add: take_page_def)
  ultimately have "\<exists>p s'. physical_alloc_page s = Some (of_nat (p * 4096), s') \<and> p \<in> free_pages s \<and> 256 \<le> p \<and>
      (\<forall>q \<in> free_pages s. 256 \<le> q \<longrightarrow> p \<le> q) \<and> phys_inv s' \<and> used_pages s' = insert p (used_pages s) \<and>
      freePages s' = freePages s - 1 \<and> phys_rest s' = phys_rest s"
    using m t by (intro exI [of _ ?p] exI [of _ "take_page ?p s"]) simp
  with False show ?thesis by (simp only: candidates_def if_False)
qed

theorem physical_alloc_page_lowest_witness:
  "phys_inv phys_booted \<and>
   (\<exists>s'. physical_alloc_page phys_booted = Some (0x200000, s') \<and> phys_inv s' \<and> used_pages s' = insert 512 {..<512})"
proof -
  have ne: "{p \<in> free_pages phys_booted. 256 \<le> p} \<noteq> {}"
    using phys_booted_min by (simp only: candidates_def simp_thms)
  from physical_alloc_page_lowest [OF phys_booted(2)] obtain p s' where
    p: "physical_alloc_page phys_booted = Some (of_nat (p * 4096), s')" "p \<in> free_pages phys_booted" "256 \<le> p"
      "\<forall>q \<in> free_pages phys_booted. 256 \<le> q \<longrightarrow> p \<le> q" "phys_inv s'" "used_pages s' = insert p (used_pages phys_booted)"
    unfolding if_not_P [OF ne] by (elim exE conjE)
  then have "p = Min (candidates 256 phys_booted)"
    by (intro Min_eqI [symmetric]) (simp_all add: candidates_def)
  then have "p = 512" using phys_booted_min by (simp only: simp_thms)
  with p(1,5,6) phys_booted(2,3) show ?thesis by simp
qed

text \<open>C31. \<^verbatim>\<open>physical_free_page\<close> is total: it gives back exactly the page at the address when the address is
  page-aligned, at or above 1 MiB, inside the 64 MiB managed and the page is in use (so a double free
  changes nothing), and otherwise leaves the state as it is.\<close>

theorem physical_free_page_cases:
  assumes "phys_inv s"
  shows "\<exists>s'. physical_free_page a s = Some s' \<and> phys_inv s' \<and> phys_rest s' = phys_rest s \<and>
    (if 4096 dvd unat a \<and> 0x100000 \<le> unat a \<and> unat a div 4096 \<in> used_pages s
     then used_pages s' = used_pages s - {unat a div 4096} \<and> freePages s' = freePages s + 1
     else s' = s)"
proof -
  have al: "a AND 4095 = 0 \<longleftrightarrow> 4096 dvd unat a"
    using unat_and_page_offset [of a] by (simp add: unat_inj dvd_eq_mod_eq_0)
  have hi: "256 \<le> unat a div 4096 \<longleftrightarrow> 0x100000 \<le> unat a"
    by (subst less_eq_div_iff_mult_less_eq) simp_all
  show ?thesis
  proof (cases "4096 dvd unat a \<and> 0x100000 \<le> unat a \<and> unat a div 4096 \<in> used_pages s")
    case True
    then have "physical_free_page a s = Some (give_page (unat a div 4096) s)"
      using physical_free_page_eq [OF assms, of a] al hi by simp
    with True give_page_inv [OF assms, of "unat a div 4096"] show ?thesis
      by (intro exI [of _ "give_page (unat a div 4096) s"]) (simp add: give_page_def)
  next
    case False
    then show ?thesis using physical_free_page_eq [OF assms, of a] al hi assms by auto
  qed
qed

theorem physical_free_page_cases_witness:
  "phys_inv phys_booted \<and> physical_free_page 0x200000 phys_booted = Some phys_booted \<and>
   physical_free_page 0x100001 phys_booted = Some phys_booted"
  using physical_free_page_cases [OF phys_booted(2), of "0x200000"]
    physical_free_page_cases [OF phys_booted(2), of "0x100001"] phys_booted
  by auto

text \<open>Freeing the page just allocated restores the allocator's state exactly.\<close>

lemma physical_alloc_free_inverse:
  assumes "phys_inv s" "physical_alloc_page s = Some (a, s')" "a \<noteq> 0"
  shows "physical_free_page a s' = Some s"
  by (rule physical.free_alloc [OF assms])

text \<open>Successive allocations never hand out the same frame twice, nor a frame that was in use, and every
  run of them is defined and leaves exactly the frames handed out in use beside the old ones.\<close>

lemma physical_alloc_run_fresh:
  assumes "phys_inv s"
  shows "\<exists>as s'. alloc_run physical_alloc_page n s = Some (as, s') \<and> phys_inv s' \<and> length as = n \<and>
    distinct (filter (\<lambda>a. a \<noteq> 0) as) \<and> set (filter (\<lambda>a. a \<noteq> 0) as) \<inter> used_frames s = {} \<and>
    used_frames s' = used_frames s \<union> set (filter (\<lambda>a. a \<noteq> 0) as)"
  by (rule physical.alloc_run_fresh [OF assms])

text \<open>C24. After initialisation no sequence of allocations and frees, with whatever addresses, fails, corrupts
  the free count, or makes a page below 1 MiB available.\<close>

theorem physical_run_keeps_low_memory:
  assumes "length (pageBitMap s) = 512" "kernel_end \<le> kernel_end_limit"
  shows "\<exists>s0 s'. physical_init kernel_end s = Some s0 \<and> for_each phys_step ops s0 = Some s' \<and>
    phys_inv s' \<and> {..<256} \<subseteq> used_pages s'"
proof -
  obtain s0 where s0: "physical_init kernel_end s = Some s0" "phys_inv s0" "used_pages s0 = {..<512}"
    using physical_init_inv [OF assms] by blast
  then have "{..<256} \<subseteq> used_pages s0" by auto
  with phys_run_low_pages [OF s0(2)] s0(1) show ?thesis by blast
qed

theorem physical_run_keeps_low_memory_witness:
  "length (pageBitMap phys_loaded) = 512 \<and> 0x20000 \<le> kernel_end_limit \<and>
   (\<exists>s0 s'. physical_init 0x20000 phys_loaded = Some s0 \<and>
      for_each phys_step [AllocPage, FreePage 0x1000, FreePage 0x200000, AllocPage] s0 = Some s' \<and>
      phys_inv s' \<and> {..<256} \<subseteq> used_pages s')"
proof -
  have h: "length (pageBitMap phys_loaded) = 512" "(0x20000 :: u32) \<le> kernel_end_limit"
    by (simp_all add: phys_loaded_def kernel_end_limit_def)
  with physical_run_keeps_low_memory [OF h] show ?thesis by blast
qed

end
