(* ===== verification/Kmalloc.thy ===== *)
theory Kmalloc
  imports Physical
begin

text \<open>
  The kernel heap of \<^verbatim>\<open>kernel/mm/kmalloc.c\<close>: a first-fit allocator over a linked list of block
  headers that live in the managed megabyte itself.  The headers are read and written in the byte
  memory of the machine with the i386 layout of \<^verbatim>\<open>struct block\<close> (\<open>size\<close> at offset 0, \<open>free\<close> at 4,
  \<open>next\<close> at 8; 12 bytes, 16 with the alignment of \<^verbatim>\<open>HEADER_SIZE\<close>).  The loops over the list are
  partial functions: \<open>None\<close> would be a list that does not end.

  The abstract heap is the list of blocks \<open>(payload size, free)\<close> in address order, laid out without
  gaps from \<^verbatim>\<open>__heap_start\<close>; \<open>chain\<close> says that memory holds it.  Shown: \<^verbatim>\<open>kmalloc\<close> and \<^verbatim>\<open>kfree\<close>
  terminate and refine first-fit allocation and full coalescing of that list; they write to block
  headers and free payload only, so the bytes of live allocations are never touched; allocations
  are aligned and disjoint; freeing undoes allocating; and what happens at the top of the size range.
\<close>

section \<open>State and operations\<close>

definition ALIGN8 :: "u32 \<Rightarrow> u32" where
  "ALIGN8 sz = (sz + 7) AND NOT 7"

definition HEAP_SIZE :: u32 where "HEAP_SIZE = 1024 * 1024"

definition SIZEOF_BLOCK :: u32 where "SIZEOF_BLOCK = 12"

definition HEADER_SIZE :: u32 where "HEADER_SIZE = ALIGN8 SIZEOF_BLOCK"

record kheap = phys +
  head :: u32

text \<open>The fields of a \<^verbatim>\<open>block_t\<close> at address \<open>p\<close>.\<close>

definition blk_size :: "memory \<Rightarrow> u32 \<Rightarrow> u32" where
  "blk_size m p = load32 m p"

definition blk_free :: "memory \<Rightarrow> u32 \<Rightarrow> bool" where
  "blk_free m p \<longleftrightarrow> m (p + 4) \<noteq> 0"

definition blk_next :: "memory \<Rightarrow> u32 \<Rightarrow> u32" where
  "blk_next m p = load32 m (p + 8)"

definition set_size :: "u32 \<Rightarrow> u32 \<Rightarrow> memory \<Rightarrow> memory" where
  "set_size p v m = store32 m p v"

definition set_free :: "u32 \<Rightarrow> bool \<Rightarrow> memory \<Rightarrow> memory" where
  "set_free p b m = m(p + 4 := (if b then 1 else 0))"

definition set_next :: "u32 \<Rightarrow> u32 \<Rightarrow> memory \<Rightarrow> memory" where
  "set_next p v m = store32 m (p + 8) v"

definition kmalloc_init :: "'a kheap_scheme \<Rightarrow> 'a kheap_scheme" where
  "kmalloc_init s = s\<lparr>head := heap_start,
     mem := set_next heap_start 0 (set_free heap_start True
       (set_size heap_start (HEAP_SIZE - HEADER_SIZE) (mem s)))\<rparr>"

text \<open>Slicing a block into the allocated part and the rest (the \<^verbatim>\<open>split\<close> branch of \<^verbatim>\<open>kmalloc\<close>).\<close>

definition split_block :: "u32 \<Rightarrow> u32 \<Rightarrow> memory \<Rightarrow> memory" where
  "split_block ptr sz m =
     (let split = ptr + HEADER_SIZE + sz;
          m = set_size split (blk_size m ptr - sz - HEADER_SIZE) m;
          m = set_free split True m;
          m = set_next split (blk_next m ptr) m;
          m = set_size ptr sz m
      in set_next ptr split m)"

partial_function (option) kmalloc_loop :: "u32 \<Rightarrow> u32 \<Rightarrow> memory \<Rightarrow> (u32 \<times> memory) option" where
  "kmalloc_loop sz ptr m =
     (if ptr = 0 then Some (0, m)
      else if \<not> blk_free m ptr \<or> blk_size m ptr < sz then kmalloc_loop sz (blk_next m ptr) m
      else let m = (if blk_size m ptr \<ge> sz + HEADER_SIZE + 8 then split_block ptr sz m else m)
        in Some (ptr + HEADER_SIZE, set_free ptr False m))"

definition kmalloc :: "u32 \<Rightarrow> 'a kheap_scheme \<Rightarrow> (u32 \<times> 'a kheap_scheme) option" where
  "kmalloc sz s =
     (if sz = 0 then Some (0, s)
      else map_option (\<lambda>(p, m). (p, s\<lparr>mem := m\<rparr>)) (kmalloc_loop (ALIGN8 sz) (head s) (mem s)))"

text \<open>The inner \<^verbatim>\<open>while\<close> and the outer \<^verbatim>\<open>for\<close> of \<^verbatim>\<open>kfree\<close>.\<close>

partial_function (option) merge_loop :: "u32 \<Rightarrow> memory \<Rightarrow> memory option" where
  "merge_loop cur m =
     (if blk_free m cur \<and> blk_next m cur \<noteq> 0 \<and> blk_free m (blk_next m cur)
      then let m = set_size cur (blk_size m cur + (HEADER_SIZE + blk_size m (blk_next m cur))) m;
               m = set_next cur (blk_next m (blk_next m cur)) m
           in merge_loop cur m
      else Some m)"

partial_function (option) kfree_loop :: "u32 \<Rightarrow> memory \<Rightarrow> memory option" where
  "kfree_loop cur m =
     (if cur = 0 then Some m
      else do { m \<leftarrow> merge_loop cur m; kfree_loop (blk_next m cur) m })"

definition kfree :: "u32 \<Rightarrow> 'a kheap_scheme \<Rightarrow> 'a kheap_scheme option" where
  "kfree ptr s =
     (if ptr = 0 then Some s
      else let b = ptr - HEADER_SIZE
        in map_option (\<lambda>m. s\<lparr>mem := m\<rparr>) (kfree_loop (head s) (set_free b True (mem s))))"


section \<open>The abstract heap\<close>

type_synonym blocks = "(nat \<times> bool) list"

text \<open>First fit with splitting; the address of the first header is \<open>a\<close>, the result is the address
  of the payload.\<close>

fun first_fit :: "nat \<Rightarrow> nat \<Rightarrow> blocks \<Rightarrow> (nat \<times> blocks) option" where
  "first_fit n a [] = None"
| "first_fit n a ((sz, fr) # bs) =
     (if \<not> fr \<or> sz < n then map_option (\<lambda>(p, bs). (p, (sz, fr) # bs)) (first_fit n (a + 16 + sz) bs)
      else if n + 24 \<le> sz then Some (a + 16, (n, False) # (sz - n - 16, True) # bs)
      else Some (a + 16, (sz, False) # bs))"

text \<open>Joining neighbouring free blocks.\<close>

fun coalesce :: "blocks \<Rightarrow> blocks" where
  "coalesce ((s1, True) # (s2, True) # bs) = coalesce ((s1 + (16 + s2), True) # bs)"
| "coalesce (b # bs) = b # coalesce bs"
| "coalesce [] = []"

text \<open>Marking the block whose payload starts at \<open>p\<close> free.\<close>

fun release :: "nat \<Rightarrow> nat \<Rightarrow> blocks \<Rightarrow> blocks" where
  "release p a [] = []"
| "release p a ((sz, fr) # bs) =
     (if p = a + 16 then (sz, True) # bs else (sz, fr) # release p (a + 16 + sz) bs)"

text \<open>Payload address and size of the blocks in use.\<close>

fun live :: "nat \<Rightarrow> blocks \<Rightarrow> (nat \<times> nat) list" where
  "live a [] = []"
| "live a ((sz, fr) # bs) = (if fr then [] else [(a + 16, sz)]) @ live (a + 16 + sz) bs"

text \<open>The bytes the allocator may write: headers and free payload.\<close>

fun free_area :: "nat \<Rightarrow> blocks \<Rightarrow> nat set" where
  "free_area a [] = {}"
| "free_area a ((sz, fr) # bs) =
     {a..<a + 16} \<union> (if fr then {a + 16..<a + 16 + sz} else {}) \<union> free_area (a + 16 + sz) bs"

definition extent :: "blocks \<Rightarrow> nat" where
  "extent bs = sum_list (map (\<lambda>b. 16 + fst b) bs)"

lemma extent_simps [simp]: "extent [] = 0" "extent ((sz, fr) # bs) = 16 + sz + extent bs"
  "extent (b # bs) = 16 + fst b + extent bs"
  by (simp_all add: extent_def)

text \<open>Memory holds the blocks \<open>bs\<close> from address \<open>a\<close> on.\<close>

fun chain :: "memory \<Rightarrow> nat \<Rightarrow> blocks \<Rightarrow> bool" where
  "chain m a [] = True"
| "chain m a ((sz, fr) # bs) =
     (blk_size m (of_nat a) = of_nat sz \<and> blk_free m (of_nat a) = fr \<and>
      blk_next m (of_nat a) = (if bs = [] then 0 else of_nat (a + 16 + sz)) \<and>
      chain m (a + 16 + sz) bs)"

text \<open>No free block is followed by a free block.\<close>

fun tidy :: "blocks \<Rightarrow> bool" where
  "tidy ((s1, f1) # (s2, f2) # bs) \<longleftrightarrow> \<not> (f1 \<and> f2) \<and> tidy ((s2, f2) # bs)"
| "tidy bs = True"

definition HEAP_BASE :: nat where "HEAP_BASE = 0x100000"

definition heap_inv :: "blocks \<Rightarrow> 'a kheap_scheme \<Rightarrow> bool" where
  "heap_inv bs s \<longleftrightarrow> head s = heap_start \<and> bs \<noteq> [] \<and> (\<forall>b \<in> set bs. 8 dvd fst b) \<and>
     tidy bs \<and> extent bs = 0x100000 \<and> chain (mem s) HEAP_BASE bs"



section \<open>Reading and writing headers\<close>

lemma HEADER_SIZE_16 [simp]: "HEADER_SIZE = 16"
  by (simp add: HEADER_SIZE_def ALIGN8_def SIZEOF_BLOCK_def)

lemma heap_start_base: "heap_start = of_nat HEAP_BASE"
  by (simp add: heap_start_def HEAP_BASE_def)

text \<open>The same header.\<close>

lemma hdr_same [simp]:
  "blk_size (set_size p v m) p = v" "blk_free (set_size p v m) p = blk_free m p"
  "blk_next (set_size p v m) p = blk_next m p"
  "blk_size (set_free p b m) p = blk_size m p" "blk_free (set_free p b m) p = b"
  "blk_next (set_free p b m) p = blk_next m p"
  "blk_size (set_next p v m) p = blk_size m p" "blk_free (set_next p v m) p = blk_free m p"
  "blk_next (set_next p v m) p = v"
proof -
  show "blk_size (set_size p v m) p = v" "blk_next (set_next p v m) p = v" "blk_free (set_free p b m) p = b"
    by (simp_all add: blk_size_def blk_free_def blk_next_def set_size_def set_free_def set_next_def)
qed (simp_all add: blk_size_def blk_free_def blk_next_def set_size_def set_free_def set_next_def
      load32_def store32_def)

lemma header_changes:
  assumes "a + 16 \<le> 2 ^ 32"
  shows "changes_only {a..<a + 16} m (set_size (of_nat a) v m)"
    "changes_only {a..<a + 16} m (set_free (of_nat a) b m)"
    "changes_only {a..<a + 16} m (set_next (of_nat a) v m)"
proof -
  have n: "(of_nat a + 8 :: u32) = of_nat (a + 8)" "(of_nat a + 4 :: u32) = of_nat (a + 4)" by simp_all
  show "changes_only {a..<a + 16} m (set_size (of_nat a) v m)"
    unfolding set_size_def using assms by (intro changes_only_mono [OF changes_only_store32]) auto
  show "changes_only {a..<a + 16} m (set_next (of_nat a) v m)"
    unfolding set_next_def n using assms by (intro changes_only_mono [OF changes_only_store32]) auto
  show "changes_only {a..<a + 16} m (set_free (of_nat a) b m)"
    unfolding set_free_def n using assms by (intro changes_only_mono [OF changes_only_byte]) auto
qed

text \<open>A header is determined by its sixteen bytes.\<close>

lemma header_cong:
  assumes "changes_only S m m'" "{a..<a + 16} \<inter> S = {}" "a + 16 \<le> 2 ^ 32"
  shows "blk_size m' (of_nat a) = blk_size m (of_nat a)" "blk_free m' (of_nat a) = blk_free m (of_nat a)"
    "blk_next m' (of_nat a) = blk_next m (of_nat a)"
proof -
  have eq: "m' x = m x" if "a \<le> unat x" "unat x < a + 16" for x
    using that assms(1,2) by (auto simp: changes_only_def)
  have n: "(of_nat a + 8 :: u32) = of_nat (a + 8)" "(of_nat a + 4 :: u32) = of_nat (a + 4)" by simp_all
  have u: "unat (of_nat (a + 4) :: u32) = a + 4"
    using assms(3) by (intro unat_of_nat_small) simp
  show "blk_size m' (of_nat a) = blk_size m (of_nat a)" "blk_next m' (of_nat a) = blk_next m (of_nat a)"
    unfolding blk_size_def blk_next_def n
    by (rule changes_only_load32 [OF assms(1)]; use assms(2,3) in \<open>auto simp: disjoint_iff\<close>)+
  show "blk_free m' (of_nat a) = blk_free m (of_nat a)"
    unfolding blk_free_def n using eq [of "of_nat (a + 4)"] u by simp
qed

lemma header_apart:
  assumes "a + 16 \<le> q \<or> q + 16 \<le> a" "a + 16 \<le> 2 ^ 32" "q + 16 \<le> 2 ^ 32"
  shows "blk_size (set_size (of_nat a) v m) (of_nat q) = blk_size m (of_nat q)"
    "blk_free (set_size (of_nat a) v m) (of_nat q) = blk_free m (of_nat q)"
    "blk_next (set_size (of_nat a) v m) (of_nat q) = blk_next m (of_nat q)"
    "blk_size (set_free (of_nat a) b m) (of_nat q) = blk_size m (of_nat q)"
    "blk_free (set_free (of_nat a) b m) (of_nat q) = blk_free m (of_nat q)"
    "blk_next (set_free (of_nat a) b m) (of_nat q) = blk_next m (of_nat q)"
    "blk_size (set_next (of_nat a) v m) (of_nat q) = blk_size m (of_nat q)"
    "blk_free (set_next (of_nat a) v m) (of_nat q) = blk_free m (of_nat q)"
    "blk_next (set_next (of_nat a) v m) (of_nat q) = blk_next m (of_nat q)"
proof -
  have "{q..<q + 16} \<inter> {a..<a + 16} = {}" using assms(1) by auto
  note cong = header_cong [OF _ this assms(3)]
  show "blk_size (set_size (of_nat a) v m) (of_nat q) = blk_size m (of_nat q)"
    "blk_free (set_size (of_nat a) v m) (of_nat q) = blk_free m (of_nat q)"
    "blk_next (set_size (of_nat a) v m) (of_nat q) = blk_next m (of_nat q)"
    by (intro cong header_changes(1) assms(2))+
  show "blk_size (set_free (of_nat a) b m) (of_nat q) = blk_size m (of_nat q)"
    "blk_free (set_free (of_nat a) b m) (of_nat q) = blk_free m (of_nat q)"
    "blk_next (set_free (of_nat a) b m) (of_nat q) = blk_next m (of_nat q)"
    by (intro cong header_changes(2) assms(2))+
  show "blk_size (set_next (of_nat a) v m) (of_nat q) = blk_size m (of_nat q)"
    "blk_free (set_next (of_nat a) v m) (of_nat q) = blk_free m (of_nat q)"
    "blk_next (set_next (of_nat a) v m) (of_nat q) = blk_next m (of_nat q)"
    by (intro cong header_changes(3) assms(2))+
qed

text \<open>A chain is determined by the memory from its first header on; writes below it do not matter.\<close>

lemma chain_cong:
  assumes "chain m a bs" "changes_only S m m'" "S \<inter> {a..<a + extent bs} = {}" "a + extent bs \<le> 2 ^ 32"
  shows "chain m' a bs"
  using assms
proof (induction m a bs rule: chain.induct)
  case (2 m a sz fr bs)
  have "{a..<a + 16} \<inter> S = {}" "a + 16 \<le> 2 ^ 32" "S \<inter> {a + 16 + sz..<a + 16 + sz + extent bs} = {}"
    using "2.prems"(3,4) by (auto simp: disjoint_iff)
  with header_cong [OF "2.prems"(2), of a] 2 show ?case by simp
qed simp

lemma free_area_bounds: "free_area a bs \<subseteq> {a..<a + extent bs}"
proof (induction a bs rule: free_area.induct)
  case (2 a sz fr bs)
  then show ?case by (auto simp: subset_iff)
qed simp

section \<open>The search of \<^verbatim>\<open>kmalloc\<close> is first fit\<close>

text \<open>Splitting a block leaves two blocks in its place.\<close>

lemma split_block_chain:
  assumes c: "chain m a ((sz, fr) # bs)" and n: "n + 24 \<le> sz" and lim: "a + extent ((sz, fr) # bs) \<le> 2 ^ 31"
  shows "chain (split_block (of_nat a) (of_nat n) m) a ((n, fr) # (sz - n - 16, True) # bs)"
    and "changes_only {a..<a + 16 + sz} m (split_block (of_nat a) (of_nat n) m)"
proof -
  define q where "q = a + 16 + n"
  have lim': "a + 16 + sz + extent bs \<le> 2 ^ 31" using lim by simp
  have split: "(of_nat a + HEADER_SIZE + of_nat n :: u32) = of_nat q" by (simp add: q_def)
  have aq: "a + 16 \<le> q \<or> q + 16 \<le> a" "q + 16 \<le> a + 16 + sz" "a + 16 \<le> 2 ^ 32" "q + 16 \<le> 2 ^ 32"
    using n lim' by (auto simp: q_def)
  have qa: "q + 16 \<le> a \<or> a + 16 \<le> q" using aq(1) by blast
  note apart = header_apart [OF aq(1,3,4)] header_apart [OF qa aq(4,3)]
  let ?m = "split_block (of_nat a) (of_nat n) m"
  have sub: "{a..<a + 16} \<subseteq> {a..<a + 16 + sz}" "{q..<q + 16} \<subseteq> {a..<a + 16 + sz}"
    using aq by (auto simp: q_def)
  note steps = header_changes [OF aq(3), THEN changes_only_mono, OF sub(1), THEN changes_only_trans [rotated]]
    header_changes [OF aq(4), THEN changes_only_mono, OF sub(2), THEN changes_only_trans [rotated]]
  show ch: "changes_only {a..<a + 16 + sz} m ?m"
    unfolding split_block_def Let_def split
    by (intro steps changes_only_refl)
  have tail: "chain ?m (a + 16 + sz) bs"
    by (rule chain_cong [OF _ ch]) (use c lim' in auto)
  have hdr: "blk_size m (of_nat a) = of_nat sz" "blk_free m (of_nat a) = fr"
    "blk_next m (of_nat a) = (if bs = [] then 0 else of_nat (a + 16 + sz))"
    using c by simp_all
  have rest: "of_nat sz - of_nat n - HEADER_SIZE = (of_nat (sz - n - 16) :: u32)"
    using n by (simp add: of_nat_diff)
  have fields: "blk_size ?m (of_nat a) = of_nat n" "blk_free ?m (of_nat a) = fr" "blk_next ?m (of_nat a) = of_nat q"
    "blk_size ?m (of_nat q) = of_nat (sz - n - 16)" "blk_free ?m (of_nat q)"
    "blk_next ?m (of_nat q) = (if bs = [] then 0 else of_nat (a + 16 + sz))"
    unfolding split_block_def Let_def split by (simp_all only: apart hdr_same hdr rest)
  have "q + 16 + (sz - n - 16) = a + 16 + sz" using n by (simp add: q_def)
  with tail fields show "chain ?m a ((n, fr) # (sz - n - 16, True) # bs)"
    by (simp only: chain.simps q_def list.distinct if_False simp_thms)
qed

lemma chain_set_free:
  assumes "chain m a ((sz, fr) # bs)" "a + extent ((sz, fr) # bs) \<le> 2 ^ 31"
  shows "chain (set_free (of_nat a) b m) a ((sz, b) # bs)"
proof -
  have "chain (set_free (of_nat a) b m) (a + 16 + sz) bs"
    by (rule chain_cong [OF _ header_changes(2)]) (use assms in auto)
  with assms(1) show ?thesis by simp
qed

lemma kmalloc_loop_nil: "kmalloc_loop sz 0 m = Some (0, m)"
  by (simp add: kmalloc_loop.simps)

text \<open>A change behind a block leaves its header as it is.\<close>

lemma chain_behind:
  assumes "chain m a ((sz, fr) # bs)" "chain m' (a + 16 + sz) bs'" "changes_only (free_area (a + 16 + sz) bs) m m'" "bs' = [] \<longleftrightarrow> bs = []"
    "a + 16 + sz + extent bs \<le> 2 ^ 31"
  shows "chain m' a ((sz, fr) # bs')"
proof -
  have "{a..<a + 16} \<inter> free_area (a + 16 + sz) bs = {}" using free_area_bounds [of "a + 16 + sz" bs] by auto
  note header_cong [OF assms(3) this]
  then show ?thesis using assms(1,2,4,5) by simp
qed

text \<open>The first block is free and large enough.\<close>

lemma kmalloc_loop_take:
  assumes ch: "chain m a ((sz, True) # bs)" and a: "0 < a" and lim: "a + extent ((sz, True) # bs) \<le> 2 ^ 31" and n: "n \<le> sz"
  shows "\<exists>p bs' m'. first_fit n a ((sz, True) # bs) = Some (p, bs') \<and> kmalloc_loop (of_nat n) (of_nat a) m = Some (of_nat p, m') \<and>
    chain m' a bs' \<and> changes_only {a..<a + 16 + sz} m m'"
proof -
  define m1 where "m1 = (if n + 24 \<le> sz then split_block (of_nat a) (of_nat n) m else m)"
  define x where "x = (if n + 24 \<le> sz then n else sz)"
  define ys where "ys = (if n + 24 \<le> sz then (sz - n - 16, True) # bs else bs)"
  have nz: "of_nat a \<noteq> (0 :: u32)" using a lim by (simp add: of_nat_nonzero_u32)
  have hdr: "blk_size m (of_nat a) = of_nat sz" "blk_free m (of_nat a)" using ch by simp_all
  have less: "\<not> of_nat sz < (of_nat n :: u32)" using lim n by (subst of_nat_less_u32) simp_all
  have "(of_nat sz < (of_nat (n + 24) :: u32)) = (sz < n + 24)" by (rule of_nat_less_u32) (use n lim in auto)
  then have ge: "(of_nat sz \<ge> (of_nat n + HEADER_SIZE + 8 :: u32)) = (n + 24 \<le> sz)" by (simp add: not_less [symmetric] add.commute)
  have loop: "kmalloc_loop (of_nat n) (of_nat a) m = Some (of_nat (a + 16), set_free (of_nat a) False m1)"
    using nz hdr less ge by (subst kmalloc_loop.simps) (simp add: m1_def Let_def add.commute)
  have m1: "chain m1 a ((x, True) # ys)" "changes_only {a..<a + 16 + sz} m m1"
    using split_block_chain [OF ch _ lim, of n] ch by (simp_all add: m1_def x_def ys_def)
  have "extent ((x, True) # ys) = extent ((sz, True) # bs)" by (simp add: x_def ys_def)
  then have "chain (set_free (of_nat a) False m1) a ((x, False) # ys)" by (intro chain_set_free [OF m1(1)]) (use lim in simp)
  moreover have "changes_only {a..<a + 16 + sz} m (set_free (of_nat a) False m1)"
    by (rule changes_only_trans [OF m1(2)], rule changes_only_mono [OF header_changes(2)]) (use lim in auto)
  moreover have "first_fit n a ((sz, True) # bs) = Some (a + 16, (x, False) # ys)" using n by (simp add: x_def ys_def)
  ultimately show ?thesis using loop by blast
qed

lemma kmalloc_loop_first_fit:
  assumes "chain m a bs" "0 < a" "a + extent bs \<le> 2 ^ 31" "n < 2 ^ 32"
  shows "case first_fit n a bs of
      None \<Rightarrow> kmalloc_loop (of_nat n) (if bs = [] then 0 else of_nat a) m = Some (0, m)
    | Some (p, bs') \<Rightarrow> \<exists>m'. kmalloc_loop (of_nat n) (if bs = [] then 0 else of_nat a) m = Some (of_nat p, m') \<and>
        chain m' a bs' \<and> changes_only (free_area a bs) m m'"
  using assms
proof (induction n a bs rule: first_fit.induct)
  case (1 n a)
  then show ?case by (simp add: kmalloc_loop_nil)
next
  case (2 n a sz fr bs)
  have lim: "a + 16 + sz + extent bs \<le> 2 ^ 31" using "2.prems"(3) by simp
  have nz: "of_nat a \<noteq> (0 :: u32)" using "2.prems"(2) lim by (simp add: of_nat_nonzero_u32)
  show ?case
  proof (cases "\<not> fr \<or> sz < n")
    case True
    have hdr: "blk_size m (of_nat a) = of_nat sz" "blk_free m (of_nat a) = fr"
      "blk_next m (of_nat a) = (if bs = [] then 0 else of_nat (a + 16 + sz))" using "2.prems"(1) by simp_all
    have "(of_nat sz < (of_nat n :: u32)) = (sz < n)" using lim "2.prems"(4) by (simp add: of_nat_less_u32)
    then have step: "kmalloc_loop (of_nat n) (of_nat a) m = kmalloc_loop (of_nat n) (if bs = [] then 0 else of_nat (a + 16 + sz)) m"
      using nz hdr True by (subst kmalloc_loop.simps) simp
    from 2 True lim have IH: "case first_fit n (a + 16 + sz) bs of
        None \<Rightarrow> kmalloc_loop (of_nat n) (if bs = [] then 0 else of_nat (a + 16 + sz)) m = Some (0, m)
      | Some (p, bs') \<Rightarrow> \<exists>m'. kmalloc_loop (of_nat n) (if bs = [] then 0 else of_nat (a + 16 + sz)) m
          = Some (of_nat p, m') \<and> chain m' (a + 16 + sz) bs' \<and> changes_only (free_area (a + 16 + sz) bs) m m'"
      by simp
    show ?thesis
    proof (cases "first_fit n (a + 16 + sz) bs")
      case None
      with True IH step show ?thesis by simp
    next
      case (Some r)
      obtain p bs' where r: "r = (p, bs')" by (cases r)
      with IH Some obtain m' where m': "kmalloc_loop (of_nat n) (of_nat a) m = Some (of_nat p, m')"
        "chain m' (a + 16 + sz) bs'" "changes_only (free_area (a + 16 + sz) bs) m m'" unfolding step by auto
      have "bs' = [] \<longleftrightarrow> bs = []" using Some r by (cases bs) (auto split: if_splits)
      from chain_behind [OF "2.prems"(1) m'(2,3) this lim] have "chain m' a ((sz, fr) # bs')" .
      moreover have "changes_only (free_area a ((sz, fr) # bs)) m m'" by (rule changes_only_mono [OF m'(3)]) auto
      ultimately show ?thesis using True Some r m'(1) by auto
    qed
  next
    case False
    then have fr: "fr" "n \<le> sz" by simp_all
    have "chain m a ((sz, True) # bs)" "a + extent ((sz, True) # bs) \<le> 2 ^ 31" using "2.prems"(1,3) fr by simp_all
    from kmalloc_loop_take [OF this(1) "2.prems"(2) this(2) fr(2)] obtain p bs' m' where
      "first_fit n a ((sz, True) # bs) = Some (p, bs')" "kmalloc_loop (of_nat n) (of_nat a) m = Some (of_nat p, m')" "chain m' a bs'"
      "changes_only {a..<a + 16 + sz} m m'" by blast
    moreover from this(4) have "changes_only (free_area a ((sz, True) # bs)) m m'" by (rule changes_only_mono) auto
    ultimately show ?thesis using fr by (simp del: first_fit.simps)
  qed
qed

section \<open>The loops of \<^verbatim>\<open>kfree\<close> coalesce\<close>

text \<open>One turn of the inner loop joins the block with its free successor.\<close>

lemma merge_step_chain:
  assumes c: "chain m a ((s1, fr) # (s2, f2) # bs)" and lim: "a + extent ((s1, fr) # (s2, f2) # bs) \<le> 2 ^ 31"
  defines "m1 \<equiv> set_size (of_nat a) (blk_size m (of_nat a) + (HEADER_SIZE + blk_size m (blk_next m (of_nat a)))) m"
  defines "m2 \<equiv> set_next (of_nat a) (blk_next m1 (blk_next m1 (of_nat a))) m1"
  shows "chain m2 a ((s1 + (16 + s2), fr) # bs)" and "changes_only {a..<a + 16} m m2"
proof -
  define q where "q = a + 16 + s1"
  have lim': "a + 16 + s1 + 16 + s2 + extent bs \<le> 2 ^ 31" using lim by simp
  have b: "a + 16 \<le> q \<or> q + 16 \<le> a" "a + 16 \<le> 2 ^ 32" "q + 16 \<le> 2 ^ 32"
    using lim' by (auto simp: q_def)
  have hdr: "blk_size m (of_nat a) = of_nat s1" "blk_free m (of_nat a) = fr" "blk_next m (of_nat a) = of_nat q"
    "blk_size m (of_nat q) = of_nat s2" "blk_next m (of_nat q) = (if bs = [] then 0 else of_nat (q + 16 + s2))"
    using c by (simp_all add: q_def)
  have m1: "m1 = set_size (of_nat a) (of_nat (s1 + (16 + s2))) m"
    unfolding m1_def hdr by simp
  have m2: "m2 = set_next (of_nat a) (if bs = [] then 0 else of_nat (q + 16 + s2)) m1"
    unfolding m2_def m1 by (simp only: hdr_same header_apart [OF b] hdr)
  show ch: "changes_only {a..<a + 16} m m2"
    unfolding m2 m1 by (intro changes_only_trans [OF _ header_changes(3)] header_changes(1) b(2))
  have "chain m2 (q + 16 + s2) bs"
    by (rule chain_cong [OF _ ch]) (use c lim' in \<open>auto simp: q_def\<close>)
  moreover have "q + 16 + s2 = a + 16 + (s1 + (16 + s2))" by (simp add: q_def)
  ultimately show "chain m2 a ((s1 + (16 + s2), fr) # bs)"
    unfolding m2 m1 by (simp only: chain.simps hdr_same hdr simp_thms)
qed

lemma kfree_loop_nil: "kfree_loop 0 m = Some m"
  by (simp add: kfree_loop.simps)

lemma coalesce_skip:
  "\<not> (fr \<and> bs \<noteq> [] \<and> snd (hd bs)) \<Longrightarrow> coalesce ((sz, fr) # bs) = (sz, fr) # coalesce bs"
  by (cases bs; cases "hd bs"; cases fr) auto

lemma kfree_loop_coalesce:
  assumes "chain m a bs" "0 < a" "a + extent bs \<le> 2 ^ 31"
  shows "\<exists>m'. kfree_loop (if bs = [] then 0 else of_nat a) m = Some m' \<and>
    chain m' a (coalesce bs) \<and> changes_only (free_area a bs) m m'"
  using assms
proof (induction bs arbitrary: m a rule: length_induct)
  case (1 bs)
  show ?case
  proof (cases bs)
    case Nil
    then show ?thesis by (simp add: kfree_loop_nil)
  next
    case (Cons b r)
    obtain sz fr where b: "b = (sz, fr)" by (cases b)
    note prems = "1.prems" [unfolded Cons b]
    have lim: "a + 16 + sz + extent r \<le> 2 ^ 31" using prems(3) by simp
    have nz: "of_nat a \<noteq> (0 :: u32)" using prems(2) lim by (simp add: of_nat_nonzero_u32)
    have hdr: "blk_free m (of_nat a) = fr" "blk_next m (of_nat a) = (if r = [] then 0 else of_nat (a + 16 + sz))"
      "chain m (a + 16 + sz) r"
      using prems(1) by simp_all
    show ?thesis
    proof (cases "fr \<and> r \<noteq> [] \<and> snd (hd r)")
      case True
      then obtain s2 r' where r: "r = (s2, True) # r'" by (cases r; cases "hd r") auto
      have fr2: "fr" "blk_next m (of_nat a) \<noteq> 0" "blk_free m (blk_next m (of_nat a))"
        using True hdr r lim by (simp_all add: of_nat_nonzero_u32 del: of_nat_add)
      define m1 where "m1 = set_size (of_nat a) (blk_size m (of_nat a) + (HEADER_SIZE + blk_size m (blk_next m (of_nat a)))) m"
      define m2 where "m2 = set_next (of_nat a) (blk_next m1 (blk_next m1 (of_nat a))) m1"
      have "chain m2 a ((sz + (16 + s2), fr) # r')" and ch: "changes_only {a..<a + 16} m m2"
        using merge_step_chain [OF prems(1) [unfolded r] prems(3) [unfolded r]] unfolding m2_def m1_def by blast+
      then obtain m' where m': "kfree_loop (of_nat a) m2 = Some m'" "chain m' a (coalesce ((sz + (16 + s2), fr) # r'))"
        "changes_only (free_area a ((sz + (16 + s2), fr) # r')) m2 m'"
        using 1(1) [rule_format, of "(sz + (16 + s2), fr) # r'" m2 a] prems(2) lim r Cons by auto
      have "merge_loop (of_nat a) m = merge_loop (of_nat a) m2"
        using fr2 hdr(1) by (subst merge_loop.simps) (simp only: simp_thms if_True Let_def m1_def m2_def)
      then have "kfree_loop (of_nat a) m = kfree_loop (of_nat a) m2"
        using nz by (subst (1 2) kfree_loop.simps) simp
      moreover have "free_area a ((sz + (16 + s2), fr) # r') \<subseteq> free_area a bs" "{a..<a + 16} \<subseteq> free_area a bs"
        using True Cons b r by (auto simp: add.assoc)
      moreover from this have "changes_only (free_area a bs) m m'"
        by (blast intro: changes_only_trans changes_only_mono [OF ch] changes_only_mono [OF m'(3)])
      ultimately show ?thesis using m'(1,2) Cons b r True by simp
    next
      case False
      have "merge_loop (of_nat a) m = Some m"
        using False hdr by (subst merge_loop.simps) (cases r; auto)
      then have "kfree_loop (of_nat a) m = kfree_loop (if r = [] then 0 else of_nat (a + 16 + sz)) m"
        using nz hdr by (subst kfree_loop.simps) simp
      moreover obtain m' where m': "kfree_loop (if r = [] then 0 else of_nat (a + 16 + sz)) m = Some m'"
        "chain m' (a + 16 + sz) (coalesce r)" "changes_only (free_area (a + 16 + sz) r) m m'"
        using 1(1) [rule_format, of r m "a + 16 + sz"] hdr(3) lim Cons by auto
      moreover have "coalesce r = [] \<longleftrightarrow> r = []" by (induction r rule: coalesce.induct) auto
      note chain_behind [OF prems(1) m'(2,3) this lim]
      ultimately show ?thesis
        using Cons b coalesce_skip [OF False, of sz] by (auto intro: changes_only_mono [OF m'(3)])
    qed
  qed
qed

section \<open>Properties of the abstract heap\<close>

lemma tidy_Cons: "tidy ((sz, fr) # bs) \<longleftrightarrow> \<not> (fr \<and> bs \<noteq> [] \<and> snd (hd bs)) \<and> tidy bs"
  by (cases bs; cases "hd bs") auto

lemma first_fit_none: "first_fit n a bs = None \<longleftrightarrow> (\<forall>(sz, fr) \<in> set bs. fr \<longrightarrow> sz < n)"
  by (induction n a bs rule: first_fit.induct) auto

lemma first_fit_blocks:
  assumes "first_fit n a bs = Some (p, bs')"
  shows "extent bs' = extent bs" "bs' \<noteq> []" "bs \<noteq> []" "snd (hd bs') \<Longrightarrow> snd (hd bs)"
    "8 dvd n \<Longrightarrow> \<forall>b \<in> set bs. 8 dvd fst b \<Longrightarrow> \<forall>b \<in> set bs'. 8 dvd fst b"
    "tidy bs \<Longrightarrow> tidy bs'"
  using assms
proof (induction n a bs arbitrary: p bs' rule: first_fit.induct)
  case (2 n a sz fr bs)
  {
    case 1
    then show ?case using 2 by (auto split: if_splits)
  next
    case 2
    then show ?case by (auto split: if_splits)
  next
    case 3
    then show ?case by simp
  next
    case 4
    then show ?case by (auto split: if_splits)
  next
    case 5
    then show ?case using 2(5) by (fastforce split: if_splits intro: dvd_diff_nat)
  next
    case 6
    then show ?case using 2(3,4,6) by (fastforce simp: tidy_Cons split: if_splits)
  }
qed simp_all

lemma live_bounds: "(p, k) \<in> set (live a bs) \<Longrightarrow> a + 16 \<le> p \<and> p + k \<le> a + extent bs"
  by (induction a bs rule: live.induct) (force split: if_splits)+

lemma live_aligned:
  "(p, k) \<in> set (live a bs) \<Longrightarrow> 8 dvd a \<Longrightarrow> \<forall>b \<in> set bs. 8 dvd fst b \<Longrightarrow> 8 dvd p \<and> 8 dvd k"
  by (induction a bs rule: live.induct) (auto split: if_splits)

text \<open>Blocks in use do not overlap each other, nor the bytes the allocator writes.\<close>

lemma live_apart:
  "(p, k) \<in> set (live a bs) \<Longrightarrow> (q, l) \<in> set (live a bs) \<Longrightarrow> (p, k) \<noteq> (q, l) \<Longrightarrow>
   p + k \<le> q \<and> p < q \<or> q + l \<le> p \<and> q < p"
proof (induction a bs rule: live.induct)
  case (2 a sz fr bs)
  then show ?case
    using live_bounds [of p k "a + 16 + sz" bs] live_bounds [of q l "a + 16 + sz" bs]
    by (auto split: if_splits)
qed simp

lemma live_free_area: "(p, k) \<in> set (live a bs) \<Longrightarrow> {p..<p + k} \<inter> free_area a bs = {}"
proof (induction a bs rule: live.induct)
  case (2 a sz fr bs)
  then show ?case
    using live_bounds [of p k "a + 16 + sz" bs] free_area_bounds [of "a + 16 + sz" bs]
    by (auto simp: disjoint_iff subset_iff split: if_splits)
qed simp

text \<open>First fit adds exactly one block in use, taken from free memory.\<close>

lemma first_fit_live:
  "first_fit n a bs = Some (p, bs') \<Longrightarrow>
   \<exists>k. n \<le> k \<and> k < n + 24 \<and> set (live a bs') = insert (p, k) (set (live a bs)) \<and> {p..<p + k} \<subseteq> free_area a bs \<and>
     (p, k) \<notin> set (live a bs)"
proof (induction n a bs arbitrary: p bs' rule: first_fit.induct)
  case (2 n a sz fr bs)
  show ?case
  proof (cases "\<not> fr \<or> sz < n")
    case True
    then obtain bs1 where bs1: "first_fit n (a + 16 + sz) bs = Some (p, bs1)" "bs' = (sz, fr) # bs1"
      using "2.prems" by auto
    with 2 True obtain k where k: "n \<le> k" "k < n + 24" "{p..<p + k} \<subseteq> free_area (a + 16 + sz) bs"
        "set (live (a + 16 + sz) bs1) = insert (p, k) (set (live (a + 16 + sz) bs))"
        "(p, k) \<notin> set (live (a + 16 + sz) bs)"
      by blast
    then have "a + 16 + sz + 16 \<le> p" using live_bounds [of p k "a + 16 + sz" bs1] by auto
    with k bs1 show ?thesis by (intro exI [of _ k]) auto
  next
    case False
    define k where "k = (if n + 24 \<le> sz then n else sz)"
    have "(a + 16, k) \<notin> set (live (a + 16 + sz) bs)"
      using live_bounds [of "a + 16" k "a + 16 + sz" bs] by auto
    then show ?thesis
      using False "2.prems" by (intro exI [of _ k]) (auto simp: k_def ac_simps split: if_splits)
  qed
qed simp

text \<open>Coalescing keeps the layout and joins every run of free blocks.\<close>

lemma coalesce_blocks:
  "extent (coalesce bs) = extent bs" "coalesce bs = [] \<longleftrightarrow> bs = []"
  "\<forall>b \<in> set bs. 8 dvd fst b \<Longrightarrow> \<forall>b \<in> set (coalesce bs). 8 dvd fst b"
  by (induction bs rule: coalesce.induct) auto

lemma live_Cons: "live a (b # bs) = (if snd b then [] else [(a + 16, fst b)]) @ live (a + 16 + fst b) bs"
  by (cases b) simp

lemma coalesce_live: "live a (coalesce bs) = live a bs"
proof (induction bs arbitrary: a rule: coalesce.induct)
  case (1 s1 s2 bs)
  have "a + 16 + (s1 + (16 + s2)) = a + 16 + s1 + 16 + s2" by simp
  then show ?case by (simp only: coalesce.simps 1 live.simps if_True append_Nil)
qed (simp_all only: coalesce.simps live_Cons fst_conv snd_conv)

lemma coalesce_tidy: "tidy (coalesce bs) \<and> (bs \<noteq> [] \<longrightarrow> snd (hd (coalesce bs)) = snd (hd bs))"
  by (induction bs rule: coalesce.induct) (auto simp: tidy_Cons coalesce_blocks)

lemma tidy_coalesce: "tidy bs \<Longrightarrow> coalesce bs = bs"
  by (induction bs rule: coalesce.induct) (auto simp: tidy_Cons)

lemma release_blocks:
  "extent (release p a bs) = extent bs" "release p a bs = [] \<longleftrightarrow> bs = []"
  "\<forall>b \<in> set bs. 8 dvd fst b \<Longrightarrow> \<forall>b \<in> set (release p a bs). 8 dvd fst b"
  by (induction p a bs rule: release.induct) auto

lemma release_live:
  "(p, k) \<in> set (live a bs) \<Longrightarrow> set (live a (release p a bs)) = set (live a bs) - {(p, k)}"
proof (induction p a bs rule: release.induct)
  case (2 p a sz fr bs)
  have "(p', k') \<in> set (live (a + 16 + sz) bs) \<Longrightarrow> a + 16 < p'" for p' k'
    using live_bounds [of p' k' "a + 16 + sz" bs] by simp
  with 2 show ?case by (auto split: if_splits)
qed simp

text \<open>Releasing what first fit returned and coalescing gives back the tidy heap it started from.\<close>

lemma first_fit_bounds: "first_fit n a bs = Some (p, bs') \<Longrightarrow> a + 16 \<le> p"
  using first_fit_live [of n a bs p bs'] live_bounds [of p _ a bs'] by blast

lemma first_fit_release:
  "first_fit n a bs = Some (p, bs') \<Longrightarrow> tidy bs \<Longrightarrow> coalesce (release p a bs') = bs"
proof (induction n a bs arbitrary: p bs' rule: first_fit.induct)
  case (2 n a sz fr bs)
  show ?case
  proof (cases "\<not> fr \<or> sz < n")
    case True
    then obtain bs1 where bs1: "first_fit n (a + 16 + sz) bs = Some (p, bs1)" "bs' = (sz, fr) # bs1"
      using "2.prems" by auto
    then have "coalesce (release p (a + 16 + sz) bs1) = bs"
      using 2 True by (simp add: tidy_Cons)
    moreover have "release p (a + 16 + sz) bs1 \<noteq> []" using first_fit_blocks(2) [OF bs1(1)] by (simp add: release_blocks)
    ultimately have "\<not> (fr \<and> snd (hd (release p (a + 16 + sz) bs1)))"
      using coalesce_tidy [of "release p (a + 16 + sz) bs1"] "2.prems"(2) by (auto simp: tidy_Cons coalesce_blocks(2))
    then have "coalesce ((sz, fr) # release p (a + 16 + sz) bs1) = (sz, fr) # coalesce (release p (a + 16 + sz) bs1)"
      by (intro coalesce_skip) blast
    with bs1 first_fit_bounds [OF bs1(1)] \<open>coalesce _ = bs\<close> show ?thesis by simp
  next
    case False
    have "coalesce ((sz, True) # bs) = (sz, True) # bs" using False "2.prems"(2) by (intro tidy_coalesce) simp
    with False "2.prems"(1) show ?thesis by (auto split: if_splits)
  qed
qed simp

lemma nothing_live: "tidy bs \<Longrightarrow> live a bs = [] \<Longrightarrow> bs \<noteq> [] \<Longrightarrow> bs = [(extent bs - 16, True)]"
proof (induction bs arbitrary: a)
  case (Cons b bs)
  obtain sz fr where b: "b = (sz, fr)" by (cases b)
  with Cons have fr: "fr" "live (a + 16 + sz) bs = []" by (auto split: if_splits)
  have "bs = []"
  proof (rule ccontr)
    assume "bs \<noteq> []"
    then obtain c cs where "bs = c # cs" by (cases bs) auto
    then show False using Cons.prems(1) fr b by (cases c) (auto split: if_splits)
  qed
  with b fr show ?case by simp
qed simp

section \<open>The three entry points refine the abstract heap\<close>

definition align8 :: "nat \<Rightarrow> nat" where
  "align8 n = (n + 7) div 8 * 8"

lemma align8: "n \<le> align8 n" "align8 n < n + 8" "8 dvd align8 n"
  unfolding align8_def by presburger+

lemma ALIGN8_eq: "unat sz + 7 < 2 ^ 32 \<Longrightarrow> ALIGN8 sz = of_nat (align8 (unat sz))"
proof -
  assume "unat sz + 7 < 2 ^ 32"
  then have "unat (sz + 7) = unat sz + 7" by (subst unat_plus_small) simp_all
  then have "unat (ALIGN8 sz) = align8 (unat sz)"
    using unat_and_not_mask [of "sz + 7" 3] by (simp add: ALIGN8_def align8_def mask_eq_exp_minus_1)
  then show ?thesis by (metis of_nat_unat ucast_id)
qed

lemma kmalloc_init_inv: "heap_inv [(0x100000 - 16, True)] (kmalloc_init s)"
  by (simp add: heap_inv_def kmalloc_init_def HEAP_BASE_def heap_start_def HEAP_SIZE_def)

lemma heap_chain:
  "heap_inv bs s \<Longrightarrow> chain (mem s) HEAP_BASE bs \<and> 0 < HEAP_BASE \<and> HEAP_BASE + extent bs \<le> 2 ^ 31 \<and>
    head s = (if bs = [] then 0 else of_nat HEAP_BASE)"
  by (simp add: heap_inv_def heap_start_base HEAP_BASE_def)

lemma kmalloc_first_fit:
  assumes inv: "heap_inv bs s" and sz: "sz \<noteq> 0" "unat sz + 7 < 2 ^ 32"
  shows "case first_fit (align8 (unat sz)) HEAP_BASE bs of
      None \<Rightarrow> kmalloc sz s = Some (0, s)
    | Some (p, bs') \<Rightarrow> \<exists>m'. kmalloc sz s = Some (of_nat p, s\<lparr>mem := m'\<rparr>) \<and> heap_inv bs' (s\<lparr>mem := m'\<rparr>) \<and>
        changes_only (free_area HEAP_BASE bs) (mem s) m'"
proof -
  let ?n = "align8 (unat sz)"
  have n: "?n < 2 ^ 32"
    using sz(2) by (simp add: align8_def)
  have k: "kmalloc sz s = map_option (\<lambda>(p, m). (p, s\<lparr>mem := m\<rparr>)) (kmalloc_loop (of_nat ?n) (head s) (mem s))"
    using sz by (simp add: kmalloc_def ALIGN8_eq)
  note loop = kmalloc_loop_first_fit [of "mem s" HEAP_BASE bs ?n]
  show ?thesis
  proof (cases "first_fit ?n HEAP_BASE bs")
    case None
    with loop heap_chain [OF inv] n k show ?thesis by simp
  next
    case (Some r)
    obtain p bs' where r: "r = (p, bs')" by (cases r)
    with loop heap_chain [OF inv] n Some obtain m' where m': "kmalloc_loop (of_nat ?n) (head s) (mem s) = Some (of_nat p, m')"
        "chain m' HEAP_BASE bs'" "changes_only (free_area HEAP_BASE bs) (mem s) m'"
      by auto
    have "heap_inv bs' (s\<lparr>mem := m'\<rparr>)"
      using inv m'(2) first_fit_blocks [OF Some [unfolded r]] align8(3) by (simp add: heap_inv_def)
    with m' k Some r show ?thesis by (auto intro!: exI [of _ m'])
  qed
qed

text \<open>Marking a block in use free.\<close>

lemma set_free_release:
  assumes "chain m a bs" "(p, k) \<in> set (live a bs)" "a + extent bs \<le> 2 ^ 31"
  shows "chain (set_free (of_nat p - HEADER_SIZE) True m) a (release p a bs) \<and>
    changes_only {p - 16..<p} m (set_free (of_nat p - HEADER_SIZE) True m)"
  using assms
proof (induction p a bs rule: release.induct)
  case (2 p a sz fr bs)
  have b: "a + 16 \<le> p" "p \<le> 2 ^ 31" using live_bounds [OF "2.prems"(2)] "2.prems"(3) by simp_all
  have addr: "of_nat p - HEADER_SIZE = (of_nat (p - 16) :: u32)" using b by (simp add: of_nat_diff)
  have ch: "changes_only {p - 16..<p} m (set_free (of_nat p - HEADER_SIZE) True m)"
    using header_changes(2) [of "p - 16" m True] b unfolding addr by simp
  show ?case
  proof (cases "p = a + 16")
    case True
    with ch chain_set_free [OF "2.prems"(1,3), of True] show ?thesis by (simp add: addr)
  next
    case False
    with "2.prems" have in_tl: "(p, k) \<in> set (live (a + 16 + sz) bs)" by (auto split: if_splits)
    then have "a + 16 + sz + 16 \<le> p" using live_bounds by blast
    then have "{a..<a + 16} \<inter> {p - 16..<p} = {}" by auto
    note header_cong [OF ch this]
    with 2 False in_tl ch show ?thesis by (simp add: release_blocks)
  qed
qed simp

lemma release_free_area:
  "(p, k) \<in> set (live a bs) \<Longrightarrow> free_area a (release p a bs) = free_area a bs \<union> {p..<p + k} \<and> {p - 16..<p} \<subseteq> free_area a bs"
proof (induction p a bs rule: release.induct)
  case (2 p a sz fr bs)
  have "(p, k) \<in> set (live (a + 16 + sz) bs) \<Longrightarrow> a + 16 < p"
    using live_bounds [of p k "a + 16 + sz" bs] by simp
  with 2 show ?case by (auto split: if_splits)
qed simp

lemma kfree_release:
  assumes inv: "heap_inv bs s" and p: "(p, k) \<in> set (live HEAP_BASE bs)"
  shows "\<exists>m'. kfree (of_nat p) s = Some (s\<lparr>mem := m'\<rparr>) \<and>
    heap_inv (coalesce (release p HEAP_BASE bs)) (s\<lparr>mem := m'\<rparr>) \<and>
    changes_only (free_area HEAP_BASE bs \<union> {p..<p + k}) (mem s) m'"
proof -
  let ?r = "release p HEAP_BASE bs" and ?m = "set_free (of_nat p - HEADER_SIZE) True (mem s)"
  have b: "0 < p" "p < 2 ^ 32" and ne: "bs \<noteq> []"
    using live_bounds [OF p] heap_chain [OF inv] inv by (auto simp: heap_inv_def)
  have m1: "chain ?m HEAP_BASE ?r" "changes_only {p - 16..<p} (mem s) ?m"
    using set_free_release [OF _ p] heap_chain [OF inv] by simp_all
  moreover have "head s = (if ?r = [] then 0 else of_nat HEAP_BASE)"
    using heap_chain [OF inv] by (simp add: release_blocks)
  ultimately obtain m' where m': "kfree_loop (head s) ?m = Some m'" "chain m' HEAP_BASE (coalesce ?r)"
      "changes_only (free_area HEAP_BASE ?r) ?m m'"
    using kfree_loop_coalesce [of ?m HEAP_BASE ?r] heap_chain [OF inv] by (auto simp: release_blocks)
  have "kfree (of_nat p) s = Some (s\<lparr>mem := m'\<rparr>)"
    using b m'(1) by (simp add: kfree_def of_nat_nonzero_u32 Let_def)
  moreover have "heap_inv (coalesce ?r) (s\<lparr>mem := m'\<rparr>)"
    using inv m'(2) coalesce_tidy [of ?r] coalesce_blocks(3) [of ?r] release_blocks(3) [of bs p HEAP_BASE]
    by (simp add: heap_inv_def coalesce_blocks(1,2) release_blocks(1,2))
  moreover have "changes_only (free_area HEAP_BASE bs \<union> {p..<p + k}) (mem s) m'"
    by (rule changes_only_trans [OF changes_only_mono [OF m1(2)]]) (use release_free_area [OF p] m'(3) in auto)
  ultimately show ?thesis by blast
qed

section \<open>The interface clients rely on\<close>

text \<open>A client of the heap allocates, frees and writes into its blocks. Beside the machine it keeps a
  ghost map from each pointer it owns to the bytes it expects to find there; an operation that the
  contract forbids (a pointer not owned, an index out of range, a request so large that rounding it
  up wraps around) is skipped.\<close>

datatype heap_op = Malloc u32 | Free u32 | Write u32 nat u8

type_synonym 's client = "(u32 \<Rightarrow> u8 list option) \<times> 's"

fun client_step :: "(u32 \<Rightarrow> 's \<Rightarrow> (u32 \<times> 's) option) \<Rightarrow> (u32 \<Rightarrow> 's \<Rightarrow> 's option) \<Rightarrow> ('s \<Rightarrow> memory) \<Rightarrow>
    (u32 \<Rightarrow> u8 \<Rightarrow> 's \<Rightarrow> 's) \<Rightarrow> heap_op \<Rightarrow> 's client \<Rightarrow> 's client option" where
  "client_step alloc dealloc peek poke (Malloc n) (own, s) =
     (if unat n + 7 < 2 ^ 32
      then do { (p, s) \<leftarrow> alloc n s;
                Some (if p = 0 then own else own(p \<mapsto> map (\<lambda>i. peek s (p + of_nat i)) [0..<unat n]), s) }
      else Some (own, s))"
| "client_step alloc dealloc peek poke (Free p) (own, s) =
     (if own p = None then Some (own, s) else do { s \<leftarrow> dealloc p s; Some (own(p := None), s) })"
| "client_step alloc dealloc peek poke (Write p i v) (own, s) =
     (case own p of
        Some xs \<Rightarrow> if i < length xs then Some (own(p \<mapsto> xs[i := v]), poke (p + of_nat i) v s) else Some (own, s)
      | None \<Rightarrow> Some (own, s))"

fun client_run :: "(u32 \<Rightarrow> 's \<Rightarrow> (u32 \<times> 's) option) \<Rightarrow> (u32 \<Rightarrow> 's \<Rightarrow> 's option) \<Rightarrow> ('s \<Rightarrow> memory) \<Rightarrow>
    (u32 \<Rightarrow> u8 \<Rightarrow> 's \<Rightarrow> 's) \<Rightarrow> heap_op list \<Rightarrow> 's client \<Rightarrow> 's client option" where
  "client_run alloc dealloc peek poke [] c = Some c"
| "client_run alloc dealloc peek poke (x # xs) c =
     do { c \<leftarrow> client_step alloc dealloc peek poke x c; client_run alloc dealloc peek poke xs c }"

text \<open>The bytes of the regions \<open>R\<close> are the same in two memories.\<close>

definition kept :: "(nat \<times> nat) set \<Rightarrow> memory \<Rightarrow> memory \<Rightarrow> bool" where
  "kept R m m' \<longleftrightarrow> (\<forall>(p, k) \<in> R. \<forall>x. p \<le> unat x \<and> unat x < p + k \<longrightarrow> m' x = m x)"

lemma keptD: "kept R m m' \<Longrightarrow> (p, k) \<in> R \<Longrightarrow> p \<le> unat x \<Longrightarrow> unat x < p + k \<Longrightarrow> m' x = m x"
  by (auto simp: kept_def)

locale block_allocator =
  fixes alloc :: "u32 \<Rightarrow> 's \<Rightarrow> (u32 \<times> 's) option"
    and dealloc :: "u32 \<Rightarrow> 's \<Rightarrow> 's option"
    and peek :: "'s \<Rightarrow> memory"
    and poke :: "u32 \<Rightarrow> u8 \<Rightarrow> 's \<Rightarrow> 's"
    and rep :: "'b \<Rightarrow> 's \<Rightarrow> bool"
    and regions :: "'b \<Rightarrow> (nat \<times> nat) set"
  assumes alloc_law: "rep b s \<Longrightarrow> unat n + 7 < 2 ^ 32 \<Longrightarrow>
      \<exists>p s' b'. alloc n s = Some (p, s') \<and> rep b' s' \<and> kept (regions b) (peek s) (peek s') \<and>
        (if p = 0 then regions b' = regions b
         else \<exists>k \<ge> unat n. regions b' = insert (unat p, k) (regions b) \<and> (unat p, k) \<notin> regions b)"
    and dealloc_law: "rep b s \<Longrightarrow> (unat p, k) \<in> regions b \<Longrightarrow>
      \<exists>s' b'. dealloc p s = Some s' \<and> rep b' s' \<and> regions b' = regions b - {(unat p, k)} \<and>
        kept (regions b') (peek s) (peek s')"
    and poke_law: "rep b s \<Longrightarrow> (q, k) \<in> regions b \<Longrightarrow> q \<le> unat x \<Longrightarrow> unat x < q + k \<Longrightarrow>
      rep b (poke x v s) \<and> peek (poke x v s) = (peek s)(x := v)"
    and apart: "rep b s \<Longrightarrow> (q, k) \<in> regions b \<Longrightarrow> (r, l) \<in> regions b \<Longrightarrow> (q, k) \<noteq> (r, l) \<Longrightarrow>
      q + k \<le> r \<and> q < r \<or> r + l \<le> q \<and> r < q"
    and bounded: "rep b s \<Longrightarrow> (q, k) \<in> regions b \<Longrightarrow> q + k \<le> 2 ^ 31"
begin

text \<open>The ghost map agrees with memory: each owned pointer is a region in use that is large enough
  and holds the expected bytes.\<close>

definition owns :: "'b \<Rightarrow> 's client \<Rightarrow> bool" where
  "owns b c \<longleftrightarrow> rep b (snd c) \<and> (\<forall>p xs. fst c p = Some xs \<longrightarrow>
     (\<exists>k \<ge> length xs. (unat p, k) \<in> regions b) \<and>
     (\<forall>i < length xs. peek (snd c) (p + of_nat i) = xs ! i))"

lemma index_unat:
  fixes p :: u32
  shows "rep b s \<Longrightarrow> (unat p, k) \<in> regions b \<Longrightarrow> i < k \<Longrightarrow> unat (p + of_nat i) = unat p + i"
  using bounded [of b s "unat p" k] by (subst unat_plus_small) (simp_all add: unat_of_nat_small)

lemma ownsD:
  assumes "owns b (own, s)" "own p = Some xs"
  obtains k where "length xs \<le> k" "(unat p, k) \<in> regions b" "rep b s"
    "\<And>i. i < length xs \<Longrightarrow> peek s (p + of_nat i) = xs ! i \<and> unat (p + of_nat i) = unat p + i"
proof -
  from assms obtain k where k: "length xs \<le> k" "(unat p, k) \<in> regions b" "rep b s"
      "\<forall>i < length xs. peek s (p + of_nat i) = xs ! i"
    unfolding owns_def fst_conv snd_conv by blast
  show thesis
    by (rule that [OF k(1,2,3)]) (use k index_unat [OF k(3,2)] in simp)
qed

text \<open>An operation that keeps the regions of the pointers still owned keeps what they hold.\<close>

lemma owns_kept:
  assumes "owns b (own, s)" "rep b' s'" "kept (regions b') (peek s) (peek s') \<or> kept (regions b) (peek s) (peek s')"
    and "\<And>p xs k. own' p = Some xs \<Longrightarrow> own p = Some xs \<and> ((unat p, k) \<in> regions b \<longrightarrow> (unat p, k) \<in> regions b')"
  shows "owns b' (own', s')"
  unfolding owns_def fst_conv snd_conv
proof (intro conjI allI impI)
  fix p xs assume p: "own' p = Some xs"
  then obtain k where k: "length xs \<le> k" "(unat p, k) \<in> regions b" "rep b s"
      "\<And>i. i < length xs \<Longrightarrow> peek s (p + of_nat i) = xs ! i \<and> unat (p + of_nat i) = unat p + i"
    using ownsD [OF assms(1)] assms(4) by metis
  then have in': "(unat p, k) \<in> regions b'" using assms(4) p by blast
  with k(1) show "\<exists>k \<ge> length xs. (unat p, k) \<in> regions b'" by blast
  fix i assume "i < length xs"
  with k assms(3) in' show "peek s' (p + of_nat i) = xs ! i"
    using keptD [of _ "peek s" "peek s'" "unat p" k "p + of_nat i"] by fastforce
qed (rule assms(2))

lemma malloc_owns:
  assumes "owns b (own, s)"
  shows "\<exists>c' b'. client_step alloc dealloc peek poke (Malloc n) (own, s) = Some c' \<and> owns b' c'"
proof (cases "unat n + 7 < 2 ^ 32")
  case True
  have "rep b s" using assms by (simp add: owns_def)
  from alloc_law [OF this True] obtain p s' b' where p: "alloc n s = Some (p, s')" "rep b' s'"
      "kept (regions b) (peek s) (peek s')"
      "if p = 0 then regions b' = regions b else \<exists>k \<ge> unat n. regions b' = insert (unat p, k) (regions b) \<and> (unat p, k) \<notin> regions b"
    by metis
  then have sub: "regions b \<subseteq> regions b'" by (auto split: if_splits)
  have old: "owns b' (own, s')" by (rule owns_kept [OF assms p(2)]) (use p(3) sub in auto)
  show ?thesis
  proof (cases "p = 0")
    case True
    with \<open>unat n + 7 < 2 ^ 32\<close> p(1) old show ?thesis by auto
  next
    case False
    with p(4) have "\<exists>k \<ge> unat n. (unat p, k) \<in> regions b'" by auto
    with old have "owns b' (own(p \<mapsto> map (\<lambda>i. peek s' (p + of_nat i)) [0..<unat n]), s')"
      by (auto simp: owns_def)
    with True False p(1) show ?thesis by auto
  qed
qed (use assms in auto)

lemma free_owns:
  assumes "owns b (own, s)"
  shows "\<exists>c' b'. client_step alloc dealloc peek poke (Free p) (own, s) = Some c' \<and> owns b' c'"
proof (cases "own p")
  case (Some xs)
  from ownsD [OF assms Some] obtain k where k: "(unat p, k) \<in> regions b" "rep b s" by metis
  from dealloc_law [OF k(2,1)] obtain s' b' where s': "dealloc p s = Some s'" "rep b' s'"
      "regions b' = regions b - {(unat p, k)}" "kept (regions b') (peek s) (peek s')"
    by metis
  have "owns b' (own(p := None), s')"
    by (rule owns_kept [OF assms s'(2)]) (use s' in \<open>auto split: if_splits simp: unat_inj\<close>)
  with Some s' show ?thesis by auto
qed (use assms in auto)

lemma write_owns:
  assumes "owns b (own, s)"
  shows "\<exists>c' b'. client_step alloc dealloc peek poke (Write p i v) (own, s) = Some c' \<and> owns b' c'"
proof (cases "\<exists>xs. own p = Some xs \<and> i < length xs")
  case True
  then obtain xs where xs: "own p = Some xs" "i < length xs" by blast
  let ?x = "p + of_nat i"
  from ownsD [OF assms xs(1)] obtain k where k: "length xs \<le> k" "(unat p, k) \<in> regions b" "rep b s"
      "\<And>j. j < length xs \<Longrightarrow> peek s (p + of_nat j) = xs ! j \<and> unat (p + of_nat j) = unat p + j"
    by metis
  have x: "unat ?x = unat p + i" using k xs by blast
  have poke: "rep b (poke ?x v s)" "peek (poke ?x v s) = (peek s)(?x := v)"
    using poke_law [OF k(3,2), of ?x v] x xs(2) k(1) by auto
  have "owns b (own(p \<mapsto> xs[i := v]), poke ?x v s)"
    unfolding owns_def fst_conv snd_conv poke(2)
  proof (intro conjI allI impI)
    fix q ys assume q: "(own(p \<mapsto> xs[i := v])) q = Some ys"
    show "\<exists>k \<ge> length ys. (unat q, k) \<in> regions b"
      using q k(1,2) ownsD [OF assms, of q ys] by (auto split: if_splits)
    fix j assume j: "j < length ys"
    show "((peek s)(?x := v)) (q + of_nat j) = ys ! j"
    proof (cases "q = p")
      case True
      with q j have "ys = xs[i := v]" "j < length xs" by auto
      moreover from this have "(p + of_nat j = ?x) = (j = i)" using k(4) x by (metis add_left_cancel)
      ultimately show ?thesis using True k(4) by simp
    next
      case False
      with q have "own q = Some ys" by simp
      from ownsD [OF assms this] obtain l where l: "length ys \<le> l" "(unat q, l) \<in> regions b"
          "peek s (q + of_nat j) = ys ! j" "unat (q + of_nat j) = unat q + j"
        using j by metis
      have "unat q \<noteq> unat p" using False by (simp add: unat_inj)
      with apart [OF k(3) k(2) l(2)] have "unat (q + of_nat j) \<noteq> unat ?x"
        using x l(1,4) j xs(2) k(1) by auto
      then have "q + of_nat j \<noteq> ?x" by metis
      with l(3) show ?thesis by simp
    qed
  qed (rule poke(1))
  with xs show ?thesis by auto
qed (use assms in \<open>auto split: option.splits\<close>)

lemma client_run_owns: "owns b c \<Longrightarrow> \<exists>c' b'. client_run alloc dealloc peek poke ops c = Some c' \<and> owns b' c'"
proof (induction ops arbitrary: b c)
  case (Cons x ops)
  have "\<exists>c' b'. client_step alloc dealloc peek poke x c = Some c' \<and> owns b' c'"
    using Cons.prems malloc_owns free_owns write_owns by (cases x; cases c) auto
  with Cons.IH show ?case by fastforce
qed auto

lemma owns_apart:
  assumes "owns b (own, s)" "own p = Some xs" "own q = Some ys" "p \<noteq> q" "xs \<noteq> []" "ys \<noteq> []"
  shows "unat p + length xs \<le> unat q \<or> unat q + length ys \<le> unat p"
proof -
  obtain k l where "length xs \<le> k" "(unat p, k) \<in> regions b" "rep b s" "length ys \<le> l" "(unat q, l) \<in> regions b"
    using ownsD [OF assms(1,2)] ownsD [OF assms(1,3)] by metis
  then show ?thesis using apart [of b s "unat p" k "unat q" l] assms(4) by (auto simp: unat_inj)
qed

end

text \<open>The kernel heap provides the interface.\<close>

definition heap_regions :: "blocks \<Rightarrow> (nat \<times> nat) set" where
  "heap_regions bs = set (live HEAP_BASE bs)"

definition store_byte :: "u32 \<Rightarrow> u8 \<Rightarrow> 'a kheap_scheme \<Rightarrow> 'a kheap_scheme" where
  "store_byte x v s = s\<lparr>mem := (mem s)(x := v)\<rparr>"

lemma heap_region_bounds:
  assumes "heap_inv bs s" "(p, k) \<in> heap_regions bs"
  shows "0x100010 \<le> p \<and> p + k \<le> 0x200000 \<and> 8 dvd p"
  using assms live_bounds [of p k HEAP_BASE bs] live_aligned [of p k HEAP_BASE bs]
  by (auto simp: heap_regions_def heap_inv_def HEAP_BASE_def)

lemma heap_kept: "changes_only (free_area HEAP_BASE bs) m m' \<Longrightarrow> kept (heap_regions bs) m m'"
  using live_free_area [of _ _ HEAP_BASE bs] by (fastforce simp: kept_def changes_only_def heap_regions_def disjoint_iff)

lemma kmalloc_law:
  assumes inv: "heap_inv bs s" and n: "unat n + 7 < 2 ^ 32"
  shows "\<exists>p s' bs'. kmalloc n s = Some (p, s') \<and> heap_inv bs' s' \<and> kept (heap_regions bs) (mem s) (mem s') \<and>
    (if p = 0 then heap_regions bs' = heap_regions bs
     else \<exists>k \<ge> unat n. heap_regions bs' = insert (unat p, k) (heap_regions bs) \<and> (unat p, k) \<notin> heap_regions bs)"
proof (cases "n = 0 \<or> first_fit (align8 (unat n)) HEAP_BASE bs = None")
  case True
  then have "kmalloc n s = Some (0, s)"
    using kmalloc_first_fit [OF inv _ n] by (cases "n = 0") (auto simp: kmalloc_def)
  with inv show ?thesis by (auto simp: kept_def)
next
  case False
  then obtain p bs' where ff: "first_fit (align8 (unat n)) HEAP_BASE bs = Some (p, bs')" by auto
  with kmalloc_first_fit [OF inv _ n] False obtain m' where m': "kmalloc n s = Some (of_nat p, s\<lparr>mem := m'\<rparr>)"
      "heap_inv bs' (s\<lparr>mem := m'\<rparr>)" "changes_only (free_area HEAP_BASE bs) (mem s) m'"
    by auto
  obtain k where k: "align8 (unat n) \<le> k" "heap_regions bs' = insert (p, k) (heap_regions bs)" "(p, k) \<notin> heap_regions bs"
    using first_fit_live [OF ff] by (auto simp: heap_regions_def)
  have "0 < p" "p < 2 ^ 32" using heap_region_bounds [OF m'(2), of p k] k(2) by auto
  then have p: "unat (of_nat p :: u32) = p" "of_nat p \<noteq> (0 :: u32)"
    by (simp_all add: unat_of_nat_small of_nat_nonzero_u32)
  have "unat n \<le> k" using k(1) align8(1) [of "unat n"] by simp
  with p k m' heap_kept [OF m'(3)] show ?thesis
    by (intro exI [of _ "of_nat p"] exI [of _ "s\<lparr>mem := m'\<rparr>"] exI [of _ bs']) auto
qed

lemma kfree_law:
  assumes inv: "heap_inv bs s" and p: "(unat p, k) \<in> heap_regions bs"
  shows "\<exists>s' bs'. kfree p s = Some s' \<and> heap_inv bs' s' \<and> heap_regions bs' = heap_regions bs - {(unat p, k)} \<and>
    kept (heap_regions bs') (mem s) (mem s')"
proof -
  from p have live: "(unat p, k) \<in> set (live HEAP_BASE bs)" by (simp add: heap_regions_def)
  from kfree_release [OF inv this] obtain m' where m': "kfree p s = Some (s\<lparr>mem := m'\<rparr>)"
      "heap_inv (coalesce (release (unat p) HEAP_BASE bs)) (s\<lparr>mem := m'\<rparr>)"
      "changes_only (free_area HEAP_BASE bs \<union> {unat p..<unat p + k}) (mem s) m'"
    by auto
  have regions: "heap_regions (coalesce (release (unat p) HEAP_BASE bs)) = heap_regions bs - {(unat p, k)}"
    using release_live [OF live] by (simp add: heap_regions_def coalesce_live)
  have "changes_only (free_area HEAP_BASE (release (unat p) HEAP_BASE bs)) (mem s) m'"
    using m'(3) release_free_area [OF live] by simp
  then have "kept (heap_regions (coalesce (release (unat p) HEAP_BASE bs))) (mem s) m'"
    using heap_kept by (simp add: heap_regions_def coalesce_live)
  with m'(1,2) regions show ?thesis
    by (intro exI [of _ "s\<lparr>mem := m'\<rparr>"] exI [of _ "coalesce (release (unat p) HEAP_BASE bs)"]) simp
qed

lemma store_byte_law:
  assumes inv: "heap_inv bs s" and p: "(p, k) \<in> heap_regions bs" "p \<le> unat x" "unat x < p + k"
  shows "heap_inv bs (store_byte x v s)"
proof -
  have "unat x \<notin> free_area HEAP_BASE bs" using live_free_area [of p k HEAP_BASE bs] p by (auto simp: heap_regions_def)
  have "chain m' a cs" if "chain m a cs" "unat x \<notin> free_area a cs" "changes_only {unat x} m m'" "a + extent cs \<le> 2 ^ 31"
    for m m' a cs
    using that
  proof (induction m a cs rule: chain.induct)
    case (2 m a sz fr bs)
    then have "{a..<a + 16} \<inter> {unat x} = {}" by auto
    from header_cong [OF "2.prems"(3) this] 2 show ?case by simp
  qed simp
  moreover have "changes_only {unat x} (mem s) ((mem s)(x := v))" by (auto simp: changes_only_def)
  ultimately have "chain ((mem s)(x := v)) HEAP_BASE bs"
    using heap_chain [OF inv] \<open>unat x \<notin> _\<close> by blast
  then show ?thesis using inv by (simp add: heap_inv_def store_byte_def)
qed

interpretation kernel_heap: block_allocator kmalloc kfree mem store_byte heap_inv heap_regions
proof
  fix bs :: blocks and s :: "'a kheap_scheme" and q k r l x v
  assume inv: "heap_inv bs s" and q: "(q, k) \<in> heap_regions bs"
  show "q + k \<le> 2 ^ 31" using heap_region_bounds [OF inv q] by simp
  show "heap_inv bs (store_byte x v s) \<and> mem (store_byte x v s) = (mem s)(x := v)" if "q \<le> unat x" "unat x < q + k"
    using store_byte_law [OF inv q that] by (simp add: store_byte_def)
  show "q + k \<le> r \<and> q < r \<or> r + l \<le> q \<and> r < q" if "(r, l) \<in> heap_regions bs" "(q, k) \<noteq> (r, l)"
    using live_apart q that unfolding heap_regions_def by blast
qed (fact kmalloc_law kfree_law)+


section \<open>Properties\<close>

text \<open>A machine with zeroed memory whose heap has just been initialised.\<close>

definition kheap_loaded :: kheap where
  "kheap_loaded = \<lparr>eflags = 0, mem = (\<lambda>_. 0), cr0 = 0, cr3 = 0, tlb = (\<lambda>_. None), port_in = (\<lambda>_ _. 0),
     in_count = 0, out_trace = [], terminalBuffer = (\<lambda>_ _. 0), cursorX = 0, cursorY = 0, viewportY = 0,
     renderPending = False, vgaColor = 0, vgaMem = (\<lambda>_. 0), pageBitMap = [], freePages = 0, head = 0\<rparr>"



text \<open>C10. \<^verbatim>\<open>kfree\<close> of a block in use ends, marks it free and joins every run of neighbouring free blocks, so that
  the heap again has no two adjacent free blocks; it writes only headers, free memory and the freed
  block, and exactly that block stops being in use.\<close>

theorem kfree_refines_coalesce:
  assumes "heap_inv bs s" "(p, k) \<in> set (live HEAP_BASE bs)"
  shows "\<exists>m'. kfree (of_nat p) s = Some (s\<lparr>mem := m'\<rparr>) \<and>
    heap_inv (coalesce (release p HEAP_BASE bs)) (s\<lparr>mem := m'\<rparr>) \<and>
    set (live HEAP_BASE (coalesce (release p HEAP_BASE bs))) = set (live HEAP_BASE bs) - {(p, k)} \<and>
    changes_only (free_area HEAP_BASE bs \<union> {p..<p + k}) (mem s) m'"
  using kfree_release [OF assms] release_live [OF assms(2)] by (simp add: coalesce_live)

theorem kfree_refines_coalesce_witness:
  "\<exists>s m'. kmalloc 100 (kmalloc_init kheap_loaded) = Some (0x100010, s) \<and>
    kfree (of_nat 0x100010) s = Some (s\<lparr>mem := m'\<rparr>) \<and> heap_inv [(0x100000 - 16, True)] (s\<lparr>mem := m'\<rparr>)"
proof -
  obtain s where s: "kmalloc 100 (kmalloc_init kheap_loaded) = Some (0x100010, s)"
      "heap_inv [(104, False), (0x100000 - 136, True)] s"
    using kmalloc_first_fit [OF kmalloc_init_inv [of kheap_loaded], of 100]
    by (auto simp: align8_def HEAP_BASE_def)
  have "(0x100010, 104) \<in> set (live HEAP_BASE [(104, False), (0x100000 - 136, True)])"
    by (simp add: HEAP_BASE_def)
  from kfree_refines_coalesce [OF s(2) this] s(1) show ?thesis by (auto simp: HEAP_BASE_def)
qed



text \<open>\<^verbatim>\<open>kmalloc\<close> returns NULL exactly when every free block is smaller than the request rounded up to 8 bytes,
  and then the machine is unchanged.\<close>

lemma kmalloc_null_iff:
  assumes "heap_inv bs s" "sz \<noteq> 0" "unat sz + 7 < 2 ^ 32"
  shows "(\<exists>s'. kmalloc sz s = Some (0, s')) \<longleftrightarrow> (\<forall>(n, fr) \<in> set bs. fr \<longrightarrow> n < align8 (unat sz))"
    (is "?null \<longleftrightarrow> ?full")
proof (cases "first_fit (align8 (unat sz)) HEAP_BASE bs")
  case None
  with kmalloc_first_fit [OF assms] first_fit_none [of "align8 (unat sz)" HEAP_BASE bs] show ?thesis by simp
next
  case (Some r)
  obtain p bs' where r: "r = (p, bs')" by (cases r)
  with kmalloc_first_fit [OF assms] Some obtain m' where m': "kmalloc sz s = Some (of_nat p, s\<lparr>mem := m'\<rparr>)"
      "heap_inv bs' (s\<lparr>mem := m'\<rparr>)"
    by auto
  obtain k where "(p, k) \<in> heap_regions bs'" using first_fit_live [OF Some [unfolded r]] by (auto simp: heap_regions_def)
  then have "of_nat p \<noteq> (0 :: u32)" using heap_region_bounds [OF m'(2)] by (intro of_nat_nonzero_u32) fastforce+
  then have "\<not> ?null" using m'(1) by simp
  with Some first_fit_none [of "align8 (unat sz)" HEAP_BASE bs] show ?thesis by simp
qed

text \<open>C29. Freeing the block just allocated gives back the block list as it was before the allocation.\<close>

theorem kmalloc_kfree_inverse:
  assumes "heap_inv bs s" "sz \<noteq> 0" "unat sz + 7 < 2 ^ 32" "kmalloc sz s = Some (p, s1)" "p \<noteq> 0"
  shows "\<exists>s2. kfree p s1 = Some s2 \<and> heap_inv bs s2"
proof -
  from kmalloc_first_fit [OF assms(1-3)] assms(4,5) obtain q bs' where
      ff: "first_fit (align8 (unat sz)) HEAP_BASE bs = Some (q, bs')" and q: "p = of_nat q" "heap_inv bs' s1"
    by (auto split: option.splits)
  obtain k where "(q, k) \<in> set (live HEAP_BASE bs')" using first_fit_live [OF ff] by auto
  from kfree_release [OF q(2) this] first_fit_release [OF ff] assms(1) q(1) show ?thesis
    by (auto simp: heap_inv_def)
qed

theorem kmalloc_kfree_inverse_witness:
  "\<exists>s1 s2. kmalloc 100 (kmalloc_init kheap_loaded) = Some (0x100010, s1) \<and> kfree 0x100010 s1 = Some s2 \<and>
    heap_inv [(0x100000 - 16, True)] s2"
proof -
  obtain s1 where s1: "kmalloc 100 (kmalloc_init kheap_loaded) = Some (0x100010, s1)"
    using kmalloc_first_fit [OF kmalloc_init_inv [of kheap_loaded], of 100]
    by (auto simp: align8_def HEAP_BASE_def)
  from kmalloc_kfree_inverse [OF kmalloc_init_inv [of kheap_loaded] _ _ this] s1 show ?thesis by simp
qed

text \<open>Fragmentation does not outlive the allocations: a well-formed heap in which no block is in use is the
  single free block of \<^verbatim>\<open>kmalloc_init\<close>, so the largest request of 1 MiB less one header succeeds again.\<close>

lemma empty_heap_is_whole:
  assumes "heap_inv bs s" "live HEAP_BASE bs = []"
  shows "bs = [(0x100000 - 16, True)] \<and> (\<exists>s'. kmalloc 0xFFFF0 s = Some (0x100010, s'))"
proof -
  have bs: "bs = [(0x100000 - 16, True)]"
    using assms nothing_live [of bs HEAP_BASE] by (simp add: heap_inv_def)
  with kmalloc_first_fit [OF assms(1), of "0xFFFF0"] show ?thesis
    by (auto simp: align8_def HEAP_BASE_def)
qed

text \<open>C30. A request of more than 4294967288 bytes does not fail: rounding it up wraps around to 0, and on the fresh
  heap \<^verbatim>\<open>kmalloc\<close> returns a pointer to a block with no payload at all, directly followed by the next header.\<close>

theorem kmalloc_huge_request_wraps:
  assumes "2 ^ 32 \<le> unat sz + 7"
  shows "\<exists>s'. kmalloc sz (kmalloc_init s) = Some (0x100010, s') \<and> heap_inv [(0, False), (0x100000 - 32, True)] s'"
proof -
  have "unat (sz + 7) < 7"
    using assms unat_lt [of sz] by (simp add: unat_word_ariths) (auto simp: mod_if)
  then have "unat (ALIGN8 sz) = 0"
    using unat_and_not_mask [of "sz + 7" 3] by (simp add: ALIGN8_def mask_eq_exp_minus_1)
  then have a: "ALIGN8 sz = of_nat 0" by (simp add: unat_eq_0)
  have sz: "sz \<noteq> 0" using assms by auto
  let ?s = "kmalloc_init s" and ?bs = "[(0x100000 - 16, True)] :: blocks"
  obtain m' where m': "kmalloc_loop (of_nat 0) (head ?s) (mem ?s) = Some (0x100010, m')"
      "chain m' HEAP_BASE [(0, False), (0x100000 - 32, True)]"
    using kmalloc_loop_first_fit [of "mem ?s" HEAP_BASE ?bs 0] heap_chain [OF kmalloc_init_inv [of s]]
    by (auto simp: HEAP_BASE_def)
  then have "kmalloc sz ?s = Some (0x100010, ?s\<lparr>mem := m'\<rparr>)"
    using sz a by (simp add: kmalloc_def)
  moreover have "heap_inv [(0, False), (0x100000 - 32, True)] (?s\<lparr>mem := m'\<rparr>)"
    using kmalloc_init_inv [of s] m'(2) by (simp add: heap_inv_def)
  ultimately show ?thesis by blast
qed

theorem kmalloc_huge_request_wraps_witness:
  "\<exists>s'. kmalloc 0xFFFFFFFF (kmalloc_init kheap_loaded) = Some (0x100010, s') \<and>
     heap_inv [(0, False), (0x100000 - 32, True)] s'"
  using kmalloc_huge_request_wraps [of "0xFFFFFFFF" kheap_loaded] by simp

end
