(* ===== verification/Mmu.thy ===== *)
theory Mmu
  imports Machine "HOL-Library.Monad_Syntax"
begin

text \<open>
  Address translation of the processor, as the kernel of neilOS uses it: 32-bit two-level paging with
  4 KiB pages, no physical address extension and no large pages, accesses in supervisor mode with
  CR0.WP clear (so that only the present bits matter). The translation lookaside buffer is a partial
  map from page numbers to page table entries: an access uses its entry when there is one and walks
  the tables otherwise. An access does not fill it; instead the theorems hold for every content that
  agrees with the tables. The macros that take an address apart are those of \<^verbatim>\<open>mm/paging.c\<close>.
\<close>

section \<open>The processor\<close>

definition PAGE_PRESENT :: u32 where "PAGE_PRESENT = 0x1"
definition PAGE_WRITABLE :: u32 where "PAGE_WRITABLE = 0x2"
definition PAGE_USER :: u32 where "PAGE_USER = 0x4"
definition PAGE_ADDRESS_MASK :: u32 where "PAGE_ADDRESS_MASK = 0xFFFFF000"

definition PAGE_DIRECTORY_INDEX :: "u32 \<Rightarrow> u32" where
  "PAGE_DIRECTORY_INDEX address = drop_bit 22 address AND 0x3FF"

definition PAGE_TABLE_INDEX :: "u32 \<Rightarrow> u32" where
  "PAGE_TABLE_INDEX address = drop_bit 12 address AND 0x3FF"

definition PAGE_OFFSET :: "u32 \<Rightarrow> u32" where
  "PAGE_OFFSET address = address AND 0xFFF"

definition PG_BIT :: u32 where "PG_BIT = 0x80000000"

definition page_walk :: "u32 \<Rightarrow> 'a machine_scheme \<Rightarrow> u32 option" where
  "page_walk va s =
     (let pde = load32 (mem s) ((cr3 s AND PAGE_ADDRESS_MASK) + 4 * PAGE_DIRECTORY_INDEX va) in
      if pde AND PAGE_PRESENT = 0 then None
      else let pte = load32 (mem s) ((pde AND PAGE_ADDRESS_MASK) + 4 * PAGE_TABLE_INDEX va) in
           if pte AND PAGE_PRESENT = 0 then None else Some pte)"

definition translate :: "u32 \<Rightarrow> 'a machine_scheme \<Rightarrow> u32 option" where
  "translate va s =
     (if cr0 s AND PG_BIT = 0 then Some va
      else map_option (\<lambda>pte. (pte AND PAGE_ADDRESS_MASK) + PAGE_OFFSET va)
        (case tlb s (drop_bit 12 va) of Some pte \<Rightarrow> Some pte | None \<Rightarrow> page_walk va s))"

text \<open>An access in user mode needs the user bit at both levels.\<close>

definition user_accessible :: "u32 \<Rightarrow> 'a machine_scheme \<Rightarrow> bool" where
  "user_accessible va s =
     (let pde = load32 (mem s) ((cr3 s AND PAGE_ADDRESS_MASK) + 4 * PAGE_DIRECTORY_INDEX va);
          pte = load32 (mem s) ((pde AND PAGE_ADDRESS_MASK) + 4 * PAGE_TABLE_INDEX va)
      in pde AND PAGE_PRESENT \<noteq> 0 \<and> pde AND PAGE_USER \<noteq> 0 \<and> pte AND PAGE_PRESENT \<noteq> 0 \<and> pte AND PAGE_USER \<noteq> 0)"

definition read32 :: "u32 \<Rightarrow> 'a machine_scheme \<Rightarrow> u32 option" where
  "read32 va s = map_option (load32 (mem s)) (translate va s)"

definition write32 :: "u32 \<Rightarrow> u32 \<Rightarrow> 'a machine_scheme \<Rightarrow> 'a machine_scheme option" where
  "write32 va v s = map_option (\<lambda>pa. s\<lparr>mem := store32 (mem s) pa v\<rparr>) (translate va s)"


section \<open>Tables by frame number\<close>

definition frame :: "u32 \<Rightarrow> nat" where
  "frame x = unat x div 4096"

definition tbl_addr :: "nat \<Rightarrow> nat \<Rightarrow> u32" where
  "tbl_addr f i = of_nat (4096 * f + 4 * i)"

definition tbl :: "memory \<Rightarrow> nat \<Rightarrow> nat \<Rightarrow> u32" where
  "tbl m f i = load32 m (tbl_addr f i)"

definition leaf :: "memory \<Rightarrow> nat \<Rightarrow> nat \<Rightarrow> u32 option" where
  "leaf m D p =
     (if p < 2 ^ 20 \<and> tbl m D (p div 1024) AND 1 \<noteq> 0 \<and> tbl m (frame (tbl m D (p div 1024))) (p mod 1024) AND 1 \<noteq> 0
      then Some (tbl m (frame (tbl m D (p div 1024))) (p mod 1024)) else None)"

lemma frame_bound: "frame x < 2 ^ 20"
  using unat_lt [of x] by (simp add: frame_def div_less_iff_less_mult)

lemma mask_frame: "x AND PAGE_ADDRESS_MASK = of_nat (4096 * frame x)"
proof -
  have mask: "PAGE_ADDRESS_MASK = - 4096" by (simp add: PAGE_ADDRESS_MASK_def)
  have "unat (x AND PAGE_ADDRESS_MASK) = 4096 * frame x"
    unfolding mask by (simp add: unat_and_page_frame frame_def)
  then show ?thesis by (metis of_nat_unat ucast_id)
qed

lemma directory_index: "unat (PAGE_DIRECTORY_INDEX va) = frame va div 1024"
proof -
  have "unat (PAGE_DIRECTORY_INDEX va) = unat va div 2 ^ 22 mod 1024"
    using unat_and_mask [of "drop_bit 22 va" 10]
    by (simp add: PAGE_DIRECTORY_INDEX_def mask_eq_exp_minus_1 drop_bit_eq_div unat_div)
  also have "\<dots> = unat va div 2 ^ 22"
    using unat_lt [of va] by (intro mod_less) (simp add: div_less_iff_less_mult)
  finally show ?thesis by (simp add: frame_def div_mult2_eq [symmetric])
qed

lemma table_index: "unat (PAGE_TABLE_INDEX va) = frame va mod 1024"
  using unat_and_mask [of "drop_bit 12 va" 10]
  by (simp add: PAGE_TABLE_INDEX_def mask_eq_exp_minus_1 drop_bit_eq_div unat_div frame_def)

lemma entry_addr: "(x AND PAGE_ADDRESS_MASK) + 4 * i = tbl_addr (frame x) (unat i)"
  by (simp add: mask_frame tbl_addr_def)

lemma page_walk_leaf: "page_walk va s = leaf (mem s) (frame (cr3 s)) (frame va)"
  using frame_bound [of va]
  by (simp add: page_walk_def entry_addr directory_index table_index leaf_def tbl_def Let_def PAGE_PRESENT_def)

lemma tbl_addr_unat: "f < 2 ^ 20 \<Longrightarrow> i < 1024 \<Longrightarrow> unat (tbl_addr f i) = 4096 * f + 4 * i"
  unfolding tbl_addr_def by (rule unat_of_nat_small) simp

lemma frame_tbl_addr: "f < 2 ^ 20 \<Longrightarrow> i < 1024 \<Longrightarrow> frame (tbl_addr f i) = f"
  by (simp add: frame_def tbl_addr_unat)

lemma tbl_changes_only:
  assumes "changes_only S m m'" "f < 2 ^ 20" "i < 1024" "{4096 * f + 4 * i..<4096 * f + 4 * i + 4} \<inter> S = {}"
  shows "tbl m' f i = tbl m f i"
  unfolding tbl_def tbl_addr_def using assms by (intro changes_only_load32) auto

lemma tbl_store:
  assumes "f < 2 ^ 20" "i < 1024" "g < 2 ^ 20" "j < 1024"
  shows "tbl (store32 m (tbl_addr f i) v) g j = (if f = g \<and> i = j then v else tbl m g j)"
proof (cases "f = g \<and> i = j")
  case False
  have ch: "changes_only {4096 * f + 4 * i..<4096 * f + 4 * i + 4} m (store32 m (tbl_addr f i) v)"
    unfolding tbl_addr_def using assms by (intro changes_only_store32) simp
  have "4096 * f + 4 * i + 4 \<le> 4096 * g + 4 * j \<or> 4096 * g + 4 * j + 4 \<le> 4096 * f + 4 * i"
  proof (cases f g rule: linorder_cases)
    case equal
    with False have "i < j \<or> j < i" by auto
    with equal show ?thesis by auto
  qed (use assms in linarith)+
  with False tbl_changes_only [OF ch assms(3,4)] show ?thesis by auto
qed (simp add: tbl_def)

text \<open>Translation of a page held by the tables, when the lookaside buffer agrees with them.\<close>

definition tlb_coherent :: "'a machine_scheme \<Rightarrow> bool" where
  "tlb_coherent s \<longleftrightarrow> (\<forall>p e. tlb s p = Some e \<longrightarrow> leaf (mem s) (frame (cr3 s)) (unat p) = Some e)"

lemma unat_page_number: "unat (drop_bit 12 va) = frame va" for va :: u32
  by (simp add: drop_bit_eq_div unat_div frame_def)

lemma translate_coherent:
  assumes "cr0 s AND PG_BIT \<noteq> 0" "tlb_coherent s"
  shows "translate va s = map_option (\<lambda>pte. (pte AND PAGE_ADDRESS_MASK) + PAGE_OFFSET va)
    (leaf (mem s) (frame (cr3 s)) (frame va))"
proof (cases "tlb s (drop_bit 12 va)")
  case (Some e)
  with assms(2) have "leaf (mem s) (frame (cr3 s)) (frame va) = Some e"
    unfolding tlb_coherent_def using unat_page_number by metis
  with assms(1) Some show ?thesis by (simp add: translate_def)
qed (use assms(1) in \<open>simp add: translate_def page_walk_leaf\<close>)

lemma address_split: "of_nat (4096 * frame va) + PAGE_OFFSET va = va"
proof -
  have "unat (PAGE_OFFSET va) = unat va mod 4096"
    by (simp add: PAGE_OFFSET_def unat_and_page_offset)
  then have "PAGE_OFFSET va = of_nat (unat va mod 4096)" by (metis of_nat_unat ucast_id)
  then have "of_nat (4096 * frame va) + PAGE_OFFSET va = of_nat (4096 * frame va + unat va mod 4096)" by simp
  also have "4096 * frame va + unat va mod 4096 = unat va" by (simp add: frame_def)
  finally show ?thesis by simp
qed

end
