(* ===== verification/Paging.thy ===== *)
theory Paging
  imports Mmu Kmalloc
begin

text \<open>
  \<^verbatim>\<open>kernel/mm/paging.c\<close>: building the page directory, mapping and unmapping pages. The two static
  arrays \<^verbatim>\<open>pageDirectory\<close> and \<^verbatim>\<open>firstPageTable\<close> live in memory at addresses the linker chooses; the
  record keeps these addresses. Every access of the C code to a table goes through the translation of
  \<^verbatim>\<open>Mmu\<close>, so that touching a table that is not mapped is a fault (None).

  The invariant \<open>pg_inv\<close> says that paging is on, the first 4 MiB are mapped to themselves, the tables
  of the other regions are distinct allocated frames below 4 MiB, and the lookaside buffer agrees with
  the tables. The contents of the address space are the partial map \<open>leaf\<close> from pages to entries.
\<close>

section \<open>The code\<close>

definition PAGE_TABLE_ENTRIES :: nat where "PAGE_TABLE_ENTRIES = 1024"
definition PAGE_DIRECTORY_ENTRIES :: nat where "PAGE_DIRECTORY_ENTRIES = 1024"

record pg = kheap +
  pageDirectory :: u32
  firstPageTable :: u32

definition physical_to_virtual :: "u32 \<Rightarrow> u32" where
  "physical_to_virtual physicalAddress = physicalAddress"

definition page_address_valid :: "u32 \<Rightarrow> bool" where
  "page_address_valid address \<longleftrightarrow> address AND (PAGE_SIZE - 1) = 0"

definition paging_invalidate_page :: "u32 \<Rightarrow> 'a machine_scheme \<Rightarrow> 'a machine_scheme" where
  "paging_invalidate_page virtualAddress s = s\<lparr>tlb := (tlb s)(drop_bit 12 virtualAddress := None)\<rparr>"

definition paging_get_cr3 :: "'a machine_scheme \<Rightarrow> u32" where
  "paging_get_cr3 s = cr3 s"

definition paging_load_cr3 :: "u32 \<Rightarrow> 'a machine_scheme \<Rightarrow> 'a machine_scheme" where
  "paging_load_cr3 address s = s\<lparr>cr3 := address, tlb := Map.empty\<rparr>"

text \<open>Changing the paging bit of CR0 empties the lookaside buffer.\<close>

definition paging_enable :: "'a machine_scheme \<Rightarrow> 'a machine_scheme" where
  "paging_enable s = s\<lparr>cr0 := cr0 s OR 0x80000000, tlb := Map.empty\<rparr>"

definition paging_disable :: "'a machine_scheme \<Rightarrow> 'a machine_scheme" where
  "paging_disable s = s\<lparr>cr0 := cr0 s AND NOT 0x80000000, tlb := Map.empty\<rparr>"

text \<open>\<^verbatim>\<open>array[i]\<close> for a \<^verbatim>\<open>uint32_t\<close> array at address \<open>a\<close>.\<close>

definition elem :: "u32 \<Rightarrow> u32 \<Rightarrow> u32" where
  "elem a i = a + 4 * i"

definition clear_table :: "u32 \<Rightarrow> 'a machine_scheme \<Rightarrow> 'a machine_scheme option" where
  "clear_table pageTable = for_each (\<lambda>i. write32 (elem pageTable (of_nat i)) 0) [0..<PAGE_TABLE_ENTRIES]"

definition allocate_page_table :: "'a phys_scheme \<Rightarrow> (u32 \<times> 'a phys_scheme) option" where
  "allocate_page_table s =
     do { (physicalAddress, s) \<leftarrow> physical_alloc_page s;
          if physicalAddress = 0 then Some (0, s)
          else do { s \<leftarrow> clear_table (physical_to_virtual physicalAddress) s;
                    Some (physicalAddress, s) } }"

definition fill_first_table :: "'a pg_scheme \<Rightarrow> 'a pg_scheme option" where
  "fill_first_table s =
     for_each (\<lambda>i s. write32 (elem (firstPageTable s) (of_nat i))
         ((of_nat i * PAGE_SIZE) OR PAGE_PRESENT OR PAGE_WRITABLE) s) [0..<PAGE_TABLE_ENTRIES] s"

definition paging_init :: "'a pg_scheme \<Rightarrow> 'a pg_scheme option" where
  "paging_init s =
     do { s \<leftarrow> for_each (\<lambda>i s. write32 (elem (pageDirectory s) (of_nat i)) 0 s) [0..<PAGE_DIRECTORY_ENTRIES] s;
          s \<leftarrow> fill_first_table s;
          s \<leftarrow> write32 (elem (pageDirectory s) 0) (firstPageTable s OR PAGE_PRESENT OR PAGE_WRITABLE) s;
          let directory = pageDirectory s;
          let s = paging_load_cr3 directory s;
          Some (paging_enable s) }"

text \<open>The page table for a directory entry, allocated when there is none; None is the failed allocation.\<close>

definition find_page_table :: "u32 \<Rightarrow> u32 \<Rightarrow> 'a pg_scheme \<Rightarrow> (u32 option \<times> 'a pg_scheme) option" where
  "find_page_table directoryIdx directoryEntry s =
     (if directoryEntry AND PAGE_PRESENT = 0
      then do { (tablePhysicalAddress, s) \<leftarrow> allocate_page_table s;
                if tablePhysicalAddress = 0 then Some (None, s)
                else do { s \<leftarrow> write32 (elem (pageDirectory s) directoryIdx)
                            ((tablePhysicalAddress AND PAGE_ADDRESS_MASK) OR PAGE_PRESENT OR PAGE_WRITABLE) s;
                          Some (Some (physical_to_virtual tablePhysicalAddress), s) } }
      else Some (Some (physical_to_virtual (directoryEntry AND PAGE_ADDRESS_MASK)), s))"

text \<open>Entering the mapping into a page table, and the part of \<^verbatim>\<open>paging_map\<close> after the checks of its arguments.\<close>

definition set_mapping :: "u32 \<Rightarrow> u32 \<Rightarrow> u32 \<Rightarrow> u32 \<Rightarrow> 'a pg_scheme \<Rightarrow> (int \<times> 'a pg_scheme) option" where
  "set_mapping pageTable virtualAddress physicalAddress flags s =
     (let tableIdx = PAGE_TABLE_INDEX virtualAddress
      in do { e \<leftarrow> read32 (elem pageTable tableIdx) s;
              if e AND PAGE_PRESENT \<noteq> 0 then Some (-3, s)
              else do {
                s \<leftarrow> write32 (elem pageTable tableIdx)
                  ((physicalAddress AND PAGE_ADDRESS_MASK) OR (flags AND NOT PAGE_ADDRESS_MASK)) s;
                e \<leftarrow> read32 (elem pageTable tableIdx) s;
                s \<leftarrow> write32 (elem pageTable tableIdx) (e OR PAGE_PRESENT) s;
                Some (0, paging_invalidate_page virtualAddress s) } })"

definition install_mapping :: "u32 \<Rightarrow> u32 \<Rightarrow> u32 \<Rightarrow> 'a pg_scheme \<Rightarrow> (int \<times> 'a pg_scheme) option" where
  "install_mapping virtualAddress physicalAddress flags s =
     (let directoryIdx = PAGE_DIRECTORY_INDEX virtualAddress
      in do { directoryEntry \<leftarrow> read32 (elem (pageDirectory s) directoryIdx) s;
              (found, s) \<leftarrow> find_page_table directoryIdx directoryEntry s;
              case found of
                None \<Rightarrow> Some (-2, s)
              | Some pageTable \<Rightarrow> set_mapping pageTable virtualAddress physicalAddress flags s })"

definition c_bool :: "bool \<Rightarrow> u32" where
  "c_bool b = (if b then 1 else 0)"

definition paging_map :: "u32 \<Rightarrow> u32 \<Rightarrow> u32 \<Rightarrow> 'a pg_scheme \<Rightarrow> (int \<times> 'a pg_scheme) option" where
  "paging_map virtualAddress physicalAddress flags s =
     do { (_, s) \<leftarrow> fvga_write (''paging_map: VA=%x PA=%x'' @ [CHR 0x0A])
            [ArgInt virtualAddress, ArgInt physicalAddress] s;
          (_, s) \<leftarrow> fvga_write (''paging_map: VA valid=%d PA valid=%d'' @ [CHR 0x0A])
            [ArgInt (c_bool (page_address_valid virtualAddress)), ArgInt (c_bool (page_address_valid physicalAddress))] s;
          if \<not> page_address_valid virtualAddress then
            do { (_, s) \<leftarrow> fvga_write (''paging_map: INVALID VIRTUAL'' @ [CHR 0x0A]) [] s; Some (-1, s) }
          else if \<not> page_address_valid physicalAddress then
            do { (_, s) \<leftarrow> fvga_write (''paging_map: INVALID PHYSICAL'' @ [CHR 0x0A]) [] s; Some (-1, s) }
          else if \<not> page_address_valid virtualAddress \<or> \<not> page_address_valid physicalAddress then Some (-1, s)
          else install_mapping virtualAddress physicalAddress flags s }"

definition paging_unmap :: "u32 \<Rightarrow> 'a pg_scheme \<Rightarrow> (int \<times> 'a pg_scheme) option" where
  "paging_unmap virtualAddress s =
     (if \<not> page_address_valid virtualAddress then Some (-1, s)
      else let directoryIndex = PAGE_DIRECTORY_INDEX virtualAddress;
               tableIndex = PAGE_TABLE_INDEX virtualAddress
        in do { directoryEntry \<leftarrow> read32 (elem (pageDirectory s) directoryIndex) s;
                if directoryEntry AND PAGE_PRESENT = 0 then Some (-2, s)
                else let tablePhysicalAddress = directoryEntry AND PAGE_ADDRESS_MASK;
                         pageTable = physical_to_virtual tablePhysicalAddress
                  in do { e \<leftarrow> read32 (elem pageTable tableIndex) s;
                          if e AND PAGE_PRESENT = 0 then Some (-3, s)
                          else do { s \<leftarrow> write32 (elem pageTable tableIndex) 0 s;
                                    Some (0, paging_invalidate_page virtualAddress s) } } })"


section \<open>Entries and tables\<close>

text \<open>The entry that maps frame \<open>f\<close> present and writable.\<close>

definition entry :: "nat \<Rightarrow> u32" where
  "entry f = of_nat (4096 * f) OR 3"

lemma drop_bit_frame: "frame x = unat (drop_bit 12 x)"
  by (simp add: unat_page_number)

lemma frame_of_nat: "f < 2 ^ 20 \<Longrightarrow> frame (of_nat (4096 * f)) = f"
  using frame_tbl_addr [of f 0] by (simp add: tbl_addr_def)

lemma frame_or:
  assumes "unat w < 4096"
  shows "frame (x OR w) = frame x"
proof -
  have "unat (drop_bit 12 w) = 0" using assms by (simp add: unat_page_number frame_def)
  then have "drop_bit 12 w = 0" by (simp add: unat_eq_0)
  then show ?thesis by (simp add: drop_bit_frame)
qed

lemma present_or: "(of_nat (4096 * f) OR w) AND 1 = w AND (1 :: u32)"
  by (simp add: and_one_eq mod_2_eq_odd even_or_iff)

lemma frame_entry: "f < 2 ^ 20 \<Longrightarrow> frame (entry f) = f"
  unfolding entry_def by (subst frame_or) (simp, rule frame_of_nat)

lemma entry_present: "entry f AND 1 \<noteq> 0"
  using present_or [of f 3] by (simp add: entry_def)

lemma entry_not_user: "entry f AND PAGE_USER = 0"
proof -
  have e: "entry f = push_bit 12 (of_nat f) OR 3" by (simp add: entry_def push_bit_eq_mult mult.commute)
  have "\<not> bit (push_bit 12 (of_nat f) :: u32) 2" unfolding bit_push_bit_iff by simp
  then have "push_bit 12 (of_nat f) AND (2 ^ 2 :: u32) = 0" using and_one_bit_nonzero by blast
  then have "push_bit 12 (of_nat f) AND PAGE_USER = 0" unfolding PAGE_USER_def power2_eq_square
    by (simp del: push_bit_of_nat)
  then show ?thesis unfolding e bit.conj_disj_distrib2 by (simp only: PAGE_USER_def) simp
qed

text \<open>\<open>tables m D T U\<close>: the directory in frame \<open>D\<close>, whose first entry is the identity table in frame \<open>T\<close>; every
  other table is a frame of \<open>U\<close> between 2 MiB and 4 MiB, and no two directory entries share one.\<close>

definition tables :: "memory \<Rightarrow> nat \<Rightarrow> nat \<Rightarrow> nat set \<Rightarrow> bool" where
  "tables m D T U \<longleftrightarrow> D < 256 \<and> T < 256 \<and> D \<noteq> T \<and> tbl m D 0 = entry T \<and> (\<forall>i < 1024. tbl m T i = entry i) \<and>
     (\<forall>d. 0 < d \<and> d < 1024 \<and> tbl m D d AND 1 \<noteq> 0 \<longrightarrow>
        frame (tbl m D d) \<in> U \<inter> {512..<1024} \<and> tbl m D d = entry (frame (tbl m D d))) \<and>
     (\<forall>d e. 0 < d \<and> d < 1024 \<and> 0 < e \<and> e < 1024 \<and> tbl m D d AND 1 \<noteq> 0 \<and> tbl m D e AND 1 \<noteq> 0 \<and>
        frame (tbl m D d) = frame (tbl m D e) \<longrightarrow> d = e)"

lemma tablesD:
  assumes "tables m D T U"
  shows "D < 256" "T < 256" "D \<noteq> T" "tbl m D 0 = entry T" "\<And>i. i < 1024 \<Longrightarrow> tbl m T i = entry i"
    "\<And>d. 0 < d \<Longrightarrow> d < 1024 \<Longrightarrow> tbl m D d AND 1 \<noteq> 0 \<Longrightarrow>
      frame (tbl m D d) \<in> U \<and> 512 \<le> frame (tbl m D d) \<and> frame (tbl m D d) < 1024"
    "\<And>d e. 0 < d \<Longrightarrow> d < 1024 \<Longrightarrow> 0 < e \<Longrightarrow> e < 1024 \<Longrightarrow> tbl m D d AND 1 \<noteq> 0 \<Longrightarrow> tbl m D e AND 1 \<noteq> 0 \<Longrightarrow>
      frame (tbl m D d) = frame (tbl m D e) \<Longrightarrow> d = e"
    "\<And>d. 0 < d \<Longrightarrow> d < 1024 \<Longrightarrow> tbl m D d AND 1 \<noteq> 0 \<Longrightarrow> tbl m D d = entry (frame (tbl m D d))"
  using assms unfolding tables_def by auto

lemma tables_mono: "tables m D T U \<Longrightarrow> U \<subseteq> V \<Longrightarrow> tables m D T V"
  unfolding tables_def by blast

text \<open>Tables that agree on the directory and the identity table.\<close>

lemma tables_cong:
  assumes "tables m D T U" "\<And>i. i < 1024 \<Longrightarrow> tbl m' D i = tbl m D i" "\<And>i. i < 1024 \<Longrightarrow> tbl m' T i = tbl m T i"
  shows "tables m' D T U"
proof -
  have "tables m' D T U = tables m D T U"
    unfolding tables_def using assms(2,3) by (simp cong: conj_cong)
  with assms(1) show ?thesis by simp
qed

lemma leaf_identity: "tables m D T U \<Longrightarrow> p < 1024 \<Longrightarrow> leaf m D p = Some (entry p)"
  using tablesD(2,4) [of m D T U] tablesD(5) [of m D T U p] entry_present
  by (simp add: leaf_def frame_entry)

text \<open>The page table of a page above 4 MiB, when there is one.\<close>

lemma table_of_page:
  assumes "tables m D T U" "1024 \<le> p" "p < 2 ^ 20" "tbl m D (p div 1024) AND 1 \<noteq> 0"
  shows "frame (tbl m D (p div 1024)) \<in> U \<and> 512 \<le> frame (tbl m D (p div 1024)) \<and> frame (tbl m D (p div 1024)) < 1024"
proof -
  have "0 < p div 1024" "p div 1024 < 1024" using assms(2,3) by (auto simp: div_greater_zero_iff less_mult_imp_div_less)
  then show ?thesis using tablesD(6) [OF assms(1)] assms(4) by blast
qed

lemma leaf_cong:
  assumes "tables m D T U" "\<And>i. i < 1024 \<Longrightarrow> tbl m' D i = tbl m D i"
    and "\<And>f i. f = T \<or> f \<in> U \<inter> {512..<1024} \<Longrightarrow> i < 1024 \<Longrightarrow> tbl m' f i = tbl m f i"
  shows "leaf m' D = leaf m D"
proof (rule ext)
  fix p
  show "leaf m' D p = leaf m D p"
  proof (cases "p < 2 ^ 20 \<and> tbl m D (p div 1024) AND 1 \<noteq> 0")
    case True
    then have d: "p div 1024 < 1024" by (simp add: less_mult_imp_div_less)
    have "frame (tbl m D (p div 1024)) = T \<or> frame (tbl m D (p div 1024)) \<in> U \<inter> {512..<1024}"
    proof (cases "1024 \<le> p")
      case False
      then have "p div 1024 = 0" by simp
      then show ?thesis using tablesD(2,4) [OF assms(1)] by (simp add: frame_entry)
    qed (use True table_of_page [OF assms(1), of p] in auto)
    with assms(2) [OF d] assms(3) show ?thesis by (simp add: leaf_def)
  next
    case False
    then show ?thesis using assms(2) [of "p div 1024"] by (auto simp: leaf_def less_mult_imp_div_less)
  qed
qed

text \<open>Writing to a frame that holds no table changes no mapping.\<close>

lemma tables_fresh:
  assumes t: "tables m D T U" and ch: "changes_only {4096 * F..<4096 * F + 4096} m m'" and F: "512 \<le> F" "F \<notin> U"
  shows "tables m' D T U" "leaf m' D = leaf m D"
proof -
  have same: "tbl m' f i = tbl m f i" if "f \<noteq> F" "f < 1024" "i < 1024" for f i
  proof (rule tbl_changes_only [OF ch])
    have "f < F \<or> F < f" using that(1) by auto
    then show "{4096 * f + 4 * i..<4096 * f + 4 * i + 4} \<inter> {4096 * F..<4096 * F + 4096} = {}"
      using that(3) by auto
  qed (use that in auto)
  have D: "D \<noteq> F" "T \<noteq> F" "D < 1024" "T < 1024" using tablesD(1,2) [OF t] F(1) by auto
  show "tables m' D T U"
    by (rule tables_cong [OF t]) (use same D in auto)
  show "leaf m' D = leaf m D"
  proof (rule leaf_cong [OF t])
    fix f i assume "f = T \<or> f \<in> U \<inter> {512..<1024}" "i < (1024 :: nat)"
    moreover from this have "f \<noteq> F" "f < 1024" using D F by auto
    ultimately show "tbl m' f i = tbl m f i" by (intro same)
  qed (use same D in auto)
qed

text \<open>A zeroed frame put into an empty directory entry adds a table and no mapping.\<close>

lemma tables_install:
  assumes t: "tables m D T U" and d: "0 < d" "d < 1024" "tbl m D d AND 1 = 0"
    and F: "512 \<le> F" "F < 1024" "F \<notin> U" "\<And>i. i < 1024 \<Longrightarrow> tbl m F i = 0"
  defines "m' \<equiv> store32 m (tbl_addr D d) (entry F)"
  shows "tables m' D T (insert F U)" "leaf m' D = leaf m D" "tbl m' D d = entry F" "\<And>i. i < 1024 \<Longrightarrow> tbl m' F i = 0"
proof -
  note D = tablesD(1,2,3) [OF t]
  have st: "tbl m' f i = (if f = D \<and> i = d then entry F else tbl m f i)" if "f < 1024" "i < 1024" for f i
    unfolding m'_def using tbl_store [of D d f i] that d(2) D by auto
  show e: "tbl m' D d = entry F" using st [of D d] d(2) D by simp
  show z: "tbl m' F i = 0" if "i < 1024" for i
    using st [of F i] F(1,2,4) that D by auto
  have fF: "frame (entry F) = F" using F(2) by (simp add: frame_entry)
  have old: "tbl m' D i = tbl m D i" if "i < 1024" "i \<noteq> d" for i
    using st [of D i] that D by simp
  have "tbl m' T i = entry i" if "i < 1024" for i
    using st [of T i] tablesD(3,5) [OF t] that D by auto
  moreover have "tbl m' D 0 = entry T" using old [of 0] d tablesD(4) [OF t] by simp
  moreover have "frame (tbl m' D i) \<in> insert F U \<inter> {512..<1024} \<and> tbl m' D i = entry (frame (tbl m' D i))"
    if "0 < i" "i < 1024" "tbl m' D i AND 1 \<noteq> 0" for i
    using that old [of i] tablesD(6) [OF t, of i] tablesD(8) [OF t, of i] e fF F(1,2) by (cases "i = d") auto
  moreover have "i = j" if "0 < i" "i < 1024" "tbl m' D i AND 1 \<noteq> 0" "0 < j" "j < 1024" "tbl m' D j AND 1 \<noteq> 0"
      "frame (tbl m' D i) = frame (tbl m' D j)" for i j
    using that old [of i] old [of j] tablesD(6) [OF t, of i] tablesD(6) [OF t, of j] tablesD(7) [OF t, of i j] e fF F(3)
    by (cases "i = d"; cases "j = d") auto
  ultimately show "tables m' D T (insert F U)" unfolding tables_def by (auto simp: D)
  show "leaf m' D = leaf m D"
  proof (rule ext)
    fix p
    show "leaf m' D p = leaf m D p"
    proof (cases "p < 2 ^ 20")
      case True
      then have i: "p div 1024 < 1024" "p mod 1024 < 1024" by (simp_all add: less_mult_imp_div_less)
      show ?thesis
      proof (cases "p div 1024 = d")
        case True
        then show ?thesis using e fF z [OF i(2)] d(3) by (simp add: leaf_def)
      next
        case False
        have "tbl m' f (p mod 1024) = tbl m f (p mod 1024)" if "tbl m D (p div 1024) AND 1 \<noteq> 0" "f = frame (tbl m D (p div 1024))" for f
        proof -
          have "f = T \<or> f \<in> U \<and> 512 \<le> f \<and> f < 1024"
            using that tablesD(4) [OF t] tablesD(6) [OF t, of "p div 1024"] i(1) D by (cases "p div 1024 = 0") (auto simp: frame_entry)
          then show ?thesis using st [of f "p mod 1024"] i(2) D by auto
        qed
        with False old [of "p div 1024"] i show ?thesis by (auto simp: leaf_def)
      qed
    qed (simp add: leaf_def)
  qed
qed

text \<open>Writing the entry of a page above 4 MiB changes the mapping of that page only.\<close>

lemma tables_set:
  fixes v :: u32
  assumes t: "tables m D T U" and p: "1024 \<le> p" "p < 2 ^ 20" and pr: "tbl m D (p div 1024) AND 1 \<noteq> 0"
  defines "F \<equiv> frame (tbl m D (p div 1024))"
  defines "m' \<equiv> store32 m (tbl_addr F (p mod 1024)) v"
  shows "tables m' D T U" "leaf m' D = (leaf m D)(p := (if v AND 1 = 0 then None else Some v))"
    "\<And>i. i < 1024 \<Longrightarrow> tbl m' D i = tbl m D i" "tbl m' F (p mod 1024) = v"
proof -
  have d: "0 < p div 1024" "p div 1024 < 1024" using p by (auto simp: div_greater_zero_iff less_mult_imp_div_less)
  have F: "F \<in> U" "512 \<le> F" "F < 1024" using table_of_page [OF t p pr] by (simp_all add: F_def)
  note D = tablesD(1,2) [OF t]
  have st: "tbl m' f i = (if f = F \<and> i = p mod 1024 then v else tbl m f i)" if "f < 1024" "i < 1024" for f i
    unfolding m'_def using tbl_store [of F "p mod 1024" f i] that F by auto
  then show sameD: "tbl m' D i = tbl m D i" if "i < 1024" for i using that D F by auto
  show here: "tbl m' F (p mod 1024) = v" using st [of F "p mod 1024"] F by simp
  show "tables m' D T U" by (rule tables_cong [OF t sameD]) (use st D F in auto)
  show "leaf m' D = (leaf m D)(p := (if v AND 1 = 0 then None else Some v))"
  proof (rule ext)
    fix q
    show "leaf m' D q = ((leaf m D)(p := (if v AND 1 = 0 then None else Some v))) q"
    proof (cases "q = p")
      case True
      then show ?thesis using sameD [OF d(2)] pr here p(2) by (simp add: leaf_def F_def)
    next
      case False
      show ?thesis
      proof (cases "q < 2 ^ 20 \<and> tbl m D (q div 1024) AND 1 \<noteq> 0")
        case True
        then have q: "q div 1024 < 1024" "q mod 1024 < 1024" by (simp_all add: less_mult_imp_div_less)
        let ?G = "frame (tbl m D (q div 1024))"
        have G: "?G < 1024" using tablesD(4) [OF t] tablesD(6) [OF t, of "q div 1024"] q(1) True D
          by (cases "q div 1024 = 0") (auto simp: frame_entry)
        have "?G \<noteq> F \<or> q mod 1024 \<noteq> p mod 1024"
        proof (rule ccontr)
          assume same: "\<not> (?G \<noteq> F \<or> q mod 1024 \<noteq> p mod 1024)"
          have "q div 1024 \<noteq> 0"
          proof
            assume "q div 1024 = 0"
            then have "?G = T" using tablesD(2,4) [OF t] by (simp add: frame_entry)
            with same F D show False by simp
          qed
          with same True have "q div 1024 = p div 1024"
            using tablesD(7) [OF t, of "q div 1024" "p div 1024"] q(1) d pr by (simp add: F_def)
          with same False show False by (metis div_mult_mod_eq)
        qed
        with True False st [OF G q(2)] sameD [OF q(1)] show ?thesis by (auto simp: leaf_def)
      next
        case nq: False
        then show ?thesis using False sameD [of "q div 1024"] by (auto simp: leaf_def less_mult_imp_div_less)
      qed
    qed
  qed
qed

section \<open>The invariant\<close>

definition pg_core :: "nat set \<Rightarrow> 'a pg_scheme \<Rightarrow> bool" where
  "pg_core U s \<longleftrightarrow> cr0 s AND PG_BIT \<noteq> 0 \<and> cr3 s = pageDirectory s \<and> 4096 dvd unat (pageDirectory s) \<and>
     tables (mem s) (frame (pageDirectory s)) (frame (firstPageTable s)) U \<and> tlb_coherent s"

definition pg_inv :: "'a pg_scheme \<Rightarrow> bool" where
  "pg_inv s \<longleftrightarrow> pg_core (used_pages s) s \<and> phys_inv s \<and> {..<512} \<subseteq> used_pages s"

text \<open>The address space: the entry of every mapped page.\<close>

definition address_space :: "'a machine_scheme \<Rightarrow> nat \<Rightarrow> u32 option" where
  "address_space s = leaf (mem s) (frame (cr3 s))"

lemma core_tables: "pg_core U s \<Longrightarrow> tables (mem s) (frame (pageDirectory s)) (frame (firstPageTable s)) U"
  by (simp add: pg_core_def)

lemma core_translate:
  assumes "pg_core U s"
  shows "translate va s = map_option (\<lambda>pte. (pte AND PAGE_ADDRESS_MASK) + PAGE_OFFSET va) (address_space s (frame va))"
  using assms by (simp add: pg_core_def translate_coherent address_space_def)

lemma core_identity:
  assumes "pg_core U s" "frame va < 1024"
  shows "translate va s = Some va"
proof -
  have "address_space s (frame va) = Some (entry (frame va))"
    using leaf_identity [OF core_tables [OF assms(1)] assms(2)] assms(1) by (simp add: address_space_def pg_core_def)
  moreover have "entry (frame va) AND PAGE_ADDRESS_MASK = of_nat (4096 * frame va)"
    using frame_bound [of va] by (simp only: mask_frame frame_entry)
  ultimately show ?thesis
    using core_translate [OF assms(1)] address_split [of va] by simp
qed

lemma core_read: "pg_core U s \<Longrightarrow> f < 1024 \<Longrightarrow> i < 1024 \<Longrightarrow> read32 (tbl_addr f i) s = Some (tbl (mem s) f i)"
  by (simp add: read32_def core_identity frame_tbl_addr tbl_def)

lemma core_write: "pg_core U s \<Longrightarrow> f < 1024 \<Longrightarrow> i < 1024 \<Longrightarrow>
   write32 (tbl_addr f i) v s = Some (s\<lparr>mem := store32 (mem s) (tbl_addr f i) v\<rparr>)"
  by (simp add: write32_def core_identity frame_tbl_addr)

lemma elem_of_nat: "elem (of_nat (4096 * f)) i = tbl_addr f (unat i)"
  by (simp add: elem_def tbl_addr_def)

lemma elem_frame: "elem (x AND PAGE_ADDRESS_MASK) i = tbl_addr (frame x) (unat i)"
  by (simp add: elem_def entry_addr)

lemma aligned_frame: "4096 dvd unat x \<Longrightarrow> x = of_nat (4096 * frame x)"
proof -
  assume "4096 dvd unat x"
  then have "unat x = 4096 * frame x" by (simp add: frame_def)
  then show ?thesis by (metis of_nat_unat ucast_id)
qed

lemma elem_directory: "pg_core U s \<Longrightarrow> elem (pageDirectory s) i = tbl_addr (frame (pageDirectory s)) (unat i)"
  using aligned_frame [of "pageDirectory s"] elem_of_nat by (metis pg_core_def)

text \<open>Writes that keep the tables in shape and every mapping in place keep the invariant.\<close>

lemma core_mem:
  assumes "pg_core U s" "tables m' (frame (pageDirectory s)) (frame (firstPageTable s)) V"
    and "\<And>p e. leaf (mem s) (frame (pageDirectory s)) p = Some e \<Longrightarrow> leaf m' (frame (pageDirectory s)) p = Some e"
  shows "pg_core V (s\<lparr>mem := m'\<rparr>)"
  using assms unfolding pg_core_def tlb_coherent_def by auto

lemma core_other:
  "pg_core U s \<Longrightarrow> mem s' = mem s \<Longrightarrow> cr0 s' = cr0 s \<Longrightarrow> cr3 s' = cr3 s \<Longrightarrow> tlb s' = tlb s \<Longrightarrow>
   pageDirectory s' = pageDirectory s \<Longrightarrow> firstPageTable s' = firstPageTable s \<Longrightarrow> pg_core U s'"
  unfolding pg_core_def tlb_coherent_def by auto

text \<open>A loop that stores the 1024 entries of a table, wherever each single store reaches its frame.\<close>

lemma fill_table:
  fixes s :: "'a pg_scheme"
  assumes F: "F < 2 ^ 20" and base: "\<And>m. base (s\<lparr>mem := m\<rparr>) = of_nat (4096 * F)"
    and store: "\<And>m i v. changes_only {4096 * F..<4096 * F + 4096} (mem s) m \<Longrightarrow> i < 1024 \<Longrightarrow>
      write32 (tbl_addr F i) v (s\<lparr>mem := m\<rparr>) = Some (s\<lparr>mem := store32 m (tbl_addr F i) v\<rparr>)"
  shows "\<exists>m'. for_each (\<lambda>i s. write32 (elem (base s) (of_nat i)) (g i) s) [0..<1024] s = Some (s\<lparr>mem := m'\<rparr>) \<and>
    changes_only {4096 * F..<4096 * F + 4096} (mem s) m' \<and> (\<forall>i < 1024. tbl m' F i = g i)"
proof -
  let ?S = "{4096 * F..<4096 * F + 4096}"
  define I where "I k t \<longleftrightarrow> (\<exists>m'. t = s\<lparr>mem := m'\<rparr> \<and> changes_only ?S (mem s) m' \<and> (\<forall>i < k. tbl m' F i = g i))" for k :: nat and t
  have "\<exists>t'. for_each (\<lambda>i s. write32 (elem (base s) (of_nat i)) (g i) s) (map id [0..<1024]) s = Some t' \<and> I 1024 t'"
  proof (rule for_each_invariant)
    show "I 0 s" unfolding I_def by (intro exI [of _ "mem s"]) simp
    fix i t assume i: "i < (1024 :: nat)" and "I i t"
    then obtain m where t: "t = s\<lparr>mem := m\<rparr>" "changes_only ?S (mem s) m" "\<forall>j < i. tbl m F j = g j" by (auto simp: I_def)
    have addr: "elem (base t) (of_nat i) = tbl_addr F i"
      using i elem_of_nat [of F "of_nat i"] base [of m] by (simp add: t(1) unat_of_nat_small)
    have w: "write32 (tbl_addr F i) (g i) t = Some (s\<lparr>mem := store32 m (tbl_addr F i) (g i)\<rparr>)"
      unfolding t(1) by (rule store [OF t(2) i])
    have "changes_only ?S m (store32 m (tbl_addr F i) (g i))"
      unfolding tbl_addr_def by (rule changes_only_mono [OF changes_only_store32]) (use F i in auto)
    then have "changes_only ?S (mem s) (store32 m (tbl_addr F i) (g i))" by (rule changes_only_trans [OF t(2)])
    moreover have "\<forall>j < Suc i. tbl (store32 m (tbl_addr F i) (g i)) F j = g j"
      using t(3) tbl_store [OF F i F] i by (auto simp: less_Suc_eq)
    ultimately show "\<exists>t'. write32 (elem (base t) (of_nat (id i))) (g (id i)) t = Some t' \<and> I (Suc i) t'"
      unfolding id_apply addr w I_def by blast
  qed
  then show ?thesis by (auto simp: I_def)
qed

lemma clear_table_spec:
  assumes core: "pg_core U s" and F: "512 \<le> F" "F < 1024" "F \<notin> U"
  shows "\<exists>m'. clear_table (of_nat (4096 * F)) s = Some (s\<lparr>mem := m'\<rparr>) \<and>
    changes_only {4096 * F..<4096 * F + 4096} (mem s) m' \<and> (\<forall>i < 1024. tbl m' F i = 0)"
  unfolding clear_table_def PAGE_TABLE_ENTRIES_def
proof (rule fill_table [where base = "\<lambda>_. of_nat (4096 * F)" and g = "\<lambda>_. 0"])
  fix m :: memory and i and v assume m: "changes_only {4096 * F..<4096 * F + 4096} (mem s) m" and i: "i < (1024 :: nat)"
  have "pg_core U (s\<lparr>mem := m\<rparr>)"
    using tables_fresh [OF core_tables [OF core] m F(1,3)] by (intro core_mem [OF core]) simp_all
  from core_write [OF this F(2) i, of v]
  show "write32 (tbl_addr F i) v (s\<lparr>mem := m\<rparr>) = Some (s\<lparr>mem := store32 m (tbl_addr F i) v\<rparr>)" by simp
qed (use F in simp_all)

section \<open>Finding or making the page table\<close>

lemma page_sets_mem [simp]:
  "used_pages (s\<lparr>mem := m\<rparr>) = used_pages s" "used_pages (s\<lparr>tlb := t\<rparr>) = used_pages s"
  "phys_inv (s\<lparr>mem := m\<rparr>) = phys_inv s" "phys_inv (s\<lparr>tlb := t\<rparr>) = phys_inv s"
  by (simp_all add: used_pages_def page_used_def phys_inv_def free_pages_def)

lemma take_page_sel [simp]:
  "mem (take_page p s) = mem s" "cr0 (take_page p s) = cr0 s" "cr3 (take_page p s) = cr3 s" "tlb (take_page p s) = tlb s"
  "pageDirectory (take_page p t) = pageDirectory t" "firstPageTable (take_page p t) = firstPageTable t"
  by (simp_all add: take_page_def)

text \<open>The next frame the allocator hands out, when the invariant holds.\<close>

lemma next_frame:
  assumes "pg_inv s" "candidates 256 s \<noteq> {}"
  defines "F \<equiv> Min (candidates 256 s)"
  shows "physical_alloc_page s = Some (of_nat (4096 * F), take_page F s)" "512 \<le> F" "F < PAGES" "F \<notin> used_pages s"
    "phys_inv (take_page F s)" "used_pages (take_page F s) = insert F (used_pages s)"
    "of_nat (4096 * F) \<noteq> (0 :: u32)"
proof -
  have phys: "phys_inv s" and low: "{..<512} \<subseteq> used_pages s" using assms(1) by (simp_all add: pg_inv_def)
  note m = min_candidate [OF assms(2), folded F_def]
  show "physical_alloc_page s = Some (of_nat (4096 * F), take_page F s)"
    using physical_alloc_page_eq [OF phys] assms(2) by (simp add: F_def mult.commute)
  show F: "F \<notin> used_pages s" using m(1) by (auto simp: free_pages_eq)
  then show "512 \<le> F" using low by (meson lessThan_iff not_le subsetD)
  show "F < PAGES" by (rule m(3))
  show "phys_inv (take_page F s)" "used_pages (take_page F s) = insert F (used_pages s)"
    using take_page_inv [OF phys m(1)] by simp_all
  show "of_nat (4096 * F) \<noteq> (0 :: u32)"
    by (rule of_nat_nonzero_u32) (use m(2,3) in \<open>auto simp: PAGES_def\<close>)
qed

lemma find_page_table_new:
  fixes s :: "'a pg_scheme"
  assumes inv: "pg_inv s" and d: "0 < unat idx" "unat idx < 1024" "tbl (mem s) (frame (pageDirectory s)) (unat idx) AND 1 = 0"
    and free: "candidates 256 s \<noteq> {}" and F: "F = Min (candidates 256 s)" "F < 1024"
  shows "\<exists>m'. find_page_table idx (tbl (mem s) (frame (pageDirectory s)) (unat idx)) s
      = Some (Some (of_nat (4096 * F)), (take_page F s)\<lparr>mem := m'\<rparr>) \<and>
    pg_inv ((take_page F s)\<lparr>mem := m'\<rparr>) \<and> leaf m' (frame (pageDirectory s)) = leaf (mem s) (frame (pageDirectory s)) \<and>
    tbl m' (frame (pageDirectory s)) (unat idx) = entry F"
proof -
  let ?D = "frame (pageDirectory s)" and ?T = "frame (firstPageTable s)" and ?s1 = "take_page F s"
  note nf = next_frame [OF inv free, folded F(1)]
  have core: "pg_core (used_pages s) s" and low: "{..<512} \<subseteq> used_pages s" using inv by (simp_all add: pg_inv_def)
  have D: "?D < 1024" using tablesD(1) [OF core_tables [OF core]] by simp
  have core1: "pg_core (used_pages s) ?s1" by (rule core_other [OF core]) simp_all
  from clear_table_spec [OF core1 nf(2) F(2) nf(4)] obtain m1 where m1:
      "clear_table (of_nat (4096 * F)) ?s1 = Some (?s1\<lparr>mem := m1\<rparr>)"
      "changes_only {4096 * F..<4096 * F + 4096} (mem s) m1" "\<forall>i < 1024. tbl m1 F i = 0"
    by auto
  note fresh = tables_fresh [OF core_tables [OF core] m1(2) nf(2,4)]
  have core2: "pg_core (used_pages s) (?s1\<lparr>mem := m1\<rparr>)"
    by (rule core_mem [OF core1]) (use fresh in simp_all)
  define m2 where "m2 = store32 m1 (tbl_addr ?D (unat idx)) (entry F)"
  have dm1: "tbl m1 ?D (unat idx) AND 1 = 0"
  proof -
    have "tbl m1 ?D (unat idx) = tbl (mem s) ?D (unat idx)"
      by (rule tbl_changes_only [OF m1(2)]) (use tablesD(1) [OF core_tables [OF core]] d(2) nf(2) in auto)
    with d(3) show ?thesis by simp
  qed
  note inst = tables_install [OF fresh(1) d(1,2) dm1 nf(2) F(2) nf(4) m1(3) [rule_format], folded m2_def]
  have "pg_core (insert F (used_pages s)) (?s1\<lparr>mem := m1, mem := m2\<rparr>)"
    by (rule core_mem [OF core2]) (use inst in simp_all)
  then have inv': "pg_inv (?s1\<lparr>mem := m2\<rparr>)"
    using nf(5,6) low by (auto simp: pg_inv_def)
  have e: "(of_nat (4096 * F) AND PAGE_ADDRESS_MASK) OR PAGE_PRESENT OR PAGE_WRITABLE = entry F"
    using F(2) by (simp add: mask_frame frame_of_nat entry_def PAGE_PRESENT_def PAGE_WRITABLE_def del: of_nat_mult)
  have w: "write32 (elem (pageDirectory (?s1\<lparr>mem := m1\<rparr>)) idx) (entry F) (?s1\<lparr>mem := m1\<rparr>) = Some (?s1\<lparr>mem := m2\<rparr>)"
    using core_write [OF core2 D d(2)] elem_directory [OF core2, of idx] by (simp add: m2_def)
  have "find_page_table idx (tbl (mem s) ?D (unat idx)) s = Some (Some (of_nat (4096 * F)), ?s1\<lparr>mem := m2\<rparr>)"
    unfolding find_page_table_def allocate_page_table_def nf(1)
    using d(3) [folded PAGE_PRESENT_def] nf(7) m1(1) w by (simp add: physical_to_virtual_def e del: of_nat_mult)
  with inv' inst fresh(2) show ?thesis by auto
qed

section \<open>Mapping and unmapping one page\<close>

text \<open>Changing the entry of one page and invalidating that page keeps the lookaside buffer coherent,
  whatever it held.\<close>

lemma core_tlb: "pg_core U s \<Longrightarrow> tlb s q = Some e \<Longrightarrow> leaf (mem s) (frame (pageDirectory s)) (unat q) = Some e"
  unfolding pg_core_def tlb_coherent_def by metis

lemma core_invalidate:
  assumes "pg_core U s" "tables m' (frame (pageDirectory s)) (frame (firstPageTable s)) V"
    and same: "\<And>q. q \<noteq> frame va \<Longrightarrow> leaf m' (frame (pageDirectory s)) q = leaf (mem s) (frame (pageDirectory s)) q"
  shows "pg_core V (paging_invalidate_page va (s\<lparr>mem := m'\<rparr>))"
proof -
  have "leaf m' (frame (pageDirectory s)) (unat q) = Some e" if "((tlb s)(drop_bit 12 va := None)) q = Some e" for q e
  proof -
    from that have q: "q \<noteq> drop_bit 12 va" "tlb s q = Some e" by (auto split: if_splits)
    then have "unat q \<noteq> frame va" using unat_page_number [of va] by (metis unat_inj)
    with same core_tlb [OF assms(1) q(2)] show ?thesis by simp
  qed
  with assms(1,2) show ?thesis by (simp add: pg_core_def tlb_coherent_def paging_invalidate_page_def)
qed

lemma invalidate_sel [simp]:
  "mem (paging_invalidate_page va s) = mem s" "cr3 (paging_invalidate_page va s) = cr3 s"
  "used_pages (paging_invalidate_page va t) = used_pages t" "phys_inv (paging_invalidate_page va t) = phys_inv t"
  by (simp_all add: paging_invalidate_page_def)

lemma core_space: "pg_core U s \<Longrightarrow> address_space s = leaf (mem s) (frame (pageDirectory s))"
  by (simp add: pg_core_def address_space_def)

text \<open>The table that serves a page, and the entry of the page in it.\<close>

lemma served_page:
  assumes core: "pg_core U s" and pr: "tbl (mem s) (frame (pageDirectory s)) (frame va div 1024) AND 1 \<noteq> 0"
  defines "F \<equiv> frame (tbl (mem s) (frame (pageDirectory s)) (frame va div 1024))"
  shows "F < 1024" "elem (of_nat (4096 * F)) (PAGE_TABLE_INDEX va) = tbl_addr F (frame va mod 1024)"
    "read32 (tbl_addr F (frame va mod 1024)) s = Some (tbl (mem s) F (frame va mod 1024))"
    "address_space s (frame va) = (if tbl (mem s) F (frame va mod 1024) AND 1 \<noteq> 0 then Some (tbl (mem s) F (frame va mod 1024)) else None)"
proof -
  note t = core_tables [OF core]
  have b: "frame va div 1024 < 1024" using frame_bound [of va] by (simp add: less_mult_imp_div_less)
  show F: "F < 1024"
  proof (cases "frame va div 1024 = 0")
    case True
    then show ?thesis using tablesD(2,4) [OF t] by (simp add: F_def frame_entry)
  qed (use tablesD(6) [OF t _ b pr] in \<open>simp add: F_def\<close>)
  show "elem (of_nat (4096 * F)) (PAGE_TABLE_INDEX va) = tbl_addr F (frame va mod 1024)"
    using elem_of_nat [of F "PAGE_TABLE_INDEX va"] by (simp only: table_index)
  show "read32 (tbl_addr F (frame va mod 1024)) s = Some (tbl (mem s) F (frame va mod 1024))"
    by (rule core_read [OF core F]) simp
  show "address_space s (frame va) = (if tbl (mem s) F (frame va mod 1024) AND 1 \<noteq> 0 then Some (tbl (mem s) F (frame va mod 1024)) else None)"
    using core_space [OF core] pr frame_bound [of va] by (simp add: leaf_def F_def)
qed

definition page_entry :: "u32 \<Rightarrow> u32 \<Rightarrow> u32" where
  "page_entry pa flags = (pa AND PAGE_ADDRESS_MASK) OR (flags AND NOT PAGE_ADDRESS_MASK) OR PAGE_PRESENT"

lemma or_present: "x AND 1 \<noteq> 0 \<Longrightarrow> x OR 1 = (x :: u32)" "(x OR 1) AND 1 = (1 :: u32)"
  by (simp_all add: and_one_eq mod_2_eq_odd or_one_eq even_or_iff)

lemma set_mapping_taken:
  assumes core: "pg_core U s" and pr: "tbl (mem s) (frame (pageDirectory s)) (frame va div 1024) AND 1 \<noteq> 0"
    and e: "address_space s (frame va) \<noteq> None"
  shows "set_mapping (of_nat (4096 * frame (tbl (mem s) (frame (pageDirectory s)) (frame va div 1024)))) va pa fl s = Some (-3, s)"
  using served_page [OF core pr] e
  by (simp add: set_mapping_def PAGE_PRESENT_def del: of_nat_mult split: if_splits)

lemma set_mapping_new:
  assumes inv: "pg_inv s" and pr: "tbl (mem s) (frame (pageDirectory s)) (frame va div 1024) AND 1 \<noteq> 0"
    and e: "address_space s (frame va) = None"
  shows "\<exists>m'. set_mapping (of_nat (4096 * frame (tbl (mem s) (frame (pageDirectory s)) (frame va div 1024)))) va pa fl s
      = Some (0, paging_invalidate_page va (s\<lparr>mem := m'\<rparr>)) \<and>
    pg_inv (paging_invalidate_page va (s\<lparr>mem := m'\<rparr>)) \<and>
    leaf m' (frame (pageDirectory s)) = (leaf (mem s) (frame (pageDirectory s)))(frame va \<mapsto> page_entry pa fl)"
proof -
  let ?D = "frame (pageDirectory s)" and ?T = "frame (firstPageTable s)" and ?p = "frame va"
  let ?F = "frame (tbl (mem s) ?D (?p div 1024))" and ?v = "(pa AND PAGE_ADDRESS_MASK) OR (fl AND NOT PAGE_ADDRESS_MASK)"
  have core: "pg_core (used_pages s) s" using inv by (simp add: pg_inv_def)
  note t = core_tables [OF core] and sp = served_page [OF core pr]
  have p: "1024 \<le> ?p"
    using leaf_identity [OF t, of ?p] e core_space [OF core] by (cases "1024 \<le> ?p") auto
  note set = tables_set [OF t p frame_bound pr]
  let ?a = "tbl_addr ?F (?p mod 1024)"
  define m1 where "m1 = store32 (mem s) ?a ?v"
  have core1: "pg_core (used_pages s) (s\<lparr>mem := m1\<rparr>)"
    using set(1,2) [of ?v, folded m1_def] e core_space [OF core] by (intro core_mem [OF core]) (auto split: if_splits)
  have pr1: "tbl m1 ?D (?p div 1024) AND 1 \<noteq> 0" and F1: "frame (tbl m1 ?D (?p div 1024)) = ?F"
    using set(3) [of _ ?v, folded m1_def] pr frame_bound [of va] by (simp_all add: less_mult_imp_div_less)
  note set1 = tables_set [OF set(1) [of ?v, folded m1_def] p frame_bound pr1, unfolded F1]
  define m2 where "m2 = store32 m1 ?a (?v OR PAGE_PRESENT)"
  have pe: "?v OR PAGE_PRESENT = page_entry pa fl" by (simp add: page_entry_def or.assoc)
  have "page_entry pa fl AND 1 = 1" unfolding pe [symmetric] PAGE_PRESENT_def by (rule or_present(2))
  then have leaf2: "leaf m2 ?D = (leaf (mem s) ?D)(?p \<mapsto> page_entry pa fl)"
    using set1(2) [of "?v OR PAGE_PRESENT", folded m2_def] set(2) [of ?v, folded m1_def] by (simp add: pe)
  have r: "read32 ?a (s\<lparr>mem := m1\<rparr>) = Some ?v"
    using core_read [OF core1 sp(1), of "?p mod 1024"] set(4) [of ?v, folded m1_def] by simp
  have w: "write32 ?a ?v s = Some (s\<lparr>mem := m1\<rparr>)"
      "write32 ?a (?v OR PAGE_PRESENT) (s\<lparr>mem := m1\<rparr>) = Some (s\<lparr>mem := m2\<rparr>)"
    using core_write [OF core sp(1), of "?p mod 1024"] core_write [OF core1 sp(1), of "?p mod 1024"]
    by (simp_all add: m1_def m2_def)
  have np: "tbl (mem s) ?F (?p mod 1024) AND PAGE_PRESENT = 0"
    using sp(4) e by (simp add: PAGE_PRESENT_def split: if_splits)
  have "set_mapping (of_nat (4096 * ?F)) va pa fl s = Some (0, paging_invalidate_page va (s\<lparr>mem := m2\<rparr>))"
    unfolding set_mapping_def Let_def sp(2,3) using np w r by simp
  moreover have "pg_core (used_pages s) (paging_invalidate_page va (s\<lparr>mem := m2\<rparr>))"
    by (rule core_invalidate [OF core set1(1) [of "?v OR PAGE_PRESENT", folded m2_def]]) (simp add: leaf2)
  ultimately show ?thesis using inv leaf2 by (auto simp: pg_inv_def)
qed

text \<open>\<^verbatim>\<open>install_mapping\<close> on every branch; the frame for a new table must lie below 4 MiB.\<close>

definition table_ready :: "nat \<Rightarrow> 'a pg_scheme \<Rightarrow> bool" where
  "table_ready p s \<longleftrightarrow> tbl (mem s) (frame (pageDirectory s)) (p div 1024) AND 1 \<noteq> 0"

lemma directory_entry:
  assumes core: "pg_core U s"
  shows "read32 (elem (pageDirectory s) (PAGE_DIRECTORY_INDEX va)) s = Some (tbl (mem s) (frame (pageDirectory s)) (frame va div 1024))"
proof -
  have "frame va div 1024 < 1024" using frame_bound [of va] by (simp add: less_mult_imp_div_less)
  moreover have "frame (pageDirectory s) < 1024" using tablesD(1) [OF core_tables [OF core]] by simp
  ultimately show ?thesis
    using core_read [OF core] elem_directory [OF core, of "PAGE_DIRECTORY_INDEX va"] by (simp add: directory_index)
qed

lemma mask_entry_frame: "physical_to_virtual (e AND PAGE_ADDRESS_MASK) = of_nat (4096 * frame e)"
  by (simp add: physical_to_virtual_def mask_frame)

lemma space_ready: "pg_core U s \<Longrightarrow> address_space s p \<noteq> None \<Longrightarrow> table_ready p s"
  by (auto simp: core_space leaf_def table_ready_def split: if_splits)

lemma install_taken:
  assumes inv: "pg_inv s" and e: "address_space s (frame va) \<noteq> None"
  shows "install_mapping va pa fl s = Some (-3, s)"
proof -
  have core: "pg_core (used_pages s) s" using inv by (simp add: pg_inv_def)
  have pr: "tbl (mem s) (frame (pageDirectory s)) (frame va div 1024) AND 1 \<noteq> 0"
    using space_ready [OF core e] by (simp add: table_ready_def)
  then show ?thesis
    unfolding install_mapping_def Let_def directory_entry [OF core] find_page_table_def
    using set_mapping_taken [OF core pr e]
    by (simp add: PAGE_PRESENT_def mask_entry_frame del: of_nat_mult)
qed

lemma install_in_table:
  assumes inv: "pg_inv s" and e: "address_space s (frame va) = None" and pr: "table_ready (frame va) s"
  shows "\<exists>m'. install_mapping va pa fl s = Some (0, paging_invalidate_page va (s\<lparr>mem := m'\<rparr>)) \<and>
    pg_inv (paging_invalidate_page va (s\<lparr>mem := m'\<rparr>)) \<and>
    leaf m' (frame (pageDirectory s)) = (leaf (mem s) (frame (pageDirectory s)))(frame va \<mapsto> page_entry pa fl)"
proof -
  have core: "pg_core (used_pages s) s" using inv by (simp add: pg_inv_def)
  have pr': "tbl (mem s) (frame (pageDirectory s)) (frame va div 1024) AND 1 \<noteq> 0"
    using pr by (simp add: table_ready_def)
  then show ?thesis
    unfolding install_mapping_def Let_def directory_entry [OF core] find_page_table_def
    using set_mapping_new [OF inv pr' e, of pa fl]
    by (simp add: PAGE_PRESENT_def mask_entry_frame del: of_nat_mult)
qed

lemma install_no_frame:
  assumes inv: "pg_inv s" and nr: "\<not> table_ready (frame va) s" and none: "candidates 256 s = {}"
  shows "install_mapping va pa fl s = Some (-2, s)"
proof -
  have core: "pg_core (used_pages s) s" and phys: "phys_inv s" using inv by (simp_all add: pg_inv_def)
  show ?thesis
    unfolding install_mapping_def Let_def directory_entry [OF core] find_page_table_def allocate_page_table_def
    using physical_alloc_page_eq [OF phys] none nr by (simp add: PAGE_PRESENT_def table_ready_def)
qed

lemma install_new_table:
  assumes inv: "pg_inv s" and nr: "\<not> table_ready (frame va) s"
    and free: "candidates 256 s \<noteq> {}" and F: "F = Min (candidates 256 s)" "F < 1024"
  shows "\<exists>m'. install_mapping va pa fl s = Some (0, paging_invalidate_page va ((take_page F s)\<lparr>mem := m'\<rparr>)) \<and>
    pg_inv (paging_invalidate_page va ((take_page F s)\<lparr>mem := m'\<rparr>)) \<and>
    leaf m' (frame (pageDirectory s)) = (leaf (mem s) (frame (pageDirectory s)))(frame va \<mapsto> page_entry pa fl)"
proof -
  let ?D = "frame (pageDirectory s)" and ?idx = "PAGE_DIRECTORY_INDEX va"
  have core: "pg_core (used_pages s) s" using inv by (simp add: pg_inv_def)
  have idx: "unat ?idx = frame va div 1024" by (rule directory_index)
  have np: "tbl (mem s) ?D (unat ?idx) AND 1 = 0" using nr by (simp add: table_ready_def idx)
  have d: "0 < unat ?idx" "unat ?idx < 1024"
    using np tablesD(4) [OF core_tables [OF core]] entry_present frame_bound [of va]
    by (auto simp: idx less_mult_imp_div_less intro!: gr0I)
  from find_page_table_new [OF inv d np free F] obtain m1 where m1:
      "find_page_table ?idx (tbl (mem s) ?D (unat ?idx)) s = Some (Some (of_nat (4096 * F)), (take_page F s)\<lparr>mem := m1\<rparr>)"
      "pg_inv ((take_page F s)\<lparr>mem := m1\<rparr>)" "leaf m1 ?D = leaf (mem s) ?D" "tbl m1 ?D (unat ?idx) = entry F"
    by blast
  let ?s1 = "(take_page F s)\<lparr>mem := m1\<rparr>"
  have core1: "pg_core (used_pages ?s1) ?s1" using m1(2) unfolding pg_inv_def by blast
  have D: "frame (pageDirectory ?s1) = ?D" by simp
  have pr: "tbl (mem ?s1) (frame (pageDirectory ?s1)) (frame va div 1024) AND 1 \<noteq> 0"
    using m1(4) entry_present by (simp add: idx)
  have tf: "frame (tbl (mem ?s1) (frame (pageDirectory ?s1)) (frame va div 1024)) = F"
    using m1(4) F(2) by (simp add: idx frame_entry)
  have e: "address_space ?s1 (frame va) = None"
    using core_space [OF core1] m1(3) np nr by (simp add: leaf_def table_ready_def)
  have "install_mapping va pa fl s = set_mapping (of_nat (4096 * F)) va pa fl ?s1"
    unfolding install_mapping_def Let_def directory_entry [OF core] using m1(1) by (simp add: idx del: of_nat_mult)
  moreover obtain m' where "set_mapping (of_nat (4096 * F)) va pa fl ?s1 = Some (0, paging_invalidate_page va (?s1\<lparr>mem := m'\<rparr>))"
      "pg_inv (paging_invalidate_page va (?s1\<lparr>mem := m'\<rparr>))" "leaf m' ?D = (leaf m1 ?D)(frame va \<mapsto> page_entry pa fl)"
    using set_mapping_new [OF m1(2) pr e, of pa fl] unfolding tf by auto
  ultimately show ?thesis using m1(3) by auto
qed

text \<open>A frame above 4 MiB that is not mapped cannot be cleared: the first store faults.\<close>

lemma install_fault:
  assumes inv: "pg_inv s" and nr: "\<not> table_ready (frame va) s"
    and free: "candidates 256 s \<noteq> {}" and unmapped: "address_space s (Min (candidates 256 s)) = None"
  shows "install_mapping va pa fl s = None"
proof -
  let ?F = "Min (candidates 256 s)"
  note nf = next_frame [OF inv free]
  have core: "pg_core (used_pages s) s" using inv by (simp add: pg_inv_def)
  have core1: "pg_core (used_pages s) (take_page ?F s)" by (rule core_other [OF core]) simp_all
  have F: "?F < 2 ^ 20" using nf(3) by (simp add: PAGES_def)
  have "translate (tbl_addr ?F 0) (take_page ?F s) = None"
    using core_translate [OF core1] unmapped frame_tbl_addr [OF F, of 0] by (simp add: address_space_def)
  then have "write32 (elem (of_nat (4096 * ?F)) (of_nat 0)) 0 (take_page ?F s) = None"
    using elem_of_nat [of ?F 0] by (simp add: write32_def del: of_nat_mult)
  moreover have "[0..<PAGE_TABLE_ENTRIES] = 0 # [1..<PAGE_TABLE_ENTRIES]"
    by (subst upt_conv_Cons) (simp_all add: PAGE_TABLE_ENTRIES_def)
  ultimately have "clear_table (of_nat (4096 * ?F)) (take_page ?F s) = None"
    unfolding clear_table_def by (simp del: of_nat_mult)
  then have "allocate_page_table s = None"
    using nf(7) unfolding allocate_page_table_def nf(1) by (simp add: physical_to_virtual_def del: of_nat_mult)
  then show ?thesis
    using nr unfolding install_mapping_def Let_def directory_entry [OF core] find_page_table_def
    by (simp add: PAGE_PRESENT_def table_ready_def)
qed

section \<open>The terminal does not disturb paging\<close>

lemma pg_inv_vga:
  fixes s :: "'a pg_scheme"
  assumes "vga_rest s' = vga_rest s"
  shows "pg_inv s' = pg_inv s" "address_space s' = address_space s" "used_pages s' = used_pages s"
    "candidates n s' = candidates n s" "table_ready p s' = table_ready p s"
proof -
  have f: "mem s' = mem s" "cr0 s' = cr0 s" "cr3 s' = cr3 s" "tlb s' = tlb s" "pageBitMap s' = pageBitMap s"
    "freePages s' = freePages s" "pageDirectory s' = pageDirectory s" "firstPageTable s' = firstPageTable s"
    using arg_cong [OF assms, of mem] arg_cong [OF assms, of cr0] arg_cong [OF assms, of cr3] arg_cong [OF assms, of tlb]
      arg_cong [OF assms, of pageBitMap] arg_cong [OF assms, of freePages] arg_cong [OF assms, of pageDirectory]
      arg_cong [OF assms, of firstPageTable]
    by (simp_all add: vga_rest_def)
  show u: "used_pages s' = used_pages s" "candidates n s' = candidates n s"
    by (simp_all add: used_pages_def candidates_def free_pages_def page_used_def f)
  show "pg_inv s' = pg_inv s" "address_space s' = address_space s" "table_ready p s' = table_ready p s"
    by (simp_all add: pg_inv_def pg_core_def tlb_coherent_def phys_inv_def free_pages_def page_used_def u f
        address_space_def table_ready_def)
qed

lemma vga_inv_frame [simp]:
  "vga_inv (s\<lparr>mem := m\<rparr>) = vga_inv s" "vga_inv (s\<lparr>tlb := t\<rparr>) = vga_inv s"
  by (simp_all add: vga_inv_def screen_shows_window_def max_viewport_def)

lemma vga_inv_paging [simp]:
  "vga_inv (paging_invalidate_page va s) = vga_inv s" "vga_inv (take_page p t) = vga_inv t"
  by (simp_all add: paging_invalidate_page_def take_page_def vga_inv_def screen_shows_window_def max_viewport_def)

lemma paging_map_messages:
  "\<exists>t. fmt_text ''0x'' (''paging_map: VA=%x PA=%x'' @ [CHR 0x0A]) [ArgInt a, ArgInt b] = Some t"
  "\<exists>t. fmt_text ''0x'' (''paging_map: VA valid=%d PA valid=%d'' @ [CHR 0x0A]) [ArgInt a, ArgInt b] = Some t"
  "\<exists>t. fmt_text ''0x'' (''paging_map: INVALID VIRTUAL'' @ [CHR 0x0A]) [] = Some t"
  "\<exists>t. fmt_text ''0x'' (''paging_map: INVALID PHYSICAL'' @ [CHR 0x0A]) [] = Some t"
  by simp_all

lemma fvga_write_log:
  assumes "vga_inv s" "\<exists>t. fmt_text ''0x'' fmt args = Some t"
  shows "\<exists>n s'. fvga_write fmt args s = Some (n, s') \<and> vga_inv s' \<and> vga_rest s' = vga_rest s"
  using assms fvga_write_shown by (auto simp: vga_shown_def) blast

lemma valid_dvd: "page_address_valid a \<longleftrightarrow> 4096 dvd unat a"
  using unat_and_page_offset [of a] by (simp add: page_address_valid_def unat_inj dvd_eq_mod_eq_0)

text \<open>\<^verbatim>\<open>paging_map\<close> is \<open>install_mapping\<close> behind its messages and checks.\<close>

lemma paging_map_install:
  assumes "vga_inv s"
  shows "\<exists>s1. vga_inv s1 \<and> vga_rest s1 = vga_rest s \<and>
    paging_map va pa fl s = (if 4096 dvd unat va \<and> 4096 dvd unat pa then install_mapping va pa fl s1 else Some (-1, s1))"
proof -
  obtain n1 s1 where s1: "fvga_write (''paging_map: VA=%x PA=%x'' @ [CHR 0x0A]) [ArgInt va, ArgInt pa] s = Some (n1, s1)"
      "vga_inv s1" "vga_rest s1 = vga_rest s"
    using fvga_write_log [OF assms paging_map_messages(1)] by metis
  obtain n2 s2 where s2: "fvga_write (''paging_map: VA valid=%d PA valid=%d'' @ [CHR 0x0A])
      [ArgInt (c_bool (page_address_valid va)), ArgInt (c_bool (page_address_valid pa))] s1 = Some (n2, s2)"
      "vga_inv s2" "vga_rest s2 = vga_rest s"
    using fvga_write_log [OF s1(2) paging_map_messages(2)] s1(3) by metis
  obtain n3 s3 where s3: "fvga_write (''paging_map: INVALID VIRTUAL'' @ [CHR 0x0A]) [] s2 = Some (n3, s3)"
      "vga_inv s3" "vga_rest s3 = vga_rest s"
    using fvga_write_log [OF s2(2) paging_map_messages(3)] s2(3) by metis
  obtain n4 s4 where s4: "fvga_write (''paging_map: INVALID PHYSICAL'' @ [CHR 0x0A]) [] s2 = Some (n4, s4)"
      "vga_inv s4" "vga_rest s4 = vga_rest s"
    using fvga_write_log [OF s2(2) paging_map_messages(4)] s2(3) by metis
  note run = paging_map_def [of va pa fl s, unfolded s1(1) bind.bind_lunit case_prod_conv s2(1)]
  show ?thesis
  proof (cases "4096 dvd unat va")
    case False
    then have "paging_map va pa fl s = Some (-1, s3)"
      unfolding run using s3(1) by (simp add: valid_dvd)
    with False s3(2,3) show ?thesis by (intro exI [of _ s3]) simp
  next
    case va: True
    show ?thesis
    proof (cases "4096 dvd unat pa")
      case False
      then have "paging_map va pa fl s = Some (-1, s4)"
        unfolding run using s4(1) va by (simp add: valid_dvd)
      with False s4(2,3) show ?thesis by (intro exI [of _ s4]) simp
    next
      case True
      then have "paging_map va pa fl s = install_mapping va pa fl s2"
        unfolding run using va by (simp add: valid_dvd)
      with True va s2(2,3) show ?thesis by (intro exI [of _ s2]) simp
    qed
  qed
qed

lemma install_cases:
  assumes inv: "pg_inv s"
    and room: "table_ready (frame va) s \<or> candidates 256 s = {} \<or> Min (candidates 256 s) < 1024"
  shows "\<exists>r s'. install_mapping va pa fl s = Some (r, s') \<and> pg_inv s' \<and> vga_inv s' = vga_inv s \<and>
    (if address_space s (frame va) \<noteq> None then r = -3 \<and> address_space s' = address_space s
     else if \<not> table_ready (frame va) s \<and> candidates 256 s = {} then r = -2 \<and> address_space s' = address_space s
     else r = 0 \<and> address_space s' = (address_space s)(frame va \<mapsto> page_entry pa fl))"
proof -
  have core: "pg_core (used_pages s) s" using inv by (simp add: pg_inv_def)
  have sp: "address_space (paging_invalidate_page va t) = leaf (mem t) (frame (pageDirectory s))"
    if "cr3 t = cr3 s" for t :: "'a pg_scheme"
    using that core by (simp add: address_space_def pg_core_def)
  consider (taken) "address_space s (frame va) \<noteq> None"
    | (none) "address_space s (frame va) = None" "\<not> table_ready (frame va) s" "candidates 256 s = {}"
    | (there) "address_space s (frame va) = None" "table_ready (frame va) s"
    | (made) "address_space s (frame va) = None" "\<not> table_ready (frame va) s" "candidates 256 s \<noteq> {}" "Min (candidates 256 s) < 1024"
    using room by blast
  then show ?thesis
  proof cases
    case taken
    then show ?thesis using install_taken [OF inv taken] inv by simp
  next
    case none
    then show ?thesis using install_no_frame [OF inv none(2,3)] inv by simp
  next
    case there
    from install_in_table [OF inv there, of pa fl] obtain m' where m':
      "install_mapping va pa fl s = Some (0, paging_invalidate_page va (s\<lparr>mem := m'\<rparr>))"
      "pg_inv (paging_invalidate_page va (s\<lparr>mem := m'\<rparr>))"
      "leaf m' (frame (pageDirectory s)) = (leaf (mem s) (frame (pageDirectory s)))(frame va \<mapsto> page_entry pa fl)"
      by (elim exE conjE)
    have "address_space (paging_invalidate_page va (s\<lparr>mem := m'\<rparr>)) = (address_space s)(frame va \<mapsto> page_entry pa fl)"
      using sp [of "s\<lparr>mem := m'\<rparr>"] m'(3) core_space [OF core] by simp
    with there m'(1,2) show ?thesis
      by (intro exI [of _ 0] exI [of _ "paging_invalidate_page va (s\<lparr>mem := m'\<rparr>)"]) simp
  next
    case made
    let ?F = "Min (candidates 256 s)"
    from install_new_table [OF inv made(2,3) refl made(4), of pa fl] obtain m' where m':
      "install_mapping va pa fl s = Some (0, paging_invalidate_page va ((take_page ?F s)\<lparr>mem := m'\<rparr>))"
      "pg_inv (paging_invalidate_page va ((take_page ?F s)\<lparr>mem := m'\<rparr>))"
      "leaf m' (frame (pageDirectory s)) = (leaf (mem s) (frame (pageDirectory s)))(frame va \<mapsto> page_entry pa fl)"
      by (elim exE conjE)
    have "address_space (paging_invalidate_page va ((take_page ?F s)\<lparr>mem := m'\<rparr>)) = (address_space s)(frame va \<mapsto> page_entry pa fl)"
      using sp [of "(take_page ?F s)\<lparr>mem := m'\<rparr>"] m'(3) core_space [OF core] by simp
    with made m'(1,2) show ?thesis
      by (intro exI [of _ 0] exI [of _ "paging_invalidate_page va ((take_page ?F s)\<lparr>mem := m'\<rparr>)"]) simp
  qed
qed

lemma paging_map_spec:
  assumes inv: "pg_inv s" and vga: "vga_inv s"
    and room: "table_ready (frame va) s \<or> candidates 256 s = {} \<or> Min (candidates 256 s) < 1024"
  shows "\<exists>r s'. paging_map va pa fl s = Some (r, s') \<and> pg_inv s' \<and> vga_inv s' \<and>
    (if \<not> (4096 dvd unat va \<and> 4096 dvd unat pa) then r = -1 \<and> address_space s' = address_space s
     else if address_space s (frame va) \<noteq> None then r = -3 \<and> address_space s' = address_space s
     else if \<not> table_ready (frame va) s \<and> candidates 256 s = {} then r = -2 \<and> address_space s' = address_space s
     else r = 0 \<and> address_space s' = (address_space s)(frame va \<mapsto> page_entry pa fl))"
proof -
  obtain s1 where s1: "vga_inv s1" "vga_rest s1 = vga_rest s"
    "paging_map va pa fl s = (if 4096 dvd unat va \<and> 4096 dvd unat pa then install_mapping va pa fl s1 else Some (-1, s1))"
    using paging_map_install [OF vga] by metis
  note same = pg_inv_vga [OF s1(2)]
  show ?thesis
  proof (cases "4096 dvd unat va \<and> 4096 dvd unat pa")
    case False
    then have "paging_map va pa fl s = Some (-1, s1)" by (simp only: s1(3) if_False)
    with False show ?thesis using inv same(1,2) s1(1) by (intro exI [of _ "-1"] exI [of _ s1]) simp
  next
    case True
    have "pg_inv s1" using inv same(1) by simp
    from install_cases [OF this, of va pa fl] room True s1(1) show ?thesis
      unfolding s1(3) same by simp
  qed
qed

lemma frame_page_entry: "frame (page_entry pa fl) = frame pa"
proof -
  have 1: "drop_bit 12 (NOT PAGE_ADDRESS_MASK) = 0" "drop_bit 12 PAGE_PRESENT = 0"
    by (simp_all add: PAGE_ADDRESS_MASK_def PAGE_PRESENT_def)
  have "unat (drop_bit 12 (pa AND PAGE_ADDRESS_MASK)) = unat (drop_bit 12 pa)"
    using frame_of_nat [OF frame_bound, of pa] mask_frame [of pa] by (simp only: drop_bit_frame)
  then show ?thesis unfolding page_entry_def drop_bit_frame using 1 by (simp add: bit.conj_disj_distrib)
qed

text \<open>Accesses inside a mapped page reach the frame of its entry at the same offset.\<close>

lemma mapped_access:
  assumes "pg_inv s" "address_space s (frame va) = Some e"
  shows "translate va s = Some (of_nat (4096 * frame e) + PAGE_OFFSET va)"
  using core_translate [of "used_pages s" s va] assms by (simp add: pg_inv_def mask_frame)

lemma high_page: "0x400000 \<le> unat va \<longleftrightarrow> 1024 \<le> frame va"
  by (simp add: frame_def less_eq_div_iff_mult_less_eq)

lemma paging_unmap_spec:
  assumes inv: "pg_inv s" and high: "0x400000 \<le> unat va"
  shows "\<exists>r s'. paging_unmap va s = Some (r, s') \<and> pg_inv s' \<and> vga_inv s' = vga_inv s \<and> used_pages s' = used_pages s \<and>
    (if \<not> 4096 dvd unat va then r = -1 \<and> s' = s
     else if \<not> table_ready (frame va) s then r = -2 \<and> s' = s
     else if address_space s (frame va) = None then r = -3 \<and> s' = s
     else r = 0 \<and> address_space s' = (address_space s)(frame va := None))"
proof -
  let ?D = "frame (pageDirectory s)"
  have core: "pg_core (used_pages s) s" using inv by (simp add: pg_inv_def)
  show ?thesis
  proof (cases "4096 dvd unat va \<and> table_ready (frame va) s \<and> address_space s (frame va) \<noteq> None")
    case False
    have "paging_unmap va s = Some (if \<not> 4096 dvd unat va then -1 else if \<not> table_ready (frame va) s then -2 else -3, s)"
    proof (cases "4096 dvd unat va \<and> table_ready (frame va) s")
      case True
      then have pr: "tbl (mem s) ?D (frame va div 1024) AND 1 \<noteq> 0" by (simp add: table_ready_def)
      show ?thesis
        unfolding paging_unmap_def Let_def directory_entry [OF core] mask_entry_frame
        using True False served_page [OF core pr]
        by (simp add: valid_dvd table_ready_def PAGE_PRESENT_def del: of_nat_mult split: if_splits)
    next
      case nr: False
      then show ?thesis
        unfolding paging_unmap_def Let_def directory_entry [OF core]
        by (auto simp: valid_dvd table_ready_def PAGE_PRESENT_def)
    qed
    with False inv show ?thesis by auto
  next
    case True
    have p: "1024 \<le> frame va" using high by (simp add: high_page)
    have pr: "tbl (mem s) ?D (frame va div 1024) AND 1 \<noteq> 0" using True by (simp add: table_ready_def)
    note sp = served_page [OF core pr]
    let ?F = "frame (tbl (mem s) ?D (frame va div 1024))"
    define m' where "m' = store32 (mem s) (tbl_addr ?F (frame va mod 1024)) 0"
    note set = tables_set [OF core_tables [OF core] p frame_bound pr, of 0, folded m'_def]
    have "paging_unmap va s = Some (0, paging_invalidate_page va (s\<lparr>mem := m'\<rparr>))"
      unfolding paging_unmap_def Let_def directory_entry [OF core] mask_entry_frame
      using True pr sp core_write [OF core sp(1), of "frame va mod 1024" 0]
      by (simp add: valid_dvd PAGE_PRESENT_def m'_def del: of_nat_mult split: if_splits)
    moreover have core': "pg_core (used_pages s) (paging_invalidate_page va (s\<lparr>mem := m'\<rparr>))"
      by (rule core_invalidate [OF core set(1)]) (simp add: set(2))
    moreover have "address_space (paging_invalidate_page va (s\<lparr>mem := m'\<rparr>)) = (address_space s)(frame va := None)"
      using core set(2) by (simp add: address_space_def pg_core_def)
    ultimately show ?thesis using inv True by (auto simp: pg_inv_def)
  qed
qed

section \<open>Switching paging on\<close>

text \<open>A directory whose only entry leads to a table with the identity mapping.\<close>

lemma identity_tables:
  assumes b: "D < 256" "T < 256" "D \<noteq> T" and dir: "\<And>i. i < 1024 \<Longrightarrow> tbl m D i = 0" and ident: "\<And>i. i < 1024 \<Longrightarrow> tbl m T i = entry i"
  defines "m' \<equiv> store32 m (tbl_addr D 0) (entry T)"
  shows "tables m' D T U" "leaf m' D = (\<lambda>p. if p < 1024 then Some (entry p) else None)" "\<And>i. 0 < i \<Longrightarrow> i < 1024 \<Longrightarrow> tbl m' D i = 0"
    "changes_only {4096 * D..<4096 * D + 4096} m m'"
proof -
  have st: "tbl m' f i = (if D = f \<and> 0 = i then entry T else tbl m f i)" if "f < 1024" "i < 1024" for f i
    unfolding m'_def by (rule tbl_store) (use b that in auto)
  show t: "tables m' D T U"
    unfolding tables_def using b st [of D] st [of T] dir ident by (auto split: if_splits)
  show "leaf m' D = (\<lambda>p. if p < 1024 then Some (entry p) else None)"
  proof
    fix p show "leaf m' D p = (if p < 1024 then Some (entry p) else None)"
    proof (cases "p < 1024")
      case False
      then show ?thesis using st [of D "p div 1024"] dir [of "p div 1024"] b(1)
        by (auto simp: leaf_def less_mult_imp_div_less div_greater_zero_iff)
    qed (use leaf_identity [OF t] in simp)
  qed
  show "tbl m' D i = 0" if "0 < i" "i < 1024" for i using st [of D] dir b(1) that by auto
  show "changes_only {4096 * D..<4096 * D + 4096} m m'"
    unfolding m'_def tbl_addr_def by (rule changes_only_mono [OF changes_only_store32]) (use b in auto)
qed

lemma paging_init_spec:
  fixes s :: "'a pg_scheme"
  assumes off: "cr0 s AND PG_BIT = 0"
    and al: "4096 dvd unat (pageDirectory s)" "4096 dvd unat (firstPageTable s)"
    and low: "frame (pageDirectory s) < 256" "frame (firstPageTable s) < 256" "pageDirectory s \<noteq> firstPageTable s"
    and phys: "phys_inv s" "{..<512} \<subseteq> used_pages s"
  shows "\<exists>m'. paging_init s = Some (paging_enable (paging_load_cr3 (pageDirectory s) (s\<lparr>mem := m'\<rparr>))) \<and>
    pg_inv (paging_enable (paging_load_cr3 (pageDirectory s) (s\<lparr>mem := m'\<rparr>))) \<and>
    leaf m' (frame (pageDirectory s)) = (\<lambda>p. if p < 1024 then Some (entry p) else None) \<and>
    (\<forall>i. 0 < i \<and> i < 1024 \<longrightarrow> tbl m' (frame (pageDirectory s)) i = 0) \<and>
    changes_only ({4096 * frame (pageDirectory s)..<4096 * frame (pageDirectory s) + 4096} \<union>
      {4096 * frame (firstPageTable s)..<4096 * frame (firstPageTable s) + 4096}) (mem s) m'"
proof -
  define D where "D = frame (pageDirectory s)"
  define T where "T = frame (firstPageTable s)"
  have pd: "pageDirectory s = of_nat (4096 * D)" "firstPageTable s = of_nat (4096 * T)"
    unfolding D_def T_def by (rule aligned_frame [OF al(1)] aligned_frame [OF al(2)])+
  have b: "D < 256" "T < 256" using low(1,2) by (simp_all only: D_def T_def)
  have "D \<noteq> T" using low(3) pd by metis
  note b = b this
  have w: "write32 a v (s\<lparr>mem := m\<rparr>) = Some (s\<lparr>mem := store32 m a v\<rparr>)" for a v m
    using off by (simp add: write32_def translate_def)
  have "\<exists>m'. for_each (\<lambda>i s. write32 (elem (pageDirectory s) (of_nat i)) ((\<lambda>_. 0) i) s) [0..<1024] s = Some (s\<lparr>mem := m'\<rparr>) \<and>
      changes_only {4096 * D..<4096 * D + 4096} (mem s) m' \<and> (\<forall>i < 1024. tbl m' D i = (\<lambda>_. 0) i)"
    by (rule fill_table [where base = pageDirectory]) (use b(1) pd(1) w in simp_all)
  then obtain m1 where m1: "for_each (\<lambda>i s. write32 (elem (pageDirectory s) (of_nat i)) 0 s) [0..<1024] s = Some (s\<lparr>mem := m1\<rparr>)"
      "changes_only {4096 * D..<4096 * D + 4096} (mem s) m1" "\<forall>i < 1024. tbl m1 D i = 0"
    by (elim exE conjE)
  let ?s1 = "s\<lparr>mem := m1\<rparr>" and ?g = "\<lambda>i. (of_nat i * PAGE_SIZE) OR PAGE_PRESENT OR PAGE_WRITABLE"
  have "\<exists>m'. for_each (\<lambda>i s. write32 (elem (firstPageTable s) (of_nat i)) (?g i) s) [0..<1024] ?s1 = Some (?s1\<lparr>mem := m'\<rparr>) \<and>
      changes_only {4096 * T..<4096 * T + 4096} (mem ?s1) m' \<and> (\<forall>i < 1024. tbl m' T i = ?g i)"
    by (rule fill_table [where base = firstPageTable]) (use b(2) pd(2) w in simp_all)
  then obtain m2 where m2: "for_each (\<lambda>i s. write32 (elem (firstPageTable s) (of_nat i)) (?g i) s) [0..<1024] ?s1 = Some (?s1\<lparr>mem := m2\<rparr>)"
      "changes_only {4096 * T..<4096 * T + 4096} (mem ?s1) m2" "\<forall>i < 1024. tbl m2 T i = ?g i"
    by (elim exE conjE)
  have fill: "fill_first_table ?s1 = Some (s\<lparr>mem := m2\<rparr>)"
    using m2(1) by (simp add: fill_first_table_def PAGE_TABLE_ENTRIES_def)
  have ident: "tbl m2 T i = entry i" if "i < 1024" for i
    using m2(3) that by (simp add: entry_def PAGE_PRESENT_def PAGE_WRITABLE_def mult.commute)
  define m3 where "m3 = store32 m2 (tbl_addr D 0) (entry T)"
  have e: "firstPageTable s OR PAGE_PRESENT OR PAGE_WRITABLE = entry T"
    unfolding pd(2) entry_def by (simp add: PAGE_PRESENT_def PAGE_WRITABLE_def)
  have D2: "tbl m2 D i = 0" if "i < 1024" for i
  proof -
    have "D < T \<or> T < D" using b(3) by auto
    then have "{4096 * D + 4 * i..<4096 * D + 4 * i + 4} \<inter> {4096 * T..<4096 * T + 4096} = {}" using that by auto
    then show ?thesis using tbl_changes_only [OF m2(2)] b(1) that m1(3) by simp
  qed
  note tabs = identity_tables [OF b D2 ident, folded m3_def]
  have "elem (pageDirectory s) 0 = tbl_addr D 0" using elem_of_nat [of D 0] by (simp add: pd)
  then have run: "paging_init s = Some (paging_enable (paging_load_cr3 (pageDirectory s) (s\<lparr>mem := m3\<rparr>)))"
    using m1(1) fill e w by (simp add: paging_init_def PAGE_DIRECTORY_ENTRIES_def m3_def)
  have "pg_inv (paging_enable (paging_load_cr3 (pageDirectory s) (s\<lparr>mem := m3\<rparr>)))"
    using phys tabs(1) al(1) by (simp add: pg_inv_def pg_core_def paging_enable_def paging_load_cr3_def tlb_coherent_def D_def T_def
        PG_BIT_def bit.conj_disj_distrib2 used_pages_def page_used_def phys_inv_def free_pages_def)
  moreover have "changes_only ({4096 * D..<4096 * D + 4096} \<union> {4096 * T..<4096 * T + 4096}) (mem s) m3"
    using m1(2) m2(2) tabs(4) by (auto simp: changes_only_def)
  ultimately show ?thesis using run tabs(2,3) unfolding D_def [symmetric] T_def [symmetric] by blast
qed

section \<open>The interface clients rely on\<close>

text \<open>Clients map and unmap pages; a request outside the contract (no room for a page table, or unmapping the
  kernel's own first 4 MiB) is skipped.\<close>

datatype map_op = MapPage u32 u32 u32 | UnmapPage u32

fun map_step :: "(u32 \<Rightarrow> u32 \<Rightarrow> u32 \<Rightarrow> 's \<Rightarrow> (int \<times> 's) option) \<Rightarrow> (u32 \<Rightarrow> 's \<Rightarrow> (int \<times> 's) option) \<Rightarrow>
    (u32 \<Rightarrow> 's \<Rightarrow> bool) \<Rightarrow> map_op \<Rightarrow> 's \<Rightarrow> 's option" where
  "map_step map_page unmap_page room (MapPage va pa fl) s =
     (if room va s then map_option snd (map_page va pa fl s) else Some s)"
| "map_step map_page unmap_page room (UnmapPage va) s =
     (if 0x400000 \<le> unat va then map_option snd (unmap_page va s) else Some s)"

fun op_page :: "map_op \<Rightarrow> nat" where
  "op_page (MapPage va pa fl) = frame va"
| "op_page (UnmapPage va) = frame va"

locale page_mapper =
  fixes map_page :: "u32 \<Rightarrow> u32 \<Rightarrow> u32 \<Rightarrow> 's \<Rightarrow> (int \<times> 's) option"
    and unmap_page :: "u32 \<Rightarrow> 's \<Rightarrow> (int \<times> 's) option"
    and inv :: "'s \<Rightarrow> bool"
    and space :: "'s \<Rightarrow> nat \<Rightarrow> u32 option"
    and room :: "u32 \<Rightarrow> 's \<Rightarrow> bool"
  assumes map_law: "inv s \<Longrightarrow> room va s \<Longrightarrow> \<exists>r s'. map_page va pa fl s = Some (r, s') \<and> inv s' \<and>
      (if r = 0 then 4096 dvd unat va \<and> space s (frame va) = None \<and> space s' = (space s)(frame va \<mapsto> page_entry pa fl)
       else space s' = space s)"
    and unmap_law: "inv s \<Longrightarrow> 0x400000 \<le> unat va \<Longrightarrow> \<exists>r s'. unmap_page va s = Some (r, s') \<and> inv s' \<and>
      (if r = 0 then space s' = (space s)(frame va := None) else space s' = space s) \<and>
      (4096 dvd unat va \<and> space s (frame va) \<noteq> None \<longrightarrow> r = 0)"
    and kernel_pages: "inv s \<Longrightarrow> p < 1024 \<Longrightarrow> space s p \<noteq> None"
begin

lemma map_unmap_restores:
  assumes "inv s" "room va s" "map_page va pa fl s = Some (0, s')"
  shows "\<exists>s''. unmap_page va s' = Some (0, s'') \<and> inv s'' \<and> space s'' = space s"
proof -
  from map_law [OF assms(1,2), of pa fl] assms(3) have m: "inv s'" "4096 dvd unat va" "space s (frame va) = None"
      "space s' = (space s)(frame va \<mapsto> page_entry pa fl)"
    by (auto split: if_splits)
  have high: "0x400000 \<le> unat va"
    using kernel_pages [OF assms(1), of "frame va"] m(3) high_page [of va] by linarith
  from unmap_law [OF m(1) high] m(2,4) obtain s'' where "unmap_page va s' = Some (0, s'')" "inv s''"
      "space s'' = (space s')(frame va := None)"
    by auto
  moreover have "(space s')(frame va := None) = space s" using m(3,4) by (simp add: fun_upd_idem)
  ultimately show ?thesis by simp
qed

lemma map_step_keeps:
  assumes "inv s"
  shows "\<exists>s'. map_step map_page unmap_page room x s = Some s' \<and> inv s' \<and>
    (\<forall>p. p < 1024 \<or> p \<noteq> op_page x \<longrightarrow> space s' p = space s p)"
proof (cases x)
  case (MapPage va pa fl)
  show ?thesis
  proof (cases "room va s")
    case True
    from map_law [OF assms True, of pa fl] obtain r s' where "map_page va pa fl s = Some (r, s')" "inv s'"
        "if r = 0 then 4096 dvd unat va \<and> space s (frame va) = None \<and> space s' = (space s)(frame va \<mapsto> page_entry pa fl)
         else space s' = space s"
      by metis
    with True MapPage kernel_pages [OF assms, of "frame va"] show ?thesis by (auto split: if_splits)
  qed (use assms MapPage in simp)
next
  case (UnmapPage va)
  show ?thesis
  proof (cases "0x400000 \<le> unat va")
    case True
    then have "1024 \<le> frame va" by (simp add: high_page)
    moreover from unmap_law [OF assms True] obtain r s' where "unmap_page va s = Some (r, s')" "inv s'"
        "if r = 0 then space s' = (space s)(frame va := None) else space s' = space s"
      by metis
    ultimately show ?thesis using True UnmapPage by (auto split: if_splits)
  qed (use assms UnmapPage in simp)
qed

lemma map_run_keeps:
  "inv s \<Longrightarrow> \<exists>s'. for_each (map_step map_page unmap_page room) xs s = Some s' \<and> inv s' \<and>
    (\<forall>p. p < 1024 \<or> p \<notin> op_page ` set xs \<longrightarrow> space s' p = space s p)"
proof (induction xs arbitrary: s)
  case (Cons x xs)
  from map_step_keeps [OF Cons.prems, of x] obtain s1 where s1: "map_step map_page unmap_page room x s = Some s1" "inv s1"
      "\<forall>p. p < 1024 \<or> p \<noteq> op_page x \<longrightarrow> space s1 p = space s p"
    by metis
  from Cons.IH [OF s1(2)] obtain s' where "for_each (map_step map_page unmap_page room) xs s1 = Some s'" "inv s'"
      "\<forall>p. p < 1024 \<or> p \<notin> op_page ` set xs \<longrightarrow> space s' p = space s1 p"
    by metis
  with s1 show ?case by auto
qed simp

end

definition table_room :: "u32 \<Rightarrow> 'a pg_scheme \<Rightarrow> bool" where
  "table_room va s \<longleftrightarrow> table_ready (frame va) s \<or> candidates 256 s = {} \<or> Min (candidates 256 s) < 1024"

definition paging_ok :: "'a pg_scheme \<Rightarrow> bool" where
  "paging_ok s \<longleftrightarrow> pg_inv s \<and> vga_inv s"

interpretation kernel_paging: page_mapper paging_map paging_unmap paging_ok address_space table_room
proof
  fix s :: "'a pg_scheme" and va pa fl
  assume ok: "paging_ok s" and room: "table_room va s"
  obtain r s' where r: "paging_map va pa fl s = Some (r, s')" "pg_inv s'" "vga_inv s'"
    "if \<not> (4096 dvd unat va \<and> 4096 dvd unat pa) then r = -1 \<and> address_space s' = address_space s
     else if address_space s (frame va) \<noteq> None then r = -3 \<and> address_space s' = address_space s
     else if \<not> table_ready (frame va) s \<and> candidates 256 s = {} then r = -2 \<and> address_space s' = address_space s
     else r = 0 \<and> address_space s' = (address_space s)(frame va \<mapsto> page_entry pa fl)"
    using paging_map_spec [of s va pa fl] ok room unfolding paging_ok_def table_room_def by metis
  have "if r = 0 then 4096 dvd unat va \<and> address_space s (frame va) = None \<and>
        address_space s' = (address_space s)(frame va \<mapsto> page_entry pa fl) else address_space s' = address_space s"
    using r(4) by (auto split: if_splits)
  with r(1,2,3) show "\<exists>r s'. paging_map va pa fl s = Some (r, s') \<and> paging_ok s' \<and>
      (if r = 0 then 4096 dvd unat va \<and> address_space s (frame va) = None \<and>
        address_space s' = (address_space s)(frame va \<mapsto> page_entry pa fl) else address_space s' = address_space s)"
    unfolding paging_ok_def by metis
next
  fix s :: "'a pg_scheme" and va :: u32
  assume ok: "paging_ok s" and high: "0x400000 \<le> unat va"
  obtain r s' where r: "paging_unmap va s = Some (r, s')" "pg_inv s'" "vga_inv s' = vga_inv s"
    "if \<not> 4096 dvd unat va then r = -1 \<and> s' = s
     else if \<not> table_ready (frame va) s then r = -2 \<and> s' = s
     else if address_space s (frame va) = None then r = -3 \<and> s' = s
     else r = 0 \<and> address_space s' = (address_space s)(frame va := None)"
    using paging_unmap_spec [OF _ high, of s] ok unfolding paging_ok_def by metis
  have "address_space s (frame va) \<noteq> None \<Longrightarrow> table_ready (frame va) s"
    using ok space_ready unfolding paging_ok_def pg_inv_def by blast
  then have "(if r = 0 then address_space s' = (address_space s)(frame va := None) else address_space s' = address_space s) \<and>
      (4096 dvd unat va \<and> address_space s (frame va) \<noteq> None \<longrightarrow> r = 0)"
    using r(4) by (auto split: if_splits)
  with r(1,2,3) ok show "\<exists>r s'. paging_unmap va s = Some (r, s') \<and> paging_ok s' \<and>
      (if r = 0 then address_space s' = (address_space s)(frame va := None) else address_space s' = address_space s) \<and>
      (4096 dvd unat va \<and> address_space s (frame va) \<noteq> None \<longrightarrow> r = 0)"
    unfolding paging_ok_def by metis
next
  fix s :: "'a pg_scheme" and p :: nat
  assume ok: "paging_ok s" and p: "p < 1024"
  have core: "pg_core (used_pages s) s" using ok by (simp add: paging_ok_def pg_inv_def)
  show "address_space s p \<noteq> None"
    using leaf_identity [OF core_tables [OF core] p] core_space [OF core] by simp
qed


section \<open>Properties\<close>

text \<open>A kernel that has set up its page allocator and its terminal, with the directory at 64 KiB and the first
  table behind it, before and after \<^verbatim>\<open>paging_init\<close>.\<close>

definition pg_loaded :: pg where
  "pg_loaded = \<lparr>eflags = 0, mem = (\<lambda>_. 0), cr0 = 1, cr3 = 0, tlb = (\<lambda>_. None), port_in = (\<lambda>_ _. 0),
     in_count = 0, out_trace = [], terminalBuffer = (\<lambda>_ _. 0), cursorX = 0, cursorY = 0, viewportY = 0,
     renderPending = False, vgaColor = 0, vgaMem = (\<lambda>_. 0), pageBitMap = pageBitMap phys_booted,
     freePages = freePages phys_booted, head = 0, pageDirectory = 0x10000, firstPageTable = 0x11000\<rparr>"

definition pg_booted :: pg where
  "pg_booted = the (paging_init pg_loaded)"

lemma pg_loaded:
  "cr0 pg_loaded AND PG_BIT = 0" "pageDirectory pg_loaded = 0x10000" "firstPageTable pg_loaded = 0x11000"
  "phys_inv pg_loaded" "{..<512} \<subseteq> used_pages pg_loaded" "candidates 256 pg_loaded = candidates 256 phys_booted"
  "vga_inv pg_loaded" "mem pg_loaded = (\<lambda>_. 0)"
proof -
  have f: "free_pages pg_loaded = free_pages phys_booted" "used_pages pg_loaded = used_pages phys_booted"
    by (simp_all add: free_pages_def used_pages_def page_used_def pg_loaded_def)
  show "phys_inv pg_loaded" using phys_booted(2) by (simp add: phys_inv_def f) (simp add: pg_loaded_def)
  show "{..<512} \<subseteq> used_pages pg_loaded" unfolding f phys_booted(3) by (rule subset_refl)
  show "candidates 256 pg_loaded = candidates 256 phys_booted" by (simp add: candidates_def f)
qed (simp_all add: pg_loaded_def PG_BIT_def vga_inv_def screen_shows_window_def max_viewport_def vga_dims)

lemma pg_loaded_frames: "frame (pageDirectory pg_loaded) = 16" "frame (firstPageTable pg_loaded) = 17"
  by (simp_all add: pg_loaded(2,3) frame_def)

lemma pg_booted:
  "paging_init pg_loaded = Some pg_booted" "pg_inv pg_booted" "vga_inv pg_booted"
  "address_space pg_booted = (\<lambda>p. if p < 1024 then Some (entry p) else None)"
  "candidates 256 pg_booted = candidates 256 phys_booted" "\<not> table_ready 1024 pg_booted" "used_pages pg_booted = {..<512}"
proof -
  from paging_init_spec [of pg_loaded] obtain m' where m': "paging_init pg_loaded = Some (paging_enable (paging_load_cr3 0x10000 (pg_loaded\<lparr>mem := m'\<rparr>)))"
      "pg_inv (paging_enable (paging_load_cr3 0x10000 (pg_loaded\<lparr>mem := m'\<rparr>)))"
      "leaf m' 16 = (\<lambda>p. if p < 1024 then Some (entry p) else None)" "tbl m' 16 1 = 0"
    using pg_loaded pg_loaded_frames by auto
  then have b: "pg_booted = paging_enable (paging_load_cr3 0x10000 (pg_loaded\<lparr>mem := m'\<rparr>))" by (simp add: pg_booted_def)
  show "paging_init pg_loaded = Some pg_booted" "pg_inv pg_booted" using m' b by simp_all
  show "vga_inv pg_booted"
    unfolding b using pg_loaded(7)
    by (auto simp: paging_enable_def paging_load_cr3_def vga_inv_def screen_shows_window_def max_viewport_def)
  show "candidates 256 pg_booted = candidates 256 phys_booted"
    unfolding b pg_loaded(6) [symmetric]
    by (simp add: paging_enable_def paging_load_cr3_def candidates_def free_pages_def page_used_def)
  show "used_pages pg_booted = {..<512}"
    unfolding b phys_booted(3) [symmetric]
    by (simp add: paging_enable_def paging_load_cr3_def used_pages_def page_used_def pg_loaded_def)
  show "address_space pg_booted = (\<lambda>p. if p < 1024 then Some (entry p) else None)"
    using m'(3) by (simp add: b address_space_def paging_enable_def paging_load_cr3_def frame_def)
  show "\<not> table_ready 1024 pg_booted"
    using m'(4) pg_loaded_frames(1) by (simp add: table_ready_def b paging_enable_def paging_load_cr3_def)
qed

text \<open>C22. \<^verbatim>\<open>paging_init\<close>, on a machine with paging off whose directory and first table are distinct page-aligned
  arrays in low memory, switches paging on with exactly the first 4 MiB mapped to themselves, so that
  every kernel address below 4 MiB means the same byte before and after; it writes only these two pages.\<close>

theorem paging_init_identity:
  assumes "cr0 s AND PG_BIT = 0" "4096 dvd unat (pageDirectory s)" "4096 dvd unat (firstPageTable s)"
    and "frame (pageDirectory s) < 256" "frame (firstPageTable s) < 256" "pageDirectory s \<noteq> firstPageTable s"
    and "phys_inv s" "{..<512} \<subseteq> used_pages s"
  shows "\<exists>s'. paging_init s = Some s' \<and> pg_inv s' \<and>
    address_space s' = (\<lambda>p. if p < 1024 then Some (entry p) else None) \<and>
    (\<forall>va. translate va s' = (if unat va < 0x400000 then Some va else None)) \<and>
    changes_only ({4096 * frame (pageDirectory s)..<4096 * frame (pageDirectory s) + 4096} \<union>
      {4096 * frame (firstPageTable s)..<4096 * frame (firstPageTable s) + 4096}) (mem s) (mem s')"
proof -
  obtain m' where m': "paging_init s = Some (paging_enable (paging_load_cr3 (pageDirectory s) (s\<lparr>mem := m'\<rparr>)))"
    "pg_inv (paging_enable (paging_load_cr3 (pageDirectory s) (s\<lparr>mem := m'\<rparr>)))"
    "leaf m' (frame (pageDirectory s)) = (\<lambda>p. if p < 1024 then Some (entry p) else None)"
    "changes_only ({4096 * frame (pageDirectory s)..<4096 * frame (pageDirectory s) + 4096} \<union>
      {4096 * frame (firstPageTable s)..<4096 * frame (firstPageTable s) + 4096}) (mem s) m'"
    using paging_init_spec [OF assms] by (elim exE conjE)
  let ?s = "paging_enable (paging_load_cr3 (pageDirectory s) (s\<lparr>mem := m'\<rparr>))"
  have core: "pg_core (used_pages ?s) ?s" using m'(2) by (simp add: pg_inv_def)
  have sp: "address_space ?s = (\<lambda>p. if p < 1024 then Some (entry p) else None)"
    using m'(3) by (simp add: address_space_def paging_enable_def paging_load_cr3_def)
  have "translate va ?s = (if unat va < 0x400000 then Some va else None)" for va
    using core_identity [OF core, of va] core_translate [OF core, of va] high_page [of va] by (auto simp: sp)
  moreover have "mem ?s = m'" by (simp add: paging_enable_def paging_load_cr3_def)
  ultimately show ?thesis using m'(1,2,4) sp by (intro exI [of _ ?s]) simp
qed

theorem paging_init_identity_witness:
  "\<exists>s'. paging_init pg_loaded = Some s' \<and> pg_inv s' \<and> translate 0xB8000 s' = Some 0xB8000 \<and> translate 0x400000 s' = None"
proof -
  have "\<exists>s'. paging_init pg_loaded = Some s' \<and> pg_inv s' \<and>
      address_space s' = (\<lambda>p. if p < 1024 then Some (entry p) else None) \<and>
      (\<forall>va. translate va s' = (if unat va < 0x400000 then Some va else None)) \<and>
      changes_only ({4096 * frame (pageDirectory pg_loaded)..<4096 * frame (pageDirectory pg_loaded) + 4096} \<union>
        {4096 * frame (firstPageTable pg_loaded)..<4096 * frame (firstPageTable pg_loaded) + 4096}) (mem pg_loaded) (mem s')"
    by (rule paging_init_identity; (unfold pg_loaded_frames)?; (simp add: pg_loaded(1-5))?)
  then show ?thesis by auto
qed



text \<open>C32. \<^verbatim>\<open>paging_unmap\<close> of a page above the kernel's 4 MiB, on every branch: -1 for an address that is not page-aligned,
  -2 when the region has no page table and -3 when the page is not mapped, with the state unchanged;
  otherwise 0, after which exactly that page is unmapped, accesses to it fault, and the lookaside buffer
  holds no stale translation, whatever it held before.\<close>

theorem paging_unmap_cases:
  assumes "pg_inv s" "0x400000 \<le> unat va"
  shows "\<exists>r s'. paging_unmap va s = Some (r, s') \<and> pg_inv s' \<and>
    (if \<not> 4096 dvd unat va then r = -1 \<and> s' = s
     else if \<not> table_ready (frame va) s then r = -2 \<and> s' = s
     else if address_space s (frame va) = None then r = -3 \<and> s' = s
     else r = 0 \<and> address_space s' = (address_space s)(frame va := None)) \<and>
    (r = 0 \<longrightarrow> (\<forall>x. frame x = frame va \<longrightarrow> translate x s' = None))"
proof -
  obtain r s' where r: "paging_unmap va s = Some (r, s')" "pg_inv s'"
    "if \<not> 4096 dvd unat va then r = -1 \<and> s' = s
     else if \<not> table_ready (frame va) s then r = -2 \<and> s' = s
     else if address_space s (frame va) = None then r = -3 \<and> s' = s
     else r = 0 \<and> address_space s' = (address_space s)(frame va := None)"
    using paging_unmap_spec [OF assms] by (elim exE conjE)
  have "translate x s' = None" if "r = 0" "frame x = frame va" for x
  proof -
    have "address_space s' (frame x) = None" using r(3) that by (auto split: if_splits)
    then show ?thesis using core_translate [of "used_pages s'" s' x] r(2) by (simp add: pg_inv_def)
  qed
  with r show ?thesis by blast
qed

theorem paging_unmap_cases_witness:
  "pg_inv pg_booted \<and> paging_unmap 0x400000 pg_booted = Some (-2, pg_booted) \<and> paging_unmap 0x400001 pg_booted = Some (-1, pg_booted)"
  using paging_unmap_cases [OF pg_booted(2), of "0x400000"] paging_unmap_cases [OF pg_booted(2), of "0x400001"]
    pg_booted(2,6) by (auto simp: frame_def)

lemma pg_booted_maps:
  "paging_ok pg_booted \<and> table_room 0x400000 pg_booted \<and> (\<exists>s'. paging_map 0x400000 0x300000 PAGE_USER pg_booted = Some (0, s'))"
proof -
  have room: "table_room 0x400000 pg_booted"
    using phys_booted_min by (simp add: table_room_def pg_booted(5))
  with paging_map_spec [OF pg_booted(2,3) room [unfolded table_room_def], of "0x300000" PAGE_USER] show ?thesis
    using pg_booted(2,3) phys_booted_min by (auto simp: pg_booted(4,5) frame_def paging_ok_def)
qed



text \<open>C12. No sequence of maps (with room for their tables) and unmaps above 4 MiB faults or disturbs a page it does not
  name; in particular the kernel's identity mapping of the first 4 MiB survives all of them.\<close>

theorem paging_run_keeps_kernel:
  assumes "pg_inv s" "vga_inv s"
  shows "\<exists>s'. for_each (map_step paging_map paging_unmap table_room) ops s = Some s' \<and> pg_inv s' \<and>
    (\<forall>p. p < 1024 \<or> p \<notin> op_page ` set ops \<longrightarrow> address_space s' p = address_space s p) \<and>
    (\<forall>va. unat va < 0x400000 \<longrightarrow> translate va s' = Some va)"
proof -
  obtain s' where s': "for_each (map_step paging_map paging_unmap table_room) ops s = Some s'" "paging_ok s'"
      "\<forall>p. p < 1024 \<or> p \<notin> op_page ` set ops \<longrightarrow> address_space s' p = address_space s p"
    using kernel_paging.map_run_keeps [of s ops] assms unfolding paging_ok_def by metis
  have core: "pg_core (used_pages s') s'" using s'(2) by (simp add: paging_ok_def pg_inv_def)
  have "translate va s' = Some va" if "unat va < 0x400000" for va
    using core_identity [OF core, of va] that high_page [of va] by simp
  with s' show ?thesis by (auto simp: paging_ok_def)
qed

theorem paging_run_keeps_kernel_witness:
  "pg_inv pg_booted \<and> (\<exists>s'. for_each (map_step paging_map paging_unmap table_room)
      [MapPage 0x400000 0x300000 0, UnmapPage 0x400000, MapPage 0x800000 0 PAGE_WRITABLE] pg_booted = Some s' \<and>
    translate 0x100000 s' = Some 0x100000)"
  using paging_run_keeps_kernel [OF pg_booted(2,3),
      of "[MapPage 0x400000 0x300000 0, UnmapPage 0x400000, MapPage 0x800000 0 PAGE_WRITABLE]"] pg_booted(2)
  by auto

text \<open>C34. When a new page table is needed and the lowest free frame is not mapped (every frame from 4 MiB on, unless
  a client mapped it), \<^verbatim>\<open>paging_map\<close> does not return: clearing the new table faults.\<close>

theorem paging_map_faults:
  assumes "pg_inv s" "vga_inv s" "4096 dvd unat va" "4096 dvd unat pa" "\<not> table_ready (frame va) s"
    and "candidates 256 s \<noteq> {}" "address_space s (Min (candidates 256 s)) = None"
  shows "paging_map va pa fl s = None"
proof -
  obtain s1 where s1: "vga_rest s1 = vga_rest s"
    "paging_map va pa fl s = (if 4096 dvd unat va \<and> 4096 dvd unat pa then install_mapping va pa fl s1 else Some (-1, s1))"
    using paging_map_install [OF assms(2)] by metis
  note same = pg_inv_vga [OF s1(1)]
  from install_fault [of s1 va pa fl] assms same have "install_mapping va pa fl s1 = None" by simp
  with s1(2) assms(3,4) show ?thesis by simp
qed

text \<open>The same kernel after every frame below 4 MiB has been handed out.\<close>

definition pg_crowded :: pg where
  "pg_crowded = pg_booted\<lparr>pageBitMap := replicate 32 0xFFFFFFFF @ replicate 480 0, freePages := 15360\<rparr>"

lemma pg_crowded:
  "pg_inv pg_crowded" "vga_inv pg_crowded" "\<not> table_ready 1024 pg_crowded" "address_space pg_crowded = address_space pg_booted"
  "candidates 256 pg_crowded = {1024..<PAGES}"
proof -
  have bm: "page_used pg_crowded p \<longleftrightarrow> p < 1024" if "p < PAGES" for p
  proof -
    have "(0xFFFFFFFF :: u32) = - 1" by simp
    then have "bit (0xFFFFFFFF :: u32) (p mod 32)" by (simp only: bit_minus_1_iff) simp
    moreover have "p div 32 < 512" "p div 32 < 32 \<longleftrightarrow> p < 1024"
      using that by (simp_all add: PAGES_def div_less_iff_less_mult)
    ultimately show ?thesis by (auto simp: page_used_def pg_crowded_def nth_append)
  qed
  have used: "used_pages pg_crowded = {..<1024}"
    using bm by (auto simp: used_pages_def PAGES_def)
  have free: "free_pages pg_crowded = {1024..<PAGES}"
    by (rule set_eqI) (use bm in \<open>auto simp: free_pages_def simp del: atLeastLessThan_nat_numeral\<close>)
  show "candidates 256 pg_crowded = {1024..<PAGES}"
    unfolding candidates_def free by (auto simp del: atLeastLessThan_nat_numeral)
  have "freePages pg_crowded = 15360" "length (pageBitMap pg_crowded) = 512" by (simp_all add: pg_crowded_def)
  then have phys: "phys_inv pg_crowded" by (simp only: phys_inv_def free card_atLeastLessThan PAGES_def) simp
  have f: "mem pg_crowded = mem pg_booted" "cr0 pg_crowded = cr0 pg_booted" "cr3 pg_crowded = cr3 pg_booted"
    "tlb pg_crowded = tlb pg_booted" "pageDirectory pg_crowded = pageDirectory pg_booted"
    "firstPageTable pg_crowded = firstPageTable pg_booted"
    by (simp_all add: pg_crowded_def)
  have core: "pg_core (used_pages pg_booted) pg_booted" using pg_booted(2) by (simp add: pg_inv_def)
  have "used_pages pg_booted \<subseteq> used_pages pg_crowded"
    unfolding pg_booted(7) used by (simp add: lessThan_subset_iff)
  then have "pg_core (used_pages pg_crowded) pg_booted"
    using core tables_mono unfolding pg_core_def by blast
  then have "pg_core (used_pages pg_crowded) pg_crowded" by (rule core_other) (rule f)+
  moreover have "{..<512} \<subseteq> used_pages pg_crowded" unfolding used by (simp add: lessThan_subset_iff)
  ultimately show "pg_inv pg_crowded" using phys by (simp only: pg_inv_def simp_thms)
  show "vga_inv pg_crowded"
    using pg_booted(3) by (auto simp: pg_crowded_def vga_inv_def screen_shows_window_def max_viewport_def)
  show "address_space pg_crowded = address_space pg_booted" "\<not> table_ready 1024 pg_crowded"
    using pg_booted(6) by (simp_all add: address_space_def table_ready_def f)
qed

theorem paging_map_faults_witness:
  "pg_inv pg_crowded \<and> paging_map 0x400000 0x300000 PAGE_WRITABLE pg_crowded = None"
proof -
  have m: "candidates 256 pg_crowded \<noteq> {}" "Min (candidates 256 pg_crowded) = 1024"
    unfolding pg_crowded(5) PAGES_def by (simp_all add: Min_eq_iff del: atLeastLessThan_nat_numeral)
  have "paging_map 0x400000 0x300000 PAGE_WRITABLE pg_crowded = None"
    by (rule paging_map_faults [OF pg_crowded(1,2) _ _ _ m(1)])
      (use pg_crowded(3,4) pg_booted(4) m(2) in \<open>simp_all add: frame_def\<close>)
  with pg_crowded(1) show ?thesis by blast
qed

text \<open>C35. No page is ever accessible in user mode: whatever flags \<^verbatim>\<open>paging_map\<close> is given, the directory entry it makes
  lacks the user bit, which the processor also demands.\<close>

theorem paging_map_never_user:
  assumes "pg_inv s" "vga_inv s" "table_room va s" "paging_map va pa fl s = Some (r, s')"
  shows "\<not> user_accessible x s'"
proof -
  from kernel_paging.map_law [of s va pa fl] assms have "pg_inv s'" by (auto simp: paging_ok_def)
  then have core: "pg_core (used_pages s') s'" by (simp add: pg_inv_def)
  let ?e = "tbl (mem s') (frame (pageDirectory s')) (frame x div 1024)"
  have b: "frame x div 1024 < 1024" using frame_bound [of x] by (simp add: less_mult_imp_div_less)
  have "?e AND PAGE_USER = 0" if "?e AND PAGE_PRESENT \<noteq> 0"
  proof (cases "frame x div 1024 = 0")
    case True
    then show ?thesis using tablesD(4) [OF core_tables [OF core]] by (simp add: entry_not_user)
  next
    case False
    then have "?e = entry (frame ?e)"
      using tablesD(8) [OF core_tables [OF core] _ b] that by (simp add: PAGE_PRESENT_def)
    then show ?thesis using entry_not_user by metis
  qed
  moreover have "load32 (mem s') ((cr3 s' AND PAGE_ADDRESS_MASK) + 4 * PAGE_DIRECTORY_INDEX x) = ?e"
    using core by (simp add: entry_addr directory_index tbl_def pg_core_def)
  ultimately show ?thesis by (auto simp: user_accessible_def Let_def)
qed

theorem paging_map_never_user_witness:
  "\<exists>s'. paging_map 0x400000 0x300000 PAGE_USER pg_booted = Some (0, s') \<and> \<not> user_accessible 0x400000 s'"
proof -
  obtain s' where s': "paging_map 0x400000 0x300000 PAGE_USER pg_booted = Some (0, s')" and "table_room 0x400000 pg_booted"
    using pg_booted_maps by blast
  from paging_map_never_user [OF pg_booted(2,3) this(2) s'] s' show ?thesis by blast
qed

end
