(* ===== verification/Scheduler.thy ===== *)
theory Scheduler
  imports Paging
begin

text \<open>
  \<^verbatim>\<open>kernel/scheduler/scheduler.c\<close>: sixteen task slots, an idle task, and a round-robin scheduler driven by
  the timer and by two software interrupts. A \<^verbatim>\<open>task_t*\<close> is a reference to a slot or to the idle task. The
  addresses of the stacks, of \<^verbatim>\<open>task_exit\<close> and of \<^verbatim>\<open>idle_task_entry\<close> are chosen by the linker and kept in the
  record. The instructions \<^verbatim>\<open>int $49\<close> and \<^verbatim>\<open>int $50\<close> enter the interrupt dispatcher with the address of the
  saved registers; here they are the handlers they reach, applied to that address.

  The second half is the scheduler as a transition system: the events are the timer, a yield, an exit, a task
  marking itself blocked, creation and unblocking, in any order.
\<close>

section \<open>The code\<close>

definition MAX_TASKS :: nat where "MAX_TASKS = 16"
definition MAX_USER_TASKS :: nat where "MAX_USER_TASKS = MAX_TASKS - 1"
definition STACK_SIZE :: u32 where "STACK_SIZE = 4096"
definition TIME_SLICE_MS :: u32 where "TIME_SLICE_MS = 10"

datatype task_state_t = TASK_READY | TASK_RUNNING | TASK_BLOCKED | TASK_TERMINATED

record task_t =
  tid :: u32
  esp :: u32
  tstate :: task_state_t
  tnext :: u32

datatype task_ref = Task nat | IdleTask

record sched = pg +
  tasks :: "task_t list"
  idleTask :: task_t
  curTask :: "task_ref option"
  nextTaskID :: u32
  schedulerTicks :: u32
  taskStacks :: u32
  idleStack :: u32
  task_exit_address :: u32
  idle_entry_address :: u32

text \<open>A sequence of \<^verbatim>\<open>*(--sp) = v\<close>.\<close>

fun push_words :: "u32 \<Rightarrow> u32 list \<Rightarrow> memory \<Rightarrow> u32 \<times> memory" where
  "push_words sp [] m = (sp, m)"
| "push_words sp (v # vs) m = push_words (sp - 4) vs (store32 m (sp - 4) v)"

definition task_create_context :: "u32 \<Rightarrow> u32 \<Rightarrow> 'a sched_scheme \<Rightarrow> u32 \<times> 'a sched_scheme" where
  "task_create_context stack entry_point s =
     (let (sp, m) = push_words (stack + STACK_SIZE)
        [task_exit_address s, 0x202, 0x08, entry_point, 0, 32, 0, 0, 0, 0, 0, 0, 0, 0] (mem s)
      in (sp, s\<lparr>mem := m\<rparr>))"

definition scheduler_init :: "'a sched_scheme \<Rightarrow> 'a sched_scheme" where
  "scheduler_init s =
     (let s = s\<lparr>tasks := fold (\<lambda>i ts. ts[i := \<lparr>tid = 0, esp = 0, tstate = TASK_TERMINATED, tnext = 0\<rparr>])
            [0..<MAX_TASKS] (tasks s)\<rparr>;
          s = s\<lparr>nextTaskID := 1\<rparr>;
          s = s\<lparr>tasks := (tasks s)[0 := (tasks s ! 0)\<lparr>tstate := TASK_RUNNING\<rparr>]\<rparr>;
          s = s\<lparr>idleTask := (idleTask s)\<lparr>tid := - 1, tstate := TASK_READY\<rparr>\<rparr>;
          (sp, s) = task_create_context (idleStack s) (idle_entry_address s) s;
          s = s\<lparr>idleTask := (idleTask s)\<lparr>esp := sp, tnext := 0\<rparr>\<rparr>
      in s\<lparr>curTask := Some (Task 0), schedulerTicks := 0\<rparr>)"

text \<open>From the free slot on: the part of \<^verbatim>\<open>task_create\<close> that gives it an identity and a stack.\<close>

definition start_task :: "nat \<Rightarrow> u32 \<Rightarrow> 'a sched_scheme \<Rightarrow> int \<times> 'a sched_scheme" where
  "start_task slot entry_point s =
     (let s = (if tid (tasks s ! slot) = 0
               then s\<lparr>tasks := (tasks s)[slot := (tasks s ! slot)\<lparr>tid := nextTaskID s\<rparr>],
                      nextTaskID := nextTaskID s + 1\<rparr>
               else s);
          ident = tid (tasks s ! slot)
      in if ident - 1 \<ge> of_nat MAX_USER_TASKS then (-1, s)
         else let (sp, s) = task_create_context (taskStacks s + (ident - 1) * STACK_SIZE) entry_point s;
                  s = s\<lparr>tasks := (tasks s)[slot := (tasks s ! slot)\<lparr>esp := sp, tstate := TASK_READY\<rparr>]\<rparr>
              in (sint ident, s))"

definition task_create :: "u32 \<Rightarrow> 'a sched_scheme \<Rightarrow> int \<times> 'a sched_scheme" where
  "task_create entry_point s =
     (if entry_point = 0 then (-1, s)
      else let (flags, s) = irq_save s;
               slot = find (\<lambda>i. tstate (tasks s ! i) = TASK_TERMINATED) [1..<MAX_TASKS];
               (r, s) = (case slot of None \<Rightarrow> (-1, s) | Some i \<Rightarrow> start_task i entry_point s)
           in (r, irq_restore flags s))"

definition task_unblock :: "u32 \<Rightarrow> 'a sched_scheme \<Rightarrow> int \<times> 'a sched_scheme" where
  "task_unblock ident s =
     (let (flags, s) = irq_save s in
      case find (\<lambda>i. tid (tasks s ! i) = ident \<and> tstate (tasks s ! i) = TASK_BLOCKED) [1..<MAX_TASKS] of
        Some i \<Rightarrow> (0, irq_restore flags (s\<lparr>tasks := (tasks s)[i := (tasks s ! i)\<lparr>tstate := TASK_READY\<rparr>]\<rparr>))
      | None \<Rightarrow> (-1, irq_restore flags s))"

text \<open>Reading and writing \<^verbatim>\<open>*t\<close> for a task pointer.\<close>

fun deref :: "task_ref \<Rightarrow> 'a sched_scheme \<Rightarrow> task_t" where
  "deref (Task i) s = tasks s ! i"
| "deref IdleTask s = idleTask s"

fun update_task :: "task_ref \<Rightarrow> (task_t \<Rightarrow> task_t) \<Rightarrow> 'a sched_scheme \<Rightarrow> 'a sched_scheme" where
  "update_task (Task i) f s = s\<lparr>tasks := (tasks s)[i := f (tasks s ! i)]\<rparr>"
| "update_task IdleTask f s = s\<lparr>idleTask := f (idleTask s)\<rparr>"

text \<open>\<^verbatim>\<open>curTask = t; curTask->state = TASK_RUNNING; schedulerTicks = 0; return curTask->esp\<close>.\<close>

definition switch_to :: "task_ref \<Rightarrow> 'a sched_scheme \<Rightarrow> u32 \<times> 'a sched_scheme" where
  "switch_to t s =
     (let s = s\<lparr>curTask := Some t\<rparr>;
          s = update_task t (\<lambda>x. x\<lparr>tstate := TASK_RUNNING\<rparr>) s;
          s = s\<lparr>schedulerTicks := 0\<rparr>
      in (esp (deref t s), s))"

text \<open>The search for the slot that holds the current task, 0 when it is the idle task.\<close>

definition cur_index :: "task_ref \<Rightarrow> nat" where
  "cur_index cur = (case find (\<lambda>i. cur = Task i) [0..<MAX_TASKS] of Some i \<Rightarrow> i | None \<Rightarrow> 0)"

definition scheduler_schedule :: "u32 \<Rightarrow> 'a sched_scheme \<Rightarrow> u32 \<times> 'a sched_scheme" where
  "scheduler_schedule regs s =
     (case curTask s of
        None \<Rightarrow> (regs, s)
      | Some cur \<Rightarrow>
          if regs = 0 then (regs, s)
          else let s = update_task cur (\<lambda>t. t\<lparr>esp := regs\<rparr>) s;
                   s = (if tstate (deref cur s) = TASK_RUNNING
                        then update_task cur (\<lambda>t. t\<lparr>tstate := TASK_READY\<rparr>) s else s);
                   curIdx = cur_index cur
               in case find (\<lambda>i. tstate (tasks s ! ((curIdx + i) mod MAX_TASKS)) = TASK_READY) [1..<MAX_TASKS + 1] of
                    Some i \<Rightarrow> switch_to (Task ((curIdx + i) mod MAX_TASKS)) s
                  | None \<Rightarrow> if tstate (deref cur s) = TASK_READY then switch_to cur s
                            else switch_to IdleTask s)"

definition scheduler_tick :: "u32 \<Rightarrow> 'a sched_scheme \<Rightarrow> u32 \<times> 'a sched_scheme" where
  "scheduler_tick regs s =
     (let s = s\<lparr>schedulerTicks := schedulerTicks s + 1\<rparr> in
      if schedulerTicks s < TIME_SLICE_MS then (regs, s)
      else scheduler_schedule regs (s\<lparr>schedulerTicks := 0\<rparr>))"

definition scheduler_exit :: "u32 \<Rightarrow> 'a sched_scheme \<Rightarrow> u32 \<times> 'a sched_scheme" where
  "scheduler_exit regs s =
     (case curTask s of
        None \<Rightarrow> (regs, s)
      | Some cur \<Rightarrow>
          if regs = 0 then (regs, s)
          else scheduler_schedule regs (update_task cur (\<lambda>t. t\<lparr>tstate := TASK_TERMINATED\<rparr>) s))"

text \<open>\<^verbatim>\<open>task_yield\<close> raises interrupt 49, \<^verbatim>\<open>task_exit\<close> interrupt 50; \<open>regs\<close> is where the stub saved the registers. The
  first half of \<^verbatim>\<open>task_block\<close> dereferences \<^verbatim>\<open>curTask\<close>, which is a fault when there is none.\<close>

definition task_yield :: "u32 \<Rightarrow> 'a sched_scheme \<Rightarrow> u32 \<times> 'a sched_scheme" where
  "task_yield regs s = scheduler_schedule regs s"

definition task_exit :: "u32 \<Rightarrow> 'a sched_scheme \<Rightarrow> u32 \<times> 'a sched_scheme" where
  "task_exit regs s = scheduler_exit regs s"

definition mark_blocked :: "'a sched_scheme \<Rightarrow> 'a sched_scheme option" where
  "mark_blocked s = map_option (\<lambda>cur. update_task cur (\<lambda>t. t\<lparr>tstate := TASK_BLOCKED\<rparr>) s) (curTask s)"

definition task_block :: "u32 \<Rightarrow> 'a sched_scheme \<Rightarrow> (u32 \<times> 'a sched_scheme) option" where
  "task_block regs s = map_option (task_yield regs) (mark_blocked s)"


section \<open>The invariant\<close>

abbreviation slot_state :: "'a sched_scheme \<Rightarrow> nat \<Rightarrow> task_state_t" where
  "slot_state s i \<equiv> tstate (tasks s ! i)"

text \<open>Where the linker put the stacks.\<close>

definition sched_links :: "'a sched_scheme \<Rightarrow> bool" where
  "sched_links s \<longleftrightarrow> 0 < unat (taskStacks s) \<and> unat (taskStacks s) + 15 * 4096 \<le> 2 ^ 31 \<and>
     0 < unat (idleStack s) \<and> unat (idleStack s) + 4096 \<le> 2 ^ 31 \<and>
     (unat (idleStack s) + 4096 \<le> unat (taskStacks s) \<or> unat (taskStacks s) + 15 * 4096 \<le> unat (idleStack s))"

fun own_stack :: "task_ref \<Rightarrow> 'a sched_scheme \<Rightarrow> nat set" where
  "own_stack (Task i) s =
     (if i = 0 then {1..<2 ^ 32} else {unat (taskStacks s) + (i - 1) * 4096..<unat (taskStacks s) + i * 4096})"
| "own_stack IdleTask s = {unat (idleStack s)..<unat (idleStack s) + 4096}"

text \<open>Slot \<open>i\<close> has identity \<open>i\<close> once it has been used; the slots from \<^verbatim>\<open>nextTaskID\<close> on are unused.\<close>

definition ids_ok :: "'a sched_scheme \<Rightarrow> bool" where
  "ids_ok s \<longleftrightarrow> length (tasks s) = 16 \<and> 1 \<le> unat (nextTaskID s) \<and> unat (nextTaskID s) \<le> 16 \<and>
     (\<forall>i < 16. tid (tasks s ! i) = (if i < unat (nextTaskID s) then of_nat i else 0)) \<and>
     (\<forall>i < 16. unat (nextTaskID s) \<le> i \<longrightarrow> slot_state s i = TASK_TERMINATED)"

text \<open>Every task that may run again and is not running has its registers saved on its own stack.\<close>

definition saved_ok :: "'a sched_scheme \<Rightarrow> task_ref option \<Rightarrow> bool" where
  "saved_ok s cur \<longleftrightarrow>
     (\<forall>i < 16. (slot_state s i = TASK_READY \<or> slot_state s i = TASK_BLOCKED) \<and> cur \<noteq> Some (Task i) \<longrightarrow>
        unat (esp (tasks s ! i)) \<in> own_stack (Task i) s) \<and>
     (cur \<noteq> Some IdleTask \<longrightarrow> unat (esp (idleTask s)) \<in> own_stack IdleTask s)"

fun valid_cur :: "task_ref \<Rightarrow> 'a sched_scheme \<Rightarrow> bool" where
  "valid_cur (Task i) s \<longleftrightarrow> i < 16 \<and> slot_state s i \<noteq> TASK_TERMINATED"
| "valid_cur IdleTask s \<longleftrightarrow> True"

definition sched_inv :: "'a sched_scheme \<Rightarrow> bool" where
  "sched_inv s \<longleftrightarrow> sched_links s \<and> ids_ok s \<and> schedulerTicks s < TIME_SLICE_MS \<and>
     (\<exists>cur. curTask s = Some cur \<and> valid_cur cur s) \<and>
     (\<forall>i < 16. slot_state s i = TASK_RUNNING \<longrightarrow> curTask s = Some (Task i)) \<and>
     tstate (idleTask s) = (if curTask s = Some IdleTask then TASK_RUNNING else TASK_READY) \<and>
     saved_ok s (curTask s)"

text \<open>The state in the middle of a switch: nobody runs.\<close>

definition parked :: "'a sched_scheme \<Rightarrow> bool" where
  "parked s \<longleftrightarrow> sched_links s \<and> ids_ok s \<and> (\<forall>i < 16. slot_state s i \<noteq> TASK_RUNNING) \<and>
     tstate (idleTask s) = TASK_READY \<and> saved_ok s None"

definition park :: "task_ref \<Rightarrow> u32 \<Rightarrow> 'a sched_scheme \<Rightarrow> 'a sched_scheme" where
  "park cur regs s =
     (let s = update_task cur (\<lambda>t. t\<lparr>esp := regs\<rparr>) s
      in if tstate (deref cur s) = TASK_RUNNING then update_task cur (\<lambda>t. t\<lparr>tstate := TASK_READY\<rparr>) s else s)"

lemma update_task_sel [simp]:
  "sched_links (update_task t f s) = sched_links s" "own_stack r (update_task t f s) = own_stack r s"
  "nextTaskID (update_task t f s) = nextTaskID s" "curTask (update_task t f s) = curTask s"
  "schedulerTicks (update_task t f s) = schedulerTicks s" "length (tasks (update_task t f s)) = length (tasks s)"
  by (cases t; cases r; simp add: sched_links_def)+

lemma slot_update: "i < length xs \<Longrightarrow> xs[j := v] ! i = (if i = j then v else xs ! i)"
  by (cases "j < length xs") auto

lemma ids_update:
  "ids_ok s \<Longrightarrow> (\<And>x. tid (f x) = tid x) \<Longrightarrow>
   (tstate (deref t s) = TASK_TERMINATED \<Longrightarrow> tstate (f (deref t s)) = TASK_TERMINATED) \<Longrightarrow>
   ids_ok (update_task t f s)"
  by (cases t) (auto simp: ids_ok_def slot_update)

lemma park_parked:
  assumes links: "sched_links s" and ids: "ids_ok s"
    and run: "\<And>i. i < 16 \<Longrightarrow> slot_state s i = TASK_RUNNING \<Longrightarrow> cur = Task i"
    and cur: "\<And>i. cur = Task i \<Longrightarrow> i < 16" and idle: "tstate (idleTask s) = (if cur = IdleTask then TASK_RUNNING else TASK_READY)"
    and saved: "saved_ok s (Some cur)" and regs: "unat regs \<in> own_stack cur s"
  shows "parked (park cur regs s)"
proof -
  have len: "length (tasks s) = 16" using ids by (simp add: ids_ok_def)
  have ids1: "ids_ok (update_task cur (\<lambda>t. t\<lparr>esp := regs\<rparr>) s)" by (rule ids_update [OF ids]) simp_all
  have ids': "ids_ok (park cur regs s)"
    unfolding park_def Let_def using ids1 by (auto intro!: ids_update [OF ids1] split: if_split)
  have links': "sched_links (park cur regs s)" using links by (simp add: park_def Let_def)
  have st: "slot_state (park cur regs s) i = (if cur = Task i \<and> slot_state s i = TASK_RUNNING then TASK_READY else slot_state s i)"
    and sp: "esp (tasks (park cur regs s) ! i) = (if cur = Task i then regs else esp (tasks s ! i))" if "i < 16" for i
    using that len by (cases cur; simp add: park_def Let_def slot_update)+
  have idle': "tstate (idleTask (park cur regs s)) = TASK_READY"
    "esp (idleTask (park cur regs s)) = (if cur = IdleTask then regs else esp (idleTask s))"
    using idle by (cases cur; simp add: park_def Let_def)+
  have own: "own_stack r (park cur regs s) = own_stack r s" for r by (simp add: park_def Let_def)
  have "saved_ok (park cur regs s) None"
    unfolding saved_ok_def using saved regs
    by (auto simp: st sp idle' own saved_ok_def simp del: own_stack.simps split: if_splits)
  moreover have "slot_state (park cur regs s) i \<noteq> TASK_RUNNING" if "i < 16" for i
    using st [OF that] run [OF that] by (auto split: if_splits)
  ultimately show ?thesis using ids' links' idle' by (simp add: parked_def)
qed

lemma switch_to_inv:
  assumes p: "parked s" and t: "t = IdleTask \<or> (\<exists>i < 16. t = Task i \<and> slot_state s i = TASK_READY)"
  shows "sched_inv (snd (switch_to t s))" "unat (fst (switch_to t s)) \<in> own_stack t s" "curTask (snd (switch_to t s)) = Some t"
proof -
  let ?s = "snd (switch_to t s)"
  have len: "length (tasks s) = 16" using p by (simp add: parked_def ids_ok_def)
  show cur: "curTask ?s = Some t" by (cases t) (simp_all add: switch_to_def)
  have st: "slot_state ?s i = (if t = Task i then TASK_RUNNING else slot_state s i)"
    and sp: "esp (tasks ?s ! i) = esp (tasks s ! i)" and id: "tid (tasks ?s ! i) = tid (tasks s ! i)" if "i < 16" for i
    using that len by (cases t; simp add: switch_to_def slot_update)+
  have idle: "tstate (idleTask ?s) = (if t = IdleTask then TASK_RUNNING else tstate (idleTask s))" "esp (idleTask ?s) = esp (idleTask s)"
    by (cases t; simp add: switch_to_def)+
  have own: "own_stack r ?s = own_stack r s" for r by (cases t; cases r; simp add: switch_to_def)
  have f: "sched_links ?s = sched_links s" "schedulerTicks ?s = 0" "nextTaskID ?s = nextTaskID s" "length (tasks ?s) = length (tasks s)"
    by (cases t; simp add: switch_to_def sched_links_def)+
  have ids: "ids_ok ?s"
    using p t unfolding parked_def ids_ok_def f by (auto simp: st id)
  have "saved_ok ?s (Some t)"
    using p unfolding parked_def saved_ok_def by (auto simp: st sp idle own simp del: own_stack.simps)
  moreover have "valid_cur t ?s"
  proof -
    have "\<exists>i < 16. t = Task i \<Longrightarrow> \<exists>i < 16. t = Task i \<and> slot_state ?s i = TASK_RUNNING" using st by auto
    with t show ?thesis by (cases t) auto
  qed
  ultimately show "sched_inv ?s"
    using p ids unfolding sched_inv_def parked_def cur f by (auto simp: st idle TIME_SLICE_MS_def)
  show "unat (fst (switch_to t s)) \<in> own_stack t s"
    using p t len by (auto simp: parked_def saved_ok_def switch_to_def slot_update simp del: own_stack.simps)
qed

section \<open>One switch\<close>

lemma cur_index [simp]: "i < 16 \<Longrightarrow> cur_index (Task i) = i" "cur_index IdleTask = 0"
proof -
  assume "i < 16"
  then have "find (\<lambda>j. Task i = Task j) [0..<MAX_TASKS] = Some i" by (simp add: find_upt_Some MAX_TASKS_def)
  then show "cur_index (Task i) = i" by (simp add: cur_index_def)
next
  have "find (\<lambda>j. IdleTask = Task j) [0..<MAX_TASKS] = None" by (simp add: find_upt_None)
  then show "cur_index IdleTask = 0" by (simp add: cur_index_def)
qed

text \<open>The task after \<open>cur\<close>: the first ready slot going round from the slot behind it, the idle task if there is none.\<close>

definition next_task :: "task_ref \<Rightarrow> 'a sched_scheme \<Rightarrow> task_ref" where
  "next_task cur s =
     (case find (\<lambda>k. slot_state s ((cur_index cur + k) mod MAX_TASKS) = TASK_READY) [1..<MAX_TASKS + 1] of
        Some k \<Rightarrow> Task ((cur_index cur + k) mod MAX_TASKS) | None \<Rightarrow> IdleTask)"

lemma next_task_ready: "next_task cur s = IdleTask \<or> (\<exists>i < 16. next_task cur s = Task i \<and> slot_state s i = TASK_READY)"
proof (cases "find (\<lambda>k. slot_state s ((cur_index cur + k) mod MAX_TASKS) = TASK_READY) [1..<MAX_TASKS + 1]")
  case (Some k)
  then have "1 \<le> k \<and> k < MAX_TASKS + 1 \<and> slot_state s ((cur_index cur + k) mod MAX_TASKS) = TASK_READY"
    by (simp only: find_upt_Some simp_thms)
  moreover have "next_task cur s = Task ((cur_index cur + k) mod MAX_TASKS)" by (simp only: next_task_def Some option.case)
  ultimately show ?thesis by (simp add: MAX_TASKS_def)
next
  case None
  then show ?thesis by (simp only: next_task_def option.case simp_thms)
qed

lemma schedule_next:
  assumes cur: "curTask s = Some cur" "regs \<noteq> 0" "\<And>i. cur = Task i \<Longrightarrow> i < 16"
  shows "scheduler_schedule regs s = switch_to (next_task cur (park cur regs s)) (park cur regs s)"
proof -
  let ?s = "park cur regs s"
  let ?P = "\<lambda>k. slot_state ?s ((cur_index cur + k) mod MAX_TASKS) = TASK_READY"
  have eq: "scheduler_schedule regs s = (case find ?P [1..<MAX_TASKS + 1] of
      Some i \<Rightarrow> switch_to (Task ((cur_index cur + i) mod MAX_TASKS)) ?s
    | None \<Rightarrow> if tstate (deref cur ?s) = TASK_READY then switch_to cur ?s else switch_to IdleTask ?s)"
    by (simp only: scheduler_schedule_def park_def Let_def cur(1,2) option.case if_False)
  show ?thesis
  proof (cases "find ?P [1..<MAX_TASKS + 1]")
    case None
    have "tstate (deref cur ?s) \<noteq> TASK_READY" if other: "cur \<noteq> IdleTask"
    proof -
      obtain c where c: "cur = Task c" using other by (cases cur) auto
      then have "(cur_index cur + 16) mod MAX_TASKS = c" using cur(3) by (simp add: MAX_TASKS_def)
      moreover have "\<not> ?P 16" using None [unfolded find_upt_None, rule_format, of 16] by (simp add: MAX_TASKS_def)
      ultimately show ?thesis using c by simp
    qed
    with eq show ?thesis unfolding next_task_def None by auto
  next
    case (Some k)
    show ?thesis unfolding eq next_task_def Some by simp
  qed
qed

text \<open>What a switch needs of the state it starts from: the current task may already be blocked or terminated.\<close>

definition switchable :: "task_ref \<Rightarrow> 'a sched_scheme \<Rightarrow> bool" where
  "switchable cur s \<longleftrightarrow> sched_links s \<and> ids_ok s \<and> curTask s = Some cur \<and>
     (\<forall>i < 16. slot_state s i = TASK_RUNNING \<longrightarrow> cur = Task i) \<and> (\<forall>i. cur = Task i \<longrightarrow> i < 16) \<and>
     tstate (idleTask s) = (if cur = IdleTask then TASK_RUNNING else TASK_READY) \<and> saved_ok s (Some cur)"

lemma sched_inv_switchable:
  "sched_inv s \<Longrightarrow> curTask s = Some cur \<Longrightarrow> switchable cur s"
  by (cases cur) (auto simp: sched_inv_def switchable_def)

lemma own_stack_nonzero: "sched_links s \<Longrightarrow> unat a \<in> own_stack t s \<Longrightarrow> a \<noteq> 0"
  by (cases t) (auto simp: sched_links_def split: if_splits)

lemma schedule_switches:
  assumes sw: "switchable cur s" and regs: "unat regs \<in> own_stack cur s"
  defines "t \<equiv> next_task cur (park cur regs s)"
  shows "scheduler_schedule regs s = switch_to t (park cur regs s)" "parked (park cur regs s)"
    "sched_inv (snd (scheduler_schedule regs s))" "curTask (snd (scheduler_schedule regs s)) = Some t"
    "unat (fst (scheduler_schedule regs s)) \<in> own_stack t s"
proof -
  have l: "sched_links s" and i: "ids_ok s" and c: "curTask s = Some cur"
    and r: "\<And>i. i < 16 \<Longrightarrow> slot_state s i = TASK_RUNNING \<Longrightarrow> cur = Task i" and b: "\<And>i. cur = Task i \<Longrightarrow> i < 16"
    and d: "tstate (idleTask s) = (if cur = IdleTask then TASK_RUNNING else TASK_READY)" and sv: "saved_ok s (Some cur)"
    using sw unfolding switchable_def by blast+
  have nz: "regs \<noteq> 0" by (rule own_stack_nonzero [OF l regs])
  show p: "parked (park cur regs s)" by (rule park_parked [OF l i r b d sv regs])
  show eq: "scheduler_schedule regs s = switch_to t (park cur regs s)"
    unfolding t_def by (rule schedule_next [OF c nz b])
  have own: "own_stack t (park cur regs s) = own_stack t s" by (simp add: park_def Let_def)
  from switch_to_inv [OF p, of t] next_task_ready [of cur "park cur regs s"]
  show "sched_inv (snd (scheduler_schedule regs s))" "curTask (snd (scheduler_schedule regs s)) = Some t"
    "unat (fst (scheduler_schedule regs s)) \<in> own_stack t s"
    unfolding eq own by (simp_all add: t_def)
qed

section \<open>Creating a task\<close>

lemma push_words_spec:
  assumes "4 * length vs \<le> a" "a \<le> 2 ^ 31"
  shows "\<exists>m'. push_words (of_nat a) vs m = (of_nat (a - 4 * length vs), m') \<and>
    changes_only {a - 4 * length vs..<a} m m' \<and>
    (\<forall>j < length vs. load32 m' (of_nat (a - 4 * Suc j)) = vs ! j)"
  using assms
proof (induction vs arbitrary: a m)
  case (Cons v vs)
  let ?a = "a - 4" and ?m = "store32 m (of_nat (a - 4)) v"
  have a: "4 * length vs \<le> ?a" "?a \<le> 2 ^ 31" "4 \<le> a" using Cons.prems by auto
  have sub: "(of_nat a - 4 :: u32) = of_nat ?a" using a(3) by (simp add: of_nat_diff)
  from Cons.IH [OF a(1,2), of ?m] obtain m' where m': "push_words (of_nat ?a) vs ?m = (of_nat (?a - 4 * length vs), m')"
      "changes_only {?a - 4 * length vs..<?a} ?m m'" "\<forall>j < length vs. load32 m' (of_nat (?a - 4 * Suc j)) = vs ! j"
    by blast
  have ch: "changes_only {a - 4 * length (v # vs)..<a} m m'"
  proof (rule changes_only_trans)
    show "changes_only {a - 4 * length (v # vs)..<a} m ?m"
      by (rule changes_only_mono [OF changes_only_store32]) (use Cons.prems a(3) in auto)
    show "changes_only {a - 4 * length (v # vs)..<a} ?m m'"
      by (rule changes_only_mono [OF m'(2)]) (use a(3) in auto)
  qed
  have "load32 m' (of_nat ?a) = load32 ?m (of_nat ?a)"
    by (rule changes_only_load32 [OF m'(2)]) (use a in auto)
  then have first: "load32 m' (of_nat ?a) = v" by simp
  have "load32 m' (of_nat (a - 4 * Suc j)) = (v # vs) ! j" if "j < length (v # vs)" for j
  proof (cases j)
    case (Suc i)
    then have "a - 4 * Suc j = ?a - 4 * Suc i" by simp
    with m'(3) that Suc show ?thesis by simp
  qed (use first in simp)
  moreover have "a - 4 * length (v # vs) = ?a - 4 * length vs" by simp
  ultimately show ?case using m'(1) ch sub by (intro exI [of _ m']) simp
qed simp

text \<open>The frame that \<^verbatim>\<open>isr_common\<close> pops when the task is first scheduled: eight general registers, the interrupt number
  and error code it skips, then what \<^verbatim>\<open>iretd\<close> loads, and above it the return address of the entry function.\<close>

definition fresh_frame :: "nat \<Rightarrow> u32 \<Rightarrow> u32 \<Rightarrow> memory \<Rightarrow> bool" where
  "fresh_frame sp eip ret m \<longleftrightarrow> (\<forall>j < 8. load32 m (of_nat (sp + 4 * j)) = 0) \<and>
     load32 m (of_nat (sp + 32)) = 32 \<and> load32 m (of_nat (sp + 36)) = 0 \<and> load32 m (of_nat (sp + 40)) = eip \<and>
     load32 m (of_nat (sp + 44)) = 0x08 \<and> load32 m (of_nat (sp + 48)) = 0x202 \<and> load32 m (of_nat (sp + 52)) = ret"

lemma create_context:
  assumes "unat stack + 4096 \<le> 2 ^ 31"
  shows "\<exists>m'. task_create_context stack ep s = (of_nat (unat stack + 4040), s\<lparr>mem := m'\<rparr>) \<and>
    changes_only {unat stack + 4040..<unat stack + 4096} (mem s) m' \<and>
    fresh_frame (unat stack + 4040) ep (task_exit_address s) m'"
proof -
  let ?vs = "[task_exit_address s, 0x202, 0x08, ep, 0, 32, 0, 0, 0, 0, 0, 0, 0, 0] :: u32 list" and ?a = "unat stack + 4096"
  have top: "stack + STACK_SIZE = of_nat ?a" by (simp add: STACK_SIZE_def)
  from push_words_spec [of ?vs ?a "mem s"] assms obtain m' where m':
      "push_words (of_nat ?a) ?vs (mem s) = (of_nat (?a - 4 * length ?vs), m')"
      "changes_only {?a - 4 * length ?vs..<?a} (mem s) m'"
      "\<forall>j < length ?vs. load32 m' (of_nat (?a - 4 * Suc j)) = ?vs ! j"
    by auto
  have w: "load32 m' (of_nat (unat stack + 4096 - 4 * Suc j)) = ?vs ! j" if "j < 14" for j
    using m'(3) that by simp
  have z: "load32 m' (of_nat (unat stack + 4040 + 4 * j)) = 0" if "j < 8" for j
  proof -
    have "unat stack + 4040 + 4 * j = unat stack + 4096 - 4 * Suc (13 - j)" using that by simp
    moreover have "?vs ! (13 - j) = 0" using that by (cases j; auto simp: less_Suc_eq eval_nat_numeral)
    ultimately show ?thesis using w [of "13 - j"] by simp
  qed
  have "fresh_frame (unat stack + 4040) ep (task_exit_address s) m'"
    unfolding fresh_frame_def
    using z w [of 5] w [of 4] w [of 3] w [of 2] w [of 1] w [of 0] by simp
  moreover have "?a - 4 * length ?vs = unat stack + 4040" by simp
  note m' = m' [unfolded this]
  ultimately show ?thesis
    unfolding task_create_context_def top m'(1) using m'(2) by (intro exI [of _ m']) simp
qed

text \<open>The slot \<^verbatim>\<open>task_create\<close> finds, and the stack that goes with it.\<close>

definition free_slot :: "'a sched_scheme \<Rightarrow> nat option" where
  "free_slot s = find (\<lambda>i. slot_state s i = TASK_TERMINATED) [1..<MAX_TASKS]"

definition stack_base :: "'a sched_scheme \<Rightarrow> nat \<Rightarrow> nat" where
  "stack_base s i = unat (taskStacks s) + (i - 1) * 4096"

lemma free_slot_id:
  assumes ids: "ids_ok s" and slot: "free_slot s = Some i"
  shows "1 \<le> i" "i < 16" "slot_state s i = TASK_TERMINATED" "i \<le> unat (nextTaskID s)"
    "tid (tasks s ! i) = (if i < unat (nextTaskID s) then of_nat i else 0)"
proof -
  have f: "1 \<le> i \<and> i < 16 \<and> slot_state s i = TASK_TERMINATED \<and> (\<forall>j. 1 \<le> j \<and> j < i \<longrightarrow> slot_state s j \<noteq> TASK_TERMINATED)"
    using slot unfolding free_slot_def find_upt_Some MAX_TASKS_def .
  then show "1 \<le> i" "i < 16" "slot_state s i = TASK_TERMINATED" by auto
  show "tid (tasks s ! i) = (if i < unat (nextTaskID s) then of_nat i else 0)"
    using ids f by (simp only: ids_ok_def)
  show "i \<le> unat (nextTaskID s)"
  proof (rule ccontr)
    assume gt: "\<not> i \<le> unat (nextTaskID s)"
    then have "slot_state s (unat (nextTaskID s)) = TASK_TERMINATED" using ids f by (simp add: ids_ok_def)
    moreover have "1 \<le> unat (nextTaskID s)" "unat (nextTaskID s) < i" using gt ids by (simp_all add: ids_ok_def)
    ultimately show False using f by blast
  qed
qed

lemma start_task_spec:
  assumes links: "sched_links s" and ids: "ids_ok s" and slot: "free_slot s = Some i"
  shows "\<exists>m'. start_task i ep s = (int i, s\<lparr>mem := m',
        tasks := (tasks s)[i := (tasks s ! i)\<lparr>tid := of_nat i, esp := of_nat (stack_base s i + 4040), tstate := TASK_READY\<rparr>],
        nextTaskID := of_nat (max (unat (nextTaskID s)) (Suc i))\<rparr>) \<and>
    changes_only {stack_base s i + 4040..<stack_base s i + 4096} (mem s) m' \<and>
    fresh_frame (stack_base s i + 4040) ep (task_exit_address s) m'"
proof -
  note f = free_slot_id [OF ids slot]
  have len: "length (tasks s) = 16" and nz: "1 \<le> unat (nextTaskID s)" using ids by (simp_all add: ids_ok_def)
  define s1 where "s1 = (if tid (tasks s ! i) = 0
      then s\<lparr>tasks := (tasks s)[i := (tasks s ! i)\<lparr>tid := nextTaskID s\<rparr>], nextTaskID := nextTaskID s + 1\<rparr> else s)"
  have i0: "(of_nat i :: u32) \<noteq> 0" using f(1,2) by (intro of_nat_nonzero_u32) auto
  have s1: "s1 = s\<lparr>tasks := (tasks s)[i := (tasks s ! i)\<lparr>tid := of_nat i\<rparr>], nextTaskID := of_nat (max (unat (nextTaskID s)) (Suc i))\<rparr>"
  proof (cases "i < unat (nextTaskID s)")
    case True
    then have "tid (tasks s ! i) = of_nat i" using f(5) by simp
    then have "(tasks s)[i := (tasks s ! i)\<lparr>tid := of_nat i\<rparr>] = tasks s"
      using len f(2) by (intro list_update_same_conv [THEN iffD2]) simp_all
    moreover have "max (unat (nextTaskID s)) (Suc i) = unat (nextTaskID s)" using True by simp
    ultimately show ?thesis using \<open>tid _ = of_nat i\<close> i0 by (simp add: s1_def)
  next
    case False
    then have i: "i = unat (nextTaskID s)" using f(4) by simp
    then have "max (unat (nextTaskID s)) (Suc i) = Suc (unat (nextTaskID s))" "nextTaskID s = of_nat i" by simp_all
    then show ?thesis using f(5) False by (simp add: s1_def add.commute)
  qed
  have ident: "tid (tasks s1 ! i) = of_nat i" using len f(2) by (simp add: s1)
  have im1: "(of_nat i - 1 :: u32) = of_nat (i - 1)" using f(1) by (simp add: of_nat_diff)
  have lt: "\<not> of_nat i - 1 \<ge> (of_nat MAX_USER_TASKS :: u32)"
    unfolding im1 not_le using f(1,2) by (subst of_nat_less_u32) (auto simp: MAX_USER_TASKS_def MAX_TASKS_def)
  have stack: "unat (taskStacks s + (of_nat i - 1) * STACK_SIZE) = stack_base s i"
  proof -
    have "taskStacks s + (of_nat i - 1) * STACK_SIZE = of_nat (stack_base s i)"
      unfolding im1 by (simp add: stack_base_def STACK_SIZE_def)
    moreover have "stack_base s i < 2 ^ 32" using links f(2) by (auto simp: stack_base_def sched_links_def)
    ultimately show ?thesis by (simp add: unat_of_nat_small)
  qed
  have bound: "unat (taskStacks s + (of_nat i - 1) * STACK_SIZE) + 4096 \<le> 2 ^ 31"
    unfolding stack using links f(1,2) by (auto simp: stack_base_def sched_links_def)
  from create_context [OF bound, of ep s1] obtain m' where m':
      "task_create_context (taskStacks s + (of_nat i - 1) * STACK_SIZE) ep s1 = (of_nat (stack_base s i + 4040), s1\<lparr>mem := m'\<rparr>)"
      "changes_only {stack_base s i + 4040..<stack_base s i + 4096} (mem s1) m'"
      "fresh_frame (stack_base s i + 4040) ep (task_exit_address s1) m'"
    unfolding stack by (elim exE conjE)
  have "taskStacks s1 = taskStacks s" "mem s1 = mem s" "task_exit_address s1 = task_exit_address s" by (simp_all add: s1)
  note m' = m' [unfolded this]
  have "start_task i ep s = (sint (of_nat i :: u32), s1\<lparr>mem := m', tasks := (tasks s1)[i := (tasks s1 ! i)\<lparr>esp := of_nat (stack_base s i + 4040), tstate := TASK_READY\<rparr>]\<rparr>)"
    unfolding start_task_def Let_def s1_def [symmetric] ident using lt m'(1) \<open>taskStacks s1 = _\<close> by simp
  moreover have "sint (of_nat i :: u32) = int i" using f(2) by (simp add: signed_of_nat signed_take_bit_int_eq_self)
  moreover have "s1\<lparr>mem := m', tasks := (tasks s1)[i := (tasks s1 ! i)\<lparr>esp := of_nat (stack_base s i + 4040), tstate := TASK_READY\<rparr>]\<rparr>
      = s\<lparr>mem := m', tasks := (tasks s)[i := (tasks s ! i)\<lparr>tid := of_nat i, esp := of_nat (stack_base s i + 4040), tstate := TASK_READY\<rparr>],
          nextTaskID := of_nat (max (unat (nextTaskID s)) (Suc i))\<rparr>"
    using len f(2) by (simp add: s1)
  ultimately show ?thesis using m'(2,3) by (intro exI [of _ m']) simp
qed

lemma task_create_spec:
  assumes inv: "sched_inv s" and ep: "ep \<noteq> 0"
  shows "case free_slot s of
      None \<Rightarrow> task_create ep s = (-1, s)
    | Some i \<Rightarrow> \<exists>m'. task_create ep s = (int i, s\<lparr>mem := m',
          tasks := (tasks s)[i := (tasks s ! i)\<lparr>tid := of_nat i, esp := of_nat (stack_base s i + 4040), tstate := TASK_READY\<rparr>],
          nextTaskID := of_nat (max (unat (nextTaskID s)) (Suc i))\<rparr>) \<and>
        changes_only {stack_base s i + 4040..<stack_base s i + 4096} (mem s) m' \<and>
        fresh_frame (stack_base s i + 4040) ep (task_exit_address s) m'"
proof -
  let ?s = "s\<lparr>eflags := eflags s AND NOT IF_BIT\<rparr>"
  have find: "find (\<lambda>i. slot_state ?s i = TASK_TERMINATED) [1..<MAX_TASKS] = free_slot s" by (simp add: free_slot_def)
  have run: "task_create ep s = (let (r, t) = (case free_slot s of None \<Rightarrow> (-1, ?s) | Some i \<Rightarrow> start_task i ep ?s) in (r, t\<lparr>eflags := eflags s\<rparr>))"
    using ep find by (simp add: task_create_def irq_save_def irq_restore_def Let_def)
  show ?thesis
  proof (cases "free_slot s")
    case None
    then show ?thesis by (simp add: run)
  next
    case (Some i)
    have "sched_links ?s" "ids_ok ?s" "free_slot ?s = Some i"
      using inv Some by (simp_all add: sched_inv_def sched_links_def ids_ok_def free_slot_def)
    from start_task_spec [OF this, of ep] obtain m' where m': "start_task i ep ?s = (int i, ?s\<lparr>mem := m',
          tasks := (tasks ?s)[i := (tasks ?s ! i)\<lparr>tid := of_nat i, esp := of_nat (stack_base ?s i + 4040), tstate := TASK_READY\<rparr>],
          nextTaskID := of_nat (max (unat (nextTaskID ?s)) (Suc i))\<rparr>)"
        "changes_only {stack_base ?s i + 4040..<stack_base ?s i + 4096} (mem ?s) m'"
        "fresh_frame (stack_base ?s i + 4040) ep (task_exit_address ?s) m'"
      by (elim exE conjE)
    have sb: "stack_base ?s i = stack_base s i" by (simp add: stack_base_def)
    show ?thesis
      using m'(2,3) unfolding run Some sb by (simp add: m'(1) sb) (intro exI [of _ m'], simp)
  qed
qed

section \<open>The scheduler as a transition system\<close>

datatype sched_event = Tick u32 | Yield u32 | Exit u32 | MarkBlocked | Create u32 | Unblock u32

text \<open>The registers of an interrupted task are saved on that task's own stack.\<close>

inductive sched_step :: "'a sched_scheme \<Rightarrow> sched_event \<Rightarrow> 'a sched_scheme \<Rightarrow> bool" where
  tick: "curTask s = Some cur \<Longrightarrow> unat regs \<in> own_stack cur s \<Longrightarrow> sched_step s (Tick regs) (snd (scheduler_tick regs s))"
| yield: "curTask s = Some cur \<Longrightarrow> unat regs \<in> own_stack cur s \<Longrightarrow> sched_step s (Yield regs) (snd (task_yield regs s))"
| exit: "curTask s = Some (Task i) \<Longrightarrow> unat regs \<in> own_stack (Task i) s \<Longrightarrow> sched_step s (Exit regs) (snd (task_exit regs s))"
| block: "curTask s = Some (Task i) \<Longrightarrow> mark_blocked s = Some s' \<Longrightarrow> sched_step s MarkBlocked s'"
| create: "sched_step s (Create ep) (snd (task_create ep s))"
| unblock: "sched_step s (Unblock ident) (snd (task_unblock ident s))"

inductive_cases tickE: "sched_step s (Tick regs) s'"

text \<open>Changing one slot in a way that keeps the invariant.\<close>

lemma inv_update_slot:
  assumes inv: "sched_inv s" and i: "i < 16" "slot_state s i \<noteq> TASK_TERMINATED"
    and f: "\<And>x. tid (f x) = tid x" "\<And>x. esp (f x) = esp x"
    and st: "tstate (f (tasks s ! i)) = TASK_READY \<and> slot_state s i = TASK_BLOCKED \<or>
      tstate (f (tasks s ! i)) = TASK_BLOCKED \<and> curTask s = Some (Task i)"
  shows "sched_inv (update_task (Task i) f s)"
proof -
  have len: "length (tasks s) = 16" using inv by (simp add: sched_inv_def ids_ok_def)
  have ids: "ids_ok (update_task (Task i) f s)"
    by (rule ids_update) (use inv i f in \<open>auto simp: sched_inv_def\<close>)
  let ?s = "update_task (Task i) f s"
  have ts: "tasks ?s ! j = (if j = i then f (tasks s ! i) else tasks s ! j)" if "j < 16" for j
    using that len by (simp add: slot_update)
  have rest: "idleTask ?s = idleTask s" "curTask ?s = curTask s" "schedulerTicks ?s = schedulerTicks s" by simp_all
  have own: "own_stack r ?s = own_stack r s" for r by (cases r) simp_all
  have "saved_ok ?s (curTask s)"
    using inv st i f(2) unfolding sched_inv_def saved_ok_def
    by (auto simp: ts own rest simp del: own_stack.simps update_task.simps)
  moreover have "\<exists>cur. curTask s = Some cur \<and> valid_cur cur ?s"
  proof -
    obtain cur where c: "curTask s = Some cur" "valid_cur cur s" using inv by (auto simp: sched_inv_def)
    have "valid_cur cur ?s" using c st by (cases cur) (auto simp: ts simp del: update_task.simps)
    with c show ?thesis by blast
  qed
  moreover have "\<forall>j < 16. slot_state ?s j = TASK_RUNNING \<longrightarrow> curTask s = Some (Task j)"
    using inv st by (auto simp: ts sched_inv_def simp del: update_task.simps)
  ultimately show ?thesis
    using inv ids unfolding sched_inv_def rest by (auto simp: sched_links_def)
qed

lemma yield_inv: "sched_inv s \<Longrightarrow> curTask s = Some cur \<Longrightarrow> unat regs \<in> own_stack cur s \<Longrightarrow> sched_inv (snd (scheduler_schedule regs s))"
  by (rule schedule_switches(3) [OF sched_inv_switchable])

lemma ticks_upd [simp]:
  "sched_links (s\<lparr>schedulerTicks := n\<rparr>) = sched_links s" "ids_ok (s\<lparr>schedulerTicks := n\<rparr>) = ids_ok s"
  "saved_ok (s\<lparr>schedulerTicks := n\<rparr>) cur = saved_ok s cur" "own_stack r (s\<lparr>schedulerTicks := n\<rparr>) = own_stack r s"
  "valid_cur r (s\<lparr>schedulerTicks := n\<rparr>) = valid_cur r s"
  by (cases r; simp add: sched_links_def ids_ok_def saved_ok_def)+

lemma ticks_inv: "sched_inv s \<Longrightarrow> n < TIME_SLICE_MS \<Longrightarrow> sched_inv (s\<lparr>schedulerTicks := n\<rparr>)"
  by (simp add: sched_inv_def)

lemma tick_cases:
  assumes "sched_inv s"
  shows "schedulerTicks s + 1 < TIME_SLICE_MS \<and> scheduler_tick regs s = (regs, s\<lparr>schedulerTicks := schedulerTicks s + 1\<rparr>) \<or>
    \<not> schedulerTicks s + 1 < TIME_SLICE_MS \<and> scheduler_tick regs s = scheduler_schedule regs (s\<lparr>schedulerTicks := 0\<rparr>)"
  by (simp add: scheduler_tick_def Let_def)

lemma tick_inv:
  assumes inv: "sched_inv s" and cur: "curTask s = Some cur" "unat regs \<in> own_stack cur s"
  shows "sched_inv (snd (scheduler_tick regs s))"
proof -
  have "sched_inv (snd (scheduler_schedule regs (s\<lparr>schedulerTicks := 0\<rparr>)))"
    by (rule yield_inv [of _ cur]) (use inv cur ticks_inv [OF inv, of 0] in \<open>simp_all add: TIME_SLICE_MS_def\<close>)
  with tick_cases [OF inv, of regs] ticks_inv [OF inv] show ?thesis by auto
qed

lemma exit_switchable:
  assumes inv: "sched_inv s" and cur: "curTask s = Some (Task i)"
  shows "switchable (Task i) (update_task (Task i) (\<lambda>t. t\<lparr>tstate := TASK_TERMINATED\<rparr>) s)"
proof -
  have i: "i < 16" and len: "length (tasks s) = 16" using inv cur by (auto simp: sched_inv_def ids_ok_def)
  have ids: "ids_ok (update_task (Task i) (\<lambda>t. t\<lparr>tstate := TASK_TERMINATED\<rparr>) s)"
    by (rule ids_update) (use inv in \<open>simp_all add: sched_inv_def\<close>)
  have own: "own_stack r (s\<lparr>tasks := x\<rparr>) = own_stack r s" for r x by (cases r) simp_all
  show ?thesis
    using inv cur i len ids unfolding switchable_def sched_inv_def saved_ok_def
    by (auto simp: slot_update own sched_links_def simp del: own_stack.simps)
qed

lemma exit_inv:
  assumes inv: "sched_inv s" and cur: "curTask s = Some (Task i)" "unat regs \<in> own_stack (Task i) s"
  shows "sched_inv (snd (scheduler_exit regs s))"
proof -
  have "regs \<noteq> 0" using inv cur(2) own_stack_nonzero unfolding sched_inv_def by blast
  then have "scheduler_exit regs s = scheduler_schedule regs (update_task (Task i) (\<lambda>t. t\<lparr>tstate := TASK_TERMINATED\<rparr>) s)"
    using cur(1) by (simp add: scheduler_exit_def)
  with schedule_switches(3) [OF exit_switchable [OF inv cur(1)], of regs] cur(2) show ?thesis
    unfolding update_task_sel by simp
qed

lemma unblock_cases:
  "task_unblock ident s = (-1, s) \<and> (\<forall>i. 1 \<le> i \<and> i < 16 \<longrightarrow> \<not> (tid (tasks s ! i) = ident \<and> slot_state s i = TASK_BLOCKED)) \<or>
   (\<exists>i. 1 \<le> i \<and> i < 16 \<and> tid (tasks s ! i) = ident \<and> slot_state s i = TASK_BLOCKED \<and>
     task_unblock ident s = (0, update_task (Task i) (\<lambda>t. t\<lparr>tstate := TASK_READY\<rparr>) s))"
proof (cases "find (\<lambda>i. tid (tasks s ! i) = ident \<and> slot_state s i = TASK_BLOCKED) [1..<16]")
  case None
  then have "task_unblock ident s = (-1, s)"
    by (simp add: task_unblock_def irq_save_def irq_restore_def MAX_TASKS_def)
  with None show ?thesis unfolding find_upt_None by blast
next
  case (Some i)
  then have "task_unblock ident s = (0, update_task (Task i) (\<lambda>t. t\<lparr>tstate := TASK_READY\<rparr>) s)"
    by (simp add: task_unblock_def irq_save_def irq_restore_def MAX_TASKS_def)
  with Some show ?thesis unfolding find_upt_Some by blast
qed

lemma create_inv:
  assumes inv: "sched_inv s"
  shows "sched_inv (snd (task_create ep s))"
proof (cases "ep = 0 \<or> free_slot s = None")
  case True
  then show ?thesis using task_create_spec [OF inv, of ep] inv by (cases "ep = 0") (auto simp: task_create_def)
next
  case False
  then obtain i where i: "free_slot s = Some i" by auto
  have links: "sched_links s" and ids: "ids_ok s" and len: "length (tasks s) = 16"
    using inv by (simp_all add: sched_inv_def ids_ok_def)
  note f = free_slot_id [OF ids i]
  obtain m' where m': "snd (task_create ep s) = s\<lparr>mem := m',
          tasks := (tasks s)[i := (tasks s ! i)\<lparr>tid := of_nat i, esp := of_nat (stack_base s i + 4040), tstate := TASK_READY\<rparr>],
          nextTaskID := of_nat (max (unat (nextTaskID s)) (Suc i))\<rparr>" (is "_ = ?s")
    using task_create_spec [OF inv, of ep] False i by auto
  have nid: "unat (nextTaskID ?s) = max (unat (nextTaskID s)) (Suc i)"
    using ids f(2) by (simp add: ids_ok_def unat_of_nat_small)
  have ts: "tasks ?s ! j = (if j = i then (tasks s ! i)\<lparr>tid := of_nat i, esp := of_nat (stack_base s i + 4040), tstate := TASK_READY\<rparr> else tasks s ! j)"
    if "j < 16" for j using that len by (simp add: slot_update)
  have own: "own_stack r ?s = own_stack r s" for r by (cases r) simp_all
  have "ids_ok ?s"
    using ids f(2,4) unfolding ids_ok_def nid by (auto simp: slot_update)
  moreover have "unat (of_nat (stack_base s i + 4040) :: u32) \<in> own_stack (Task i) s"
  proof -
    have "unat (of_nat (stack_base s i + 4040) :: u32) = stack_base s i + 4040"
      by (rule unat_of_nat_small) (use links f(1,2) in \<open>auto simp: stack_base_def sched_links_def\<close>)
    with f(1) show ?thesis by (cases i) (auto simp: stack_base_def)
  qed
  then have "saved_ok ?s (curTask s)"
    using inv unfolding sched_inv_def saved_ok_def by (auto simp: slot_update len own simp del: own_stack.simps of_nat_add)
  moreover have "\<exists>cur. curTask s = Some cur \<and> valid_cur cur ?s"
  proof -
    obtain cur where c: "curTask s = Some cur" "valid_cur cur s" using inv by (auto simp: sched_inv_def)
    have "valid_cur cur ?s" using c len by (cases cur) (auto simp: slot_update)
    with c show ?thesis by blast
  qed
  ultimately show ?thesis
    unfolding m' using inv by (auto simp: sched_inv_def sched_links_def slot_update len simp del: own_stack.simps)
qed

lemma sched_step_inv: "sched_step s e s' \<Longrightarrow> sched_inv s \<Longrightarrow> sched_inv s'"
proof (induction rule: sched_step.induct)
  case (tick s cur regs)
  then show ?case by (intro tick_inv)
next
  case (yield s cur regs)
  then show ?case unfolding task_yield_def by (intro yield_inv)
next
  case (exit s i regs)
  then show ?case unfolding task_exit_def by (intro exit_inv)
next
  case (block s i s')
  then have "s' = update_task (Task i) (\<lambda>t. t\<lparr>tstate := TASK_BLOCKED\<rparr>) s" by (simp add: mark_blocked_def)
  moreover have "i < 16" "slot_state s i \<noteq> TASK_TERMINATED" using block by (auto simp: sched_inv_def)
  ultimately show ?case using block by (simp add: inv_update_slot del: update_task.simps)
next
  case (create s ep)
  then show ?case by (rule create_inv)
next
  case (unblock s ident)
  then show ?case
    using unblock_cases [of ident s] inv_update_slot [OF unblock, of _ "\<lambda>t. t\<lparr>tstate := TASK_READY\<rparr>"] by auto
qed

text \<open>A run of the system through states that all satisfy \<open>P\<close>.\<close>

inductive sched_run :: "('a sched_scheme \<Rightarrow> bool) \<Rightarrow> 'a sched_scheme \<Rightarrow> sched_event list \<Rightarrow> 'a sched_scheme \<Rightarrow> bool"
  for P where
  stop: "P s \<Longrightarrow> sched_run P s [] s"
| step: "P s \<Longrightarrow> sched_step s e u \<Longrightarrow> sched_run P u es t \<Longrightarrow> sched_run P s (e # es) t"

inductive_cases run_stepE: "sched_run P s (e # es) t"

lemma sched_run_start: "sched_run P s es t \<Longrightarrow> P s"
  by (cases rule: sched_run.cases)

lemma sched_run_inv: "sched_run P s es t \<Longrightarrow> sched_inv s \<Longrightarrow> sched_inv t"
  by (induction rule: sched_run.induct) (auto intro: sched_step_inv)

lemma fold_update_all:
  "length xs = n \<Longrightarrow> fold (\<lambda>i ts. ts[i := v]) [0..<n] xs = replicate n v"
proof -
  assume n: "length xs = n"
  have "k \<le> n \<Longrightarrow> fold (\<lambda>i ts. ts[i := v]) [0..<k] xs = replicate k v @ drop k xs" for k
  proof (induction k)
    case (Suc k)
    then have "drop k xs = xs ! k # drop (Suc k) xs" using n by (intro Cons_nth_drop_Suc [symmetric]) simp
    with Suc show ?case by (simp add: list_update_append replicate_append_same)
  qed simp
  from this [of n] n show ?thesis by simp
qed

lemma scheduler_init_spec:
  assumes links: "sched_links s" and len: "length (tasks s) = MAX_TASKS"
  shows "\<exists>m'. scheduler_init s = s\<lparr>mem := m',
      tasks := \<lparr>tid = 0, esp = 0, tstate = TASK_RUNNING, tnext = 0\<rparr> # replicate 15 \<lparr>tid = 0, esp = 0, tstate = TASK_TERMINATED, tnext = 0\<rparr>,
      idleTask := (idleTask s)\<lparr>tid := - 1, esp := of_nat (unat (idleStack s) + 4040), tstate := TASK_READY, tnext := 0\<rparr>,
      curTask := Some (Task 0), nextTaskID := 1, schedulerTicks := 0\<rparr> \<and>
    changes_only {unat (idleStack s) + 4040..<unat (idleStack s) + 4096} (mem s) m' \<and>
    fresh_frame (unat (idleStack s) + 4040) (idle_entry_address s) (task_exit_address s) m'"
proof -
  have rep: "fold (\<lambda>i ts. ts[i := v]) [0..<MAX_TASKS] (tasks s) = v # replicate 15 v" for v
    unfolding fold_update_all [OF len] by (simp add: MAX_TASKS_def eval_nat_numeral)
  have "unat (idleStack s) + 4096 \<le> 2 ^ 31" using links by (simp add: sched_links_def)
  note ctx = create_context [OF this]
  let ?t = "s\<lparr>nextTaskID := 1, tasks := \<lparr>tid = 0, esp = 0, tstate = TASK_RUNNING, tnext = 0\<rparr> # replicate 15 \<lparr>tid = 0, esp = 0, tstate = TASK_TERMINATED, tnext = 0\<rparr>,
      idleTask := (idleTask s)\<lparr>tid := - 1, tstate := TASK_READY\<rparr>\<rparr>"
  from ctx [of "idle_entry_address s" ?t] obtain m' where
      "task_create_context (idleStack s) (idle_entry_address s) ?t = (of_nat (unat (idleStack s) + 4040), ?t\<lparr>mem := m'\<rparr>)"
      "changes_only {unat (idleStack s) + 4040..<unat (idleStack s) + 4096} (mem s) m'"
      "fresh_frame (unat (idleStack s) + 4040) (idle_entry_address s) (task_exit_address s) m'"
    by auto
  then show ?thesis unfolding scheduler_init_def Let_def rep by (intro exI [of _ m']) simp
qed

lemma init_inv:
  assumes links: "sched_links s" and len: "length (tasks s) = MAX_TASKS"
  shows "sched_inv (scheduler_init s)"
proof -
  from scheduler_init_spec [OF assms] obtain m' where m': "scheduler_init s = s\<lparr>mem := m',
      tasks := \<lparr>tid = 0, esp = 0, tstate = TASK_RUNNING, tnext = 0\<rparr> # replicate 15 \<lparr>tid = 0, esp = 0, tstate = TASK_TERMINATED, tnext = 0\<rparr>,
      idleTask := (idleTask s)\<lparr>tid := - 1, esp := of_nat (unat (idleStack s) + 4040), tstate := TASK_READY, tnext := 0\<rparr>,
      curTask := Some (Task 0), nextTaskID := 1, schedulerTicks := 0\<rparr>" (is "_ = ?s") by (elim exE conjE)
  define u where "u = ?s"
  have ts: "tasks u ! i = (if i = 0 then \<lparr>tid = 0, esp = 0, tstate = TASK_RUNNING, tnext = 0\<rparr> else \<lparr>tid = 0, esp = 0, tstate = TASK_TERMINATED, tnext = 0\<rparr>)"
    if "i < 16" for i using that by (cases i) (auto simp: u_def)
  have rest: "curTask u = Some (Task 0)" "schedulerTicks u = 0" "tstate (idleTask u) = TASK_READY" "nextTaskID u = 1" "length (tasks u) = 16"
    "esp (idleTask u) = of_nat (unat (idleStack s) + 4040)" "idleStack u = idleStack s"
    by (simp_all add: u_def)
  have sp: "unat (of_nat (unat (idleStack s) + 4040) :: u32) = unat (idleStack s) + 4040"
    by (rule unat_of_nat_small) (use links in \<open>simp add: sched_links_def\<close>)
  have "ids_ok u" unfolding ids_ok_def using ts by (auto simp: rest)
  moreover have "saved_ok u (curTask u)" unfolding saved_ok_def using ts sp by (auto simp: rest)
  moreover have "sched_links u" using links by (simp add: sched_links_def u_def)
  moreover have "\<forall>i < 16. slot_state u i = TASK_RUNNING \<longrightarrow> curTask u = Some (Task i)" using ts by (simp add: rest)
  ultimately show ?thesis unfolding m' u_def [symmetric] sched_inv_def using ts [of 0] by (simp add: rest TIME_SLICE_MS_def)
qed

section \<open>Every ready task runs\<close>

text \<open>How many slots the round-robin search visits from slot \<open>c\<close> to slot \<open>i\<close>, and the number of ticks that may pass
  before slot \<open>i\<close> runs.\<close>

definition dist :: "nat \<Rightarrow> nat \<Rightarrow> nat" where
  "dist c i = (if c < i then i - c else i + 16 - c)"

definition patience :: "nat \<Rightarrow> 'a sched_scheme \<Rightarrow> nat" where
  "patience i s = 10 * dist (cur_index (the (curTask s))) i - unat (schedulerTicks s)"

lemma mod_16: "(n :: nat) < 32 \<Longrightarrow> n mod 16 = (if n < 16 then n else n - 16)"
  by (cases "n < 16") (simp_all add: le_mod_geq)

lemma dist_closer:
  assumes "c < 16" "i < 16" "1 \<le> k" "k < dist c i"
  shows "dist ((c + k) mod 16) i < dist c i"
proof -
  have "(c + k) mod 16 = (if c + k < 16 then c + k else c + k - 16)"
    by (rule mod_16) (use assms in \<open>auto simp: dist_def split: if_splits\<close>)
  with assms show ?thesis by (auto simp: dist_def split: if_splits)
qed

lemma dist_reaches: "c < 16 \<Longrightarrow> i < 16 \<Longrightarrow> (c + dist c i) mod 16 = i \<and> 1 \<le> dist c i \<and> dist c i \<le> 16"
  by (auto simp: dist_def)

lemma cur_index_bound: "(\<And>i. cur = Task i \<Longrightarrow> i < 16) \<Longrightarrow> cur_index cur < 16"
  by (cases cur) auto

lemma next_task_closer:
  assumes ready: "i < 16" "slot_state s i = TASK_READY" and cur: "\<And>c. cur = Task c \<Longrightarrow> c < 16"
  shows "\<exists>j < 16. next_task cur s = Task j \<and> (j = i \<or> dist j i < dist (cur_index cur) i)"
proof -
  let ?c = "cur_index cur"
  have c: "?c < 16" by (rule cur_index_bound [OF cur])
  note d = dist_reaches [OF c ready(1)]
  obtain k where k: "find (\<lambda>k. slot_state s ((?c + k) mod MAX_TASKS) = TASK_READY) [1..<MAX_TASKS + 1] = Some k"
  proof (cases "find (\<lambda>k. slot_state s ((?c + k) mod MAX_TASKS) = TASK_READY) [1..<MAX_TASKS + 1]")
    case None
    then show ?thesis using d ready(2) unfolding find_upt_None MAX_TASKS_def by fastforce
  qed
  then have k': "1 \<le> k" "\<And>j. 1 \<le> j \<Longrightarrow> j < k \<Longrightarrow> slot_state s ((?c + j) mod 16) \<noteq> TASK_READY"
    unfolding find_upt_Some MAX_TASKS_def by auto
  have "k \<le> dist ?c i"
  proof (rule ccontr)
    assume "\<not> k \<le> dist ?c i"
    with k'(2) [of "dist ?c i"] d ready(2) show False by simp
  qed
  then consider "k = dist ?c i" | "k < dist ?c i" by linarith
  then have "(?c + k) mod 16 = i \<or> dist ((?c + k) mod 16) i < dist ?c i"
    by cases (use d dist_closer [OF c ready(1) k'(1)] in auto)
  moreover have "next_task cur s = Task ((?c + k) mod 16)" unfolding next_task_def k by (simp add: MAX_TASKS_def)
  ultimately show ?thesis by auto
qed

text \<open>A switch that does not choose a ready task brings it nearer.\<close>

lemma switch_closer:
  assumes sw: "switchable cur s" and regs: "unat regs \<in> own_stack cur s"
    and i: "i < 16" "slot_state s i = TASK_READY" "cur \<noteq> Task i"
    and other: "curTask (snd (scheduler_schedule regs s)) \<noteq> Some (Task i)"
  shows "slot_state (snd (scheduler_schedule regs s)) i = TASK_READY"
    "patience i (snd (scheduler_schedule regs s)) + 10 \<le> 10 * dist (cur_index cur) i"
proof -
  let ?p = "park cur regs s" and ?t = "next_task cur (park cur regs s)"
  note sc = schedule_switches [OF sw regs]
  have b: "\<And>c. cur = Task c \<Longrightarrow> c < 16" and len: "length (tasks s) = 16"
    using sw by (simp_all add: switchable_def ids_ok_def)
  have ready: "slot_state ?p i = TASK_READY"
    using i len by (cases cur) (auto simp: park_def Let_def slot_update)
  from next_task_closer [OF i(1) ready b] obtain j where j: "j < 16" "?t = Task j" "j = i \<or> dist j i < dist (cur_index cur) i"
    by blast
  have "j \<noteq> i" using other sc(4) j(2) by auto
  have len': "length (tasks ?p) = 16" using len by (simp add: park_def Let_def)
  have "snd (scheduler_schedule regs s) = (update_task (Task j) (\<lambda>x. x\<lparr>tstate := TASK_RUNNING\<rparr>) (?p\<lparr>curTask := Some (Task j)\<rparr>))\<lparr>schedulerTicks := 0\<rparr>"
    unfolding sc(1) j(2) by (simp add: switch_to_def)
  then show "slot_state (snd (scheduler_schedule regs s)) i = TASK_READY"
    using \<open>j \<noteq> i\<close> ready len' i(1) by (simp add: slot_update)
  show "patience i (snd (scheduler_schedule regs s)) + 10 \<le> 10 * dist (cur_index cur) i"
    using \<open>j \<noteq> i\<close> j by (simp add: patience_def sc(4))
qed

fun is_tick :: "sched_event \<Rightarrow> bool" where
  "is_tick (Tick _) = True"
| "is_tick _ = False"

text \<open>Ready tasks other than the current one are left alone by everything except a switch.\<close>

lemma ready_kept:
  assumes inv: "sched_inv s" and i: "i < 16" "slot_state s i = TASK_READY"
  shows "curTask s \<noteq> Some (Task i) \<Longrightarrow> mark_blocked s = Some s' \<Longrightarrow> slot_state s' i = TASK_READY \<and> patience i s' = patience i s"
    "slot_state (snd (task_create ep s)) i = TASK_READY \<and> patience i (snd (task_create ep s)) = patience i s"
    "slot_state (snd (task_unblock ident s)) i = TASK_READY \<and> patience i (snd (task_unblock ident s)) = patience i s"
proof -
  have len: "length (tasks s) = 16" using inv by (simp add: sched_inv_def ids_ok_def)
  have upd: "slot_state (update_task t f s) i = TASK_READY \<and> patience i (update_task t f s) = patience i s" if "t \<noteq> Task i" for t f
    using that i len by (cases t) (simp_all add: patience_def slot_update)
  show "slot_state s' i = TASK_READY \<and> patience i s' = patience i s" if "curTask s \<noteq> Some (Task i)" "mark_blocked s = Some s'"
    using that upd by (auto simp: mark_blocked_def simp del: update_task.simps)
  show "slot_state (snd (task_unblock ident s)) i = TASK_READY \<and> patience i (snd (task_unblock ident s)) = patience i s"
  proof -
    have "Task j \<noteq> Task i" if "slot_state s j = TASK_BLOCKED" for j using that i by auto
    then show ?thesis using unblock_cases [of ident s] upd i by (auto simp del: update_task.simps)
  qed
  show "slot_state (snd (task_create ep s)) i = TASK_READY \<and> patience i (snd (task_create ep s)) = patience i s"
  proof (cases "ep = 0 \<or> free_slot s = None")
    case True
    then show ?thesis using task_create_spec [OF inv, of ep] i by (cases "ep = 0") (auto simp: task_create_def)
  next
    case False
    then obtain j where j: "free_slot s = Some j" by auto
    have "slot_state s j = TASK_TERMINATED" by (rule free_slot_id(3) [OF _ j]) (use inv in \<open>simp add: sched_inv_def\<close>)
    then have "j \<noteq> i" using i by auto
    moreover obtain m' where "snd (task_create ep s) = s\<lparr>mem := m',
          tasks := (tasks s)[j := (tasks s ! j)\<lparr>tid := of_nat j, esp := of_nat (stack_base s j + 4040), tstate := TASK_READY\<rparr>],
          nextTaskID := of_nat (max (unat (nextTaskID s)) (Suc j))\<rparr>"
      using task_create_spec [OF inv, of ep] False j by auto
    ultimately show ?thesis using i len by (simp add: patience_def slot_update)
  qed
qed

lemma inv_ticks: "sched_inv s \<Longrightarrow> unat (schedulerTicks s) < 10"
proof -
  assume "sched_inv s"
  then have "schedulerTicks s < 10" unfolding sched_inv_def TIME_SLICE_MS_def by (elim conjE)
  then show ?thesis by (simp add: word_less_nat_alt)
qed

lemma waiting_switch:
  assumes sw: "switchable cur s" and regs: "unat regs \<in> own_stack cur s" and i: "i < 16" "slot_state s i = TASK_READY" "cur \<noteq> Task i"
    and other: "curTask (snd (scheduler_schedule regs s)) \<noteq> Some (Task i)" and ticks: "unat (schedulerTicks s) < 10"
  shows "slot_state (snd (scheduler_schedule regs s)) i = TASK_READY \<and> patience i (snd (scheduler_schedule regs s)) + 1 \<le> patience i s"
proof -
  have "curTask s = Some cur" using sw unfolding switchable_def by (elim conjE)
  then have "patience i s = 10 * dist (cur_index cur) i - unat (schedulerTicks s)" by (simp add: patience_def)
  with switch_closer(2) [OF sw regs i other] ticks
  have "patience i (snd (scheduler_schedule regs s)) + 1 \<le> patience i s" by linarith
  with switch_closer(1) [OF sw regs i other] show ?thesis by (rule conjI)
qed

lemma waiting_tick:
  assumes inv: "sched_inv s" and cur: "curTask s = Some cur" "unat regs \<in> own_stack cur s" and i: "i < 16" "slot_state s i = TASK_READY" "cur \<noteq> Task i"
    and other: "curTask (snd (scheduler_tick regs s)) \<noteq> Some (Task i)"
  shows "slot_state (snd (scheduler_tick regs s)) i = TASK_READY \<and> patience i (snd (scheduler_tick regs s)) + 1 \<le> patience i s"
  using tick_cases [OF inv, of regs]
proof (elim disjE conjE)
  assume lt: "schedulerTicks s + 1 < TIME_SLICE_MS" and eq: "scheduler_tick regs s = (regs, s\<lparr>schedulerTicks := schedulerTicks s + 1\<rparr>)"
  have "cur_index cur < 16" using inv cur(1) by (intro cur_index_bound) (auto simp: sched_inv_def)
  then have d: "1 \<le> dist (cur_index cur) i" using dist_reaches i(1) by blast
  have "unat (schedulerTicks s + 1) = unat (schedulerTicks s) + 1"
    using inv_ticks [OF inv] by (simp add: unat_word_ariths)
  with eq i d inv_ticks [OF inv] cur(1) show ?thesis by (simp add: patience_def)
next
  let ?s = "s\<lparr>schedulerTicks := 0\<rparr>"
  assume last: "\<not> schedulerTicks s + 1 < TIME_SLICE_MS" and eq: "scheduler_tick regs s = scheduler_schedule regs ?s"
  have sw: "switchable cur ?s"
    by (rule sched_inv_switchable [OF ticks_inv [OF inv]]) (simp_all add: TIME_SLICE_MS_def cur)
  have "slot_state (snd (scheduler_tick regs s)) i = TASK_READY"
    "patience i (snd (scheduler_tick regs s)) + 10 \<le> 10 * dist (cur_index cur) i"
    unfolding eq by (rule switch_closer [OF sw]; use cur i other eq in simp)+
  moreover have "patience i s = 10 * dist (cur_index cur) i - unat (schedulerTicks s)" by (simp add: patience_def cur(1))
  ultimately show ?thesis using inv_ticks [OF inv] by simp
qed

lemma waiting_step:
  assumes "sched_step s e s'" "sched_inv s" "i < 16" "slot_state s i = TASK_READY"
    "curTask s \<noteq> Some (Task i)" "curTask s' \<noteq> Some (Task i)"
  shows "slot_state s' i = TASK_READY \<and> patience i s' + (if is_tick e then 1 else 0) \<le> patience i s"
  using assms
proof (induction rule: sched_step.induct)
  case (tick s cur regs)
  then show ?case using waiting_tick [of s cur regs i] by simp
next
  case (yield s cur regs)
  then show ?case
    using waiting_switch [OF sched_inv_switchable, of s cur regs i] inv_ticks [of s] by (simp add: task_yield_def)
next
  case (exit s j regs)
  let ?s = "update_task (Task j) (\<lambda>t. t\<lparr>tstate := TASK_TERMINATED\<rparr>) s"
  have j: "j \<noteq> i" using exit by auto
  have "regs \<noteq> 0" by (rule own_stack_nonzero [OF _ exit(2)]) (use exit(3) in \<open>simp add: sched_inv_def\<close>)
  then have eq: "task_exit regs s = scheduler_schedule regs ?s" using exit(1) by (simp add: scheduler_exit_def task_exit_def)
  have "length (tasks s) = 16" using exit(3) by (simp add: sched_inv_def ids_ok_def)
  then have ready: "slot_state ?s i = TASK_READY" using j exit(4,5) by (simp add: slot_update)
  have other: "curTask (snd (scheduler_schedule regs ?s)) \<noteq> Some (Task i)" using exit(7) unfolding eq .
  have "patience i ?s = patience i s" by (simp add: patience_def)
  with waiting_switch [OF exit_switchable [OF exit(3,1)] _ exit(4) ready _ other] exit(2) j inv_ticks [OF exit(3)]
  show ?case unfolding eq update_task_sel by simp
next
  case (block s j s')
  then show ?case using ready_kept(1) [of s i s'] by simp
next
  case (create s ep)
  then show ?case using ready_kept(2) [of s i ep] by simp
next
  case (unblock s ident)
  then show ?case using ready_kept(3) [of s i ident] by simp
qed

lemma waiting_run:
  "sched_run (\<lambda>s. curTask s \<noteq> Some (Task i)) s es t \<Longrightarrow> sched_inv s \<Longrightarrow> i < 16 \<Longrightarrow> slot_state s i = TASK_READY \<Longrightarrow>
   slot_state t i = TASK_READY \<and> length (filter is_tick es) + patience i t \<le> patience i s"
proof (induction rule: sched_run.induct)
  case (step s e u es t)
  have "curTask u \<noteq> Some (Task i)" using sched_run_start [OF step(3)] .
  from waiting_step [OF step(2) step.prems step(1) this] sched_step_inv [OF step(2) step.prems(1)] step.IH step.prems(2)
  show ?case by (auto split: if_splits)
qed simp

section \<open>What a switch leaves alone\<close>

lemma park_other: "r \<noteq> cur \<Longrightarrow> deref r (park cur regs s) = deref r s"
  by (cases r; cases cur) (simp_all add: park_def Let_def)

lemma park_self:
  assumes "\<And>i. cur = Task i \<Longrightarrow> i < length (tasks s)"
  shows "deref cur (park cur regs s) = (deref cur s)\<lparr>esp := regs,
    tstate := (if tstate (deref cur s) = TASK_RUNNING then TASK_READY else tstate (deref cur s))\<rparr>"
  using assms by (cases cur) (simp_all add: park_def Let_def)

lemma switch_to_tasks:
  "r \<noteq> t \<Longrightarrow> deref r (snd (switch_to t s)) = deref r s"
  "(\<And>i. t = Task i \<Longrightarrow> i < length (tasks s)) \<Longrightarrow> deref t (snd (switch_to t s)) = (deref t s)\<lparr>tstate := TASK_RUNNING\<rparr>"
  "(\<And>i. t = Task i \<Longrightarrow> i < length (tasks s)) \<Longrightarrow> fst (switch_to t s) = esp (deref t s)"
  by (cases r; cases t; simp add: switch_to_def) (cases t; simp add: switch_to_def)+

lemma switch_to_rest:
  "pg.truncate (snd (switch_to t s)) = pg.truncate s" "schedulerTicks (snd (switch_to t s)) = 0"
  "length (tasks (snd (switch_to t s))) = length (tasks s)"
  by (cases t; simp add: switch_to_def pg.defs)+

lemma park_rest: "pg.truncate (park cur regs s) = pg.truncate s" "length (tasks (park cur regs s)) = length (tasks s)"
  by (cases cur; simp add: park_def Let_def pg.defs)+

text \<open>Everything but the variables a switch writes.\<close>

definition sched_rest :: "'a sched_scheme \<Rightarrow> 'a sched_scheme" where
  "sched_rest s = s\<lparr>tasks := [], idleTask := \<lparr>tid = 0, esp = 0, tstate = TASK_READY, tnext = 0\<rparr>, curTask := None, schedulerTicks := 0\<rparr>"

lemma sched_rest_update [simp]: "sched_rest (update_task t f s) = sched_rest s" "sched_rest (s\<lparr>schedulerTicks := n\<rparr>) = sched_rest s"
  by (cases t; simp add: sched_rest_def)+

lemma sched_rest_switch [simp]: "sched_rest (snd (switch_to t s)) = sched_rest s"
  by (cases t) (simp_all add: switch_to_def sched_rest_def)

lemma sched_rest_schedule [simp]: "sched_rest (snd (scheduler_schedule regs s)) = sched_rest s"
  by (simp add: scheduler_schedule_def Let_def del: update_task.simps split: option.split)

lemma sched_rest_tick [simp]:
  "sched_rest (snd (scheduler_tick regs s)) = sched_rest s" "sched_rest (snd (scheduler_exit regs s)) = sched_rest s"
  by (simp_all add: scheduler_tick_def scheduler_exit_def Let_def del: update_task.simps split: option.split)

lemma sleeping_switch:
  assumes sw: "switchable cur s" and regs: "unat regs \<in> own_stack cur s" and i: "i < 16" "slot_state s i = TASK_BLOCKED" "cur \<noteq> Task i"
  shows "slot_state (snd (scheduler_schedule regs s)) i = TASK_BLOCKED \<and> curTask (snd (scheduler_schedule regs s)) \<noteq> Some (Task i)"
proof -
  let ?p = "park cur regs s" and ?t = "next_task cur (park cur regs s)"
  have p: "deref (Task i) ?p = deref (Task i) s" by (rule park_other) (use i in auto)
  have t: "?t \<noteq> Task i" using next_task_ready [of cur ?p] p i(2) by auto
  then have "deref (Task i) (snd (switch_to ?t ?p)) = deref (Task i) ?p" by (intro switch_to_tasks(1)) auto
  with p t i(2) schedule_switches(1,4) [OF sw regs] show ?thesis by simp
qed

lemma sleeping_step:
  assumes "sched_step s e s'" "sched_inv s" "i < 16" "slot_state s i = TASK_BLOCKED" "curTask s \<noteq> Some (Task i)"
    "i = 0 \<or> e \<noteq> Unblock (of_nat i)"
  shows "slot_state s' i = TASK_BLOCKED \<and> curTask s' \<noteq> Some (Task i)"
  using assms
proof (induction rule: sched_step.induct)
  case (tick s cur regs)
  let ?s = "s\<lparr>schedulerTicks := 0\<rparr>"
  have sw: "switchable cur ?s"
    by (rule sched_inv_switchable [OF ticks_inv [OF tick(3)]]) (simp_all add: TIME_SLICE_MS_def tick(1))
  from sleeping_switch [OF sw, of regs i] tick tick_cases [OF tick(3), of regs] show ?case by auto
next
  case (yield s cur regs)
  then show ?case using sleeping_switch [OF sched_inv_switchable, of s cur regs i] by (simp add: task_yield_def)
next
  case (exit s j regs)
  let ?s = "update_task (Task j) (\<lambda>t. t\<lparr>tstate := TASK_TERMINATED\<rparr>) s"
  have j: "j \<noteq> i" using exit by auto
  have "regs \<noteq> 0" by (rule own_stack_nonzero [OF _ exit(2)]) (use exit(3) in \<open>simp add: sched_inv_def\<close>)
  then have eq: "task_exit regs s = scheduler_schedule regs ?s" using exit(1) by (simp add: scheduler_exit_def task_exit_def)
  have "slot_state ?s i = TASK_BLOCKED" using j exit(4,5) by simp
  with sleeping_switch [OF exit_switchable [OF exit(3,1)] _ exit(4), of regs] exit(2) j
  show ?case unfolding eq update_task_sel by simp
next
  case (block s j s')
  then have "j \<noteq> i" by auto
  with block show ?case by (auto simp: mark_blocked_def)
next
  case (create s ep)
  show ?case
  proof (cases "ep = 0 \<or> free_slot s = None")
    case True
    then show ?thesis using task_create_spec [OF create(1), of ep] create by (cases "ep = 0") (auto simp: task_create_def)
  next
    case False
    then obtain j where j: "free_slot s = Some j" by auto
    have "slot_state s j = TASK_TERMINATED" by (rule free_slot_id(3) [OF _ j]) (use create(1) in \<open>simp add: sched_inv_def\<close>)
    then have "j \<noteq> i" using create by auto
    then show ?thesis using task_create_spec [OF create(1), of ep] False j create by auto
  qed
next
  case (unblock s ident)
  have "j \<noteq> i" if "1 \<le> j" "tid (tasks s ! j) = ident" "slot_state s j = TASK_BLOCKED" for j
  proof
    assume "j = i"
    then have "tid (tasks s ! i) = of_nat i" using unblock by (auto simp: sched_inv_def ids_ok_def split: if_splits)
    with \<open>j = i\<close> that unblock show False by auto
  qed
  then show ?case using unblock_cases [of ident s] unblock by auto
qed

lemma sleeping_run:
  "sched_run P s es t \<Longrightarrow> sched_inv s \<Longrightarrow> i < 16 \<Longrightarrow> slot_state s i = TASK_BLOCKED \<Longrightarrow> curTask s \<noteq> Some (Task i) \<Longrightarrow>
   i = 0 \<or> Unblock (of_nat i) \<notin> set es \<Longrightarrow> slot_state t i = TASK_BLOCKED \<and> curTask t \<noteq> Some (Task i)"
proof (induction rule: sched_run.induct)
  case (step s e u es t)
  from sleeping_step [OF step(2) step.prems(1-4)] sched_step_inv [OF step(2) step.prems(1)] step.IH step.prems(2,5)
  show ?case by auto
qed simp

text \<open>The task a switch must choose, by distance round the table.\<close>

definition runnable :: "'a sched_scheme \<Rightarrow> nat \<Rightarrow> bool" where
  "runnable s i \<longleftrightarrow> slot_state s i = TASK_READY \<or> slot_state s i = TASK_RUNNING"

fun chosen :: "task_ref \<Rightarrow> 'a sched_scheme \<Rightarrow> task_ref \<Rightarrow> bool" where
  "chosen cur s (Task j) \<longleftrightarrow> j < 16 \<and> runnable s j \<and> (\<forall>i < 16. runnable s i \<longrightarrow> dist (cur_index cur) j \<le> dist (cur_index cur) i)"
| "chosen cur s IdleTask \<longleftrightarrow> (\<forall>i < 16. \<not> runnable s i)"

lemma dist_mod: "c < 16 \<Longrightarrow> 1 \<le> k \<Longrightarrow> k \<le> 16 \<Longrightarrow> dist c ((c + k) mod 16) = k"
  by (subst mod_16) (auto simp: dist_def)

lemma runnable_park:
  assumes "switchable cur s" "i < 16"
  shows "slot_state (park cur regs s) i = TASK_READY \<longleftrightarrow> runnable s i"
proof (cases "cur = Task i")
  case True
  have "length (tasks s) = 16" using assms(1) by (simp add: switchable_def ids_ok_def)
  with park_self [of cur s regs] True assms(2) show ?thesis by (auto simp: runnable_def)
next
  case False
  then have "slot_state s i \<noteq> TASK_RUNNING" using assms unfolding switchable_def by blast
  with park_other [of "Task i" cur regs s] False show ?thesis by (auto simp: runnable_def)
qed

lemma next_task_chosen:
  assumes sw: "switchable cur s"
  shows "chosen cur s (next_task cur (park cur regs s))"
proof -
  let ?p = "park cur regs s" and ?c = "cur_index cur"
  have c: "?c < 16" by (rule cur_index_bound) (use sw in \<open>auto simp: switchable_def\<close>)
  let ?P = "\<lambda>k. slot_state ?p ((?c + k) mod MAX_TASKS) = TASK_READY"
  have near: "?P (dist ?c i)" if "i < 16" "runnable s i" for i
    using dist_reaches [OF c that(1)] runnable_park [OF sw that(1), of regs] that(2) by (simp add: MAX_TASKS_def)
  show ?thesis
  proof (cases "find ?P [1..<MAX_TASKS + 1]")
    case None
    then have "next_task cur ?p = IdleTask" by (simp only: next_task_def option.case)
    moreover have "\<not> runnable s i" if "i < 16" for i
      using near [OF that] dist_reaches [OF c that] None unfolding find_upt_None MAX_TASKS_def by auto
    ultimately show ?thesis by simp
  next
    case (Some k)
    then have k: "1 \<le> k" "k \<le> 16" "?P k" and least: "\<And>j. 1 \<le> j \<Longrightarrow> j < k \<Longrightarrow> \<not> ?P j"
      unfolding find_upt_Some MAX_TASKS_def by auto
    let ?j = "(?c + k) mod 16"
    have "next_task cur ?p = Task ?j" using Some by (simp only: next_task_def option.case MAX_TASKS_def)
    moreover have "runnable s ?j" using k(3) runnable_park [OF sw, of ?j regs] by (simp add: MAX_TASKS_def)
    moreover have "dist ?c ?j \<le> dist ?c i" if "i < 16" "runnable s i" for i
    proof -
      have "\<not> dist ?c i < k" using least near [OF that] dist_reaches [OF c that(1)] by blast
      then show ?thesis by (simp add: dist_mod [OF c k(1,2)])
    qed
    ultimately show ?thesis by simp
  qed
qed

lemma schedule_effect:
  assumes sw: "switchable cur s" and regs: "unat regs \<in> own_stack cur s"
  shows "\<exists>t s'. chosen cur s t \<and> scheduler_schedule regs s = (if t = cur then regs else esp (deref t s), s') \<and>
    unat (if t = cur then regs else esp (deref t s)) \<in> own_stack t s \<and>
    curTask s' = Some t \<and> tstate (deref t s') = TASK_RUNNING \<and> schedulerTicks s' = 0 \<and>
    (t \<noteq> cur \<longrightarrow> deref cur s' = (deref cur s)\<lparr>esp := regs,
       tstate := (if tstate (deref cur s) = TASK_RUNNING then TASK_READY else tstate (deref cur s))\<rparr>) \<and>
    (\<forall>r. r \<noteq> cur \<and> r \<noteq> t \<longrightarrow> deref r s' = deref r s) \<and> pg.truncate s' = pg.truncate s \<and> sched_inv s'"
proof -
  define p where "p = park cur regs s"
  define t where "t = next_task cur p"
  note sc = schedule_switches [OF sw regs, folded p_def, folded t_def]
  have ch: "chosen cur s t" unfolding t_def p_def by (rule next_task_chosen [OF sw])
  have len: "length (tasks s) = 16" using sw by (simp add: switchable_def ids_ok_def)
  have tb: "\<And>i. t = Task i \<Longrightarrow> i < length (tasks p)" using ch len by (auto simp: p_def park_rest)
  have cb: "\<And>i. cur = Task i \<Longrightarrow> i < length (tasks s)" using sw len by (auto simp: switchable_def)
  have self: "deref cur p = (deref cur s)\<lparr>esp := regs,
      tstate := (if tstate (deref cur s) = TASK_RUNNING then TASK_READY else tstate (deref cur s))\<rparr>"
    unfolding p_def by (rule park_self [OF cb])
  have other: "r \<noteq> cur \<Longrightarrow> deref r p = deref r s" for r unfolding p_def by (rule park_other)
  have ret: "fst (switch_to t p) = (if t = cur then regs else esp (deref t s))"
    using switch_to_tasks(3) [OF tb] self other [of t] by auto
  show ?thesis
  proof (intro exI conjI)
    show "scheduler_schedule regs s = (if t = cur then regs else esp (deref t s), snd (switch_to t p))"
      unfolding sc(1) by (rule prod_eqI) (simp_all add: ret)
    show "unat (if t = cur then regs else esp (deref t s)) \<in> own_stack t s" using sc(5) unfolding sc(1) ret .
    show "sched_inv (snd (switch_to t p))" using sc(3) unfolding sc(1) .
    show "curTask (snd (switch_to t p)) = Some t" using sc(4) unfolding sc(1) .
    show "tstate (deref t (snd (switch_to t p))) = TASK_RUNNING" using switch_to_tasks(2) [OF tb] by simp
    show "pg.truncate (snd (switch_to t p)) = pg.truncate s" by (simp add: switch_to_rest p_def park_rest)
    show "\<forall>r. r \<noteq> cur \<and> r \<noteq> t \<longrightarrow> deref r (snd (switch_to t p)) = deref r s"
      using switch_to_tasks(1) other by metis
    show "t \<noteq> cur \<longrightarrow> deref cur (snd (switch_to t p)) = (deref cur s)\<lparr>esp := regs,
       tstate := (if tstate (deref cur s) = TASK_RUNNING then TASK_READY else tstate (deref cur s))\<rparr>"
      using switch_to_tasks(1) [of cur t p] self by simp
  qed (simp_all add: ch switch_to_rest)
qed

section \<open>A concrete state\<close>

definition sched_loaded :: sched where
  "sched_loaded = pg.extend pg_loaded (sched.fields (replicate 16 \<lparr>tid = 0, esp = 0, tstate = TASK_READY, tnext = 0\<rparr>)
     \<lparr>tid = 0, esp = 0, tstate = TASK_READY, tnext = 0\<rparr> None 0 0 0x20000 0x30000 0x8000 0x9000)"

definition sched_two :: sched where
  "sched_two = snd (task_create 0x5000 (scheduler_init sched_loaded))"

lemma sched_loaded: "sched_links sched_loaded" "length (tasks sched_loaded) = MAX_TASKS" "taskStacks sched_loaded = 0x20000"
  "idleStack sched_loaded = 0x30000" "task_exit_address sched_loaded = 0x8000"
  by (simp_all add: sched_links_def MAX_TASKS_def sched_loaded_def pg.defs sched.defs pg_loaded_def)

lemma sched_started:
  defines "s \<equiv> scheduler_init sched_loaded"
  shows "sched_inv s" "curTask s = Some (Task 0)" "slot_state s 0 = TASK_RUNNING" "free_slot s = Some 1" "schedulerTicks s = 0"
    "taskStacks s = 0x20000" "nextTaskID s = 1" "task_exit_address s = 0x8000"
    "i < 15 \<Longrightarrow> tasks s ! Suc i = \<lparr>tid = 0, esp = 0, tstate = TASK_TERMINATED, tnext = 0\<rparr>"
proof -
  show "sched_inv s" unfolding s_def by (rule init_inv [OF sched_loaded(1,2)])
  obtain m' where m': "s = sched_loaded\<lparr>mem := m',
      tasks := \<lparr>tid = 0, esp = 0, tstate = TASK_RUNNING, tnext = 0\<rparr> # replicate 15 \<lparr>tid = 0, esp = 0, tstate = TASK_TERMINATED, tnext = 0\<rparr>,
      idleTask := (idleTask sched_loaded)\<lparr>tid := - 1, esp := of_nat (unat (idleStack sched_loaded) + 4040), tstate := TASK_READY, tnext := 0\<rparr>,
      curTask := Some (Task 0), nextTaskID := 1, schedulerTicks := 0\<rparr>"
    using scheduler_init_spec [OF sched_loaded(1,2)] unfolding s_def by (elim exE conjE)
  show "curTask s = Some (Task 0)" "slot_state s 0 = TASK_RUNNING" "schedulerTicks s = 0" "taskStacks s = 0x20000" "nextTaskID s = 1"
    "task_exit_address s = 0x8000"
    "i < 15 \<Longrightarrow> tasks s ! Suc i = \<lparr>tid = 0, esp = 0, tstate = TASK_TERMINATED, tnext = 0\<rparr>"
    by (simp_all add: m' sched_loaded)
  show "free_slot s = Some 1" unfolding free_slot_def find_upt_Some by (simp add: m' MAX_TASKS_def)
qed

lemma sched_two:
  "sched_inv sched_two" "curTask sched_two = Some (Task 0)" "slot_state sched_two 1 = TASK_READY" "slot_state sched_two 0 = TASK_RUNNING"
  "schedulerTicks sched_two = 0" "esp (tasks sched_two ! 1) = 0x20FC8" "own_stack (Task 0) sched_two = {1..<2 ^ 32}"
  "j < 14 \<Longrightarrow> slot_state sched_two (Suc (Suc j)) = TASK_TERMINATED"
proof -
  let ?s = "scheduler_init sched_loaded"
  show "sched_inv sched_two" unfolding sched_two_def by (rule create_inv [OF sched_started(1)])
  have base: "stack_base ?s 1 = 0x20000" by (simp add: stack_base_def sched_started)
  have len: "length (tasks ?s) = 16" using sched_started(1) by (simp add: sched_inv_def ids_ok_def)
  obtain m' where m': "sched_two = ?s\<lparr>mem := m',
        tasks := (tasks ?s)[1 := (tasks ?s ! 1)\<lparr>tid := of_nat 1, esp := of_nat (stack_base ?s 1 + 4040), tstate := TASK_READY\<rparr>],
        nextTaskID := of_nat (max (unat (nextTaskID ?s)) (Suc 1))\<rparr>"
    using task_create_spec [OF sched_started(1), of "0x5000"] by (auto simp: sched_two_def sched_started)
  show "curTask sched_two = Some (Task 0)" "slot_state sched_two 1 = TASK_READY" "slot_state sched_two 0 = TASK_RUNNING"
    "schedulerTicks sched_two = 0" "esp (tasks sched_two ! 1) = 0x20FC8" "own_stack (Task 0) sched_two = {1..<2 ^ 32}"
    using base by (simp_all add: m' sched_started len)
  show "j < 14 \<Longrightarrow> slot_state sched_two (Suc (Suc j)) = TASK_TERMINATED" using sched_started(9) [of "Suc j"] by (simp add: m')
qed

section \<open>Properties\<close>

text \<open>C7. From \<^verbatim>\<open>scheduler_init\<close> on, whatever the order of timer ticks, yields, exits, blocking, creations and unblockings:
  at most one task is running and it is the current one, the time slice counter stays below its limit, slot \<open>i\<close>
  has identity \<open>i\<close> once used, and every task that may run again has its registers saved on its own stack.\<close>

theorem scheduler_run_inv:
  "sched_links s \<Longrightarrow> length (tasks s) = MAX_TASKS \<Longrightarrow> sched_run (\<lambda>_. True) (scheduler_init s) es t \<Longrightarrow> sched_inv t"
  by (rule sched_run_inv [OF _ init_inv])

theorem scheduler_run_inv_witness:
  "\<exists>t. sched_run (\<lambda>_. True) (scheduler_init sched_loaded) [Create 0x5000, Yield 0x9000, Unblock 1] t \<and> sched_inv t"
proof -
  let ?u = "snd (task_yield 0x9000 sched_two)"
  have "sched_step sched_two (Yield 0x9000) ?u" by (rule sched_step.yield [OF sched_two(2)]) (simp add: sched_two(7) del: own_stack.simps)
  moreover have "sched_step (scheduler_init sched_loaded) (Create 0x5000) sched_two" unfolding sched_two_def by (rule sched_step.create)
  ultimately have "sched_run (\<lambda>_. True) (scheduler_init sched_loaded) [Create 0x5000, Yield 0x9000, Unblock 1] (snd (task_unblock 1 ?u))"
    by (blast intro: sched_run.intros sched_step.unblock)
  with scheduler_run_inv [OF sched_loaded(1,2)] show ?thesis by blast
qed



text \<open>C8. No starvation. A task that is ready in a valid state becomes current before the 160th timer tick (sixteen slots
  times a slice of ten ticks), whatever else happens in between: a run in which it never becomes current has fewer
  than 160 ticks, and it is still ready at the end.\<close>

theorem ready_task_runs_soon:
  assumes "sched_inv s" "i < MAX_TASKS" "slot_state s i = TASK_READY"
    "sched_run (\<lambda>u. curTask u \<noteq> Some (Task i)) s es t"
  shows "length (filter is_tick es) < 160 \<and> slot_state t i = TASK_READY"
proof -
  have i: "i < 16" using assms(2) by (simp add: MAX_TASKS_def)
  have d: "1 \<le> dist (cur_index (the (curTask u))) i \<and> dist (cur_index (the (curTask u))) i \<le> 16" if "sched_inv u" for u :: "'a sched_scheme"
    by (rule dist_reaches [THEN conjunct2, OF _ i], rule cur_index_bound) (use that in \<open>auto simp: sched_inv_def\<close>)
  have "patience i s \<le> 160" using d [OF assms(1)] unfolding patience_def by linarith
  moreover have "sched_inv t" by (rule sched_run_inv [OF assms(4,1)])
  then have "1 \<le> patience i t" using d [of t] inv_ticks [of t] unfolding patience_def by linarith
  ultimately show ?thesis using waiting_run [OF assms(4,1) i assms(3)] by linarith
qed

theorem ready_task_runs_soon_witness:
  "\<exists>t. sched_run (\<lambda>u. curTask u \<noteq> Some (Task 1)) sched_two [Tick 0x9000] t \<and> slot_state t 1 = TASK_READY"
proof -
  let ?t = "snd (scheduler_tick 0x9000 sched_two)"
  have step: "sched_step sched_two (Tick 0x9000) ?t"
    by (rule sched_step.tick [OF sched_two(2)]) (simp add: sched_two(7) del: own_stack.simps)
  have "?t = sched_two\<lparr>schedulerTicks := 1\<rparr>" by (simp add: scheduler_tick_def TIME_SLICE_MS_def sched_two(5))
  then have "curTask ?t \<noteq> Some (Task 1)" by (simp add: sched_two(2))
  then have "sched_run (\<lambda>u. curTask u \<noteq> Some (Task 1)) sched_two [Tick 0x9000] ?t"
    using step sched_two(2) by (intro sched_run.step [OF _ step] sched_run.stop) simp_all
  with ready_task_runs_soon [OF sched_two(1) _ sched_two(3) this] show ?thesis by (auto simp: MAX_TASKS_def)
qed

text \<open>C36. A blocked task that has been switched away from stays blocked and off the processor until \<^verbatim>\<open>task_unblock\<close> is called
  with its identity. The kernel task in slot 0 is never woken, whatever is called: the search in \<^verbatim>\<open>task_unblock\<close>
  starts at slot 1.\<close>

theorem blocked_task_sleeps:
  assumes "sched_inv s" "i < MAX_TASKS" "slot_state s i = TASK_BLOCKED" "curTask s \<noteq> Some (Task i)"
    "sched_run (\<lambda>_. True) s es t" "i = 0 \<or> Unblock (of_nat i) \<notin> set es"
  shows "slot_state t i = TASK_BLOCKED \<and> curTask t \<noteq> Some (Task i)"
  using sleeping_run [OF assms(5,1) _ assms(3,4,6)] assms(2) by (simp add: MAX_TASKS_def)

theorem blocked_task_sleeps_witness:
  "\<exists>s u t. mark_blocked sched_two = Some s \<and> task_block 0x9000 sched_two = Some u \<and>
     sched_run (\<lambda>_. True) (snd u) [Unblock 0, Create 0x6000] t \<and> slot_state t 0 = TASK_BLOCKED \<and> curTask t \<noteq> Some (Task 0)"
proof -
  let ?s = "update_task (Task 0) (\<lambda>t. t\<lparr>tstate := TASK_BLOCKED\<rparr>) sched_two"
  have blocked: "mark_blocked sched_two = Some ?s" by (simp add: mark_blocked_def sched_two(2))
  have inv: "sched_inv ?s" by (rule sched_step_inv [OF sched_step.block [OF sched_two(2) blocked] sched_two(1)])
  have len: "length (tasks sched_two) = 16" using sched_two(1) by (simp add: sched_inv_def ids_ok_def)
  have st: "curTask ?s = Some (Task 0)" "slot_state ?s 0 = TASK_BLOCKED" "slot_state ?s 1 = TASK_READY"
    using sched_two(2,3) len by simp_all
  have regs: "unat (0x9000 :: u32) \<in> own_stack (Task 0) ?s" by simp
  let ?u = "scheduler_schedule 0x9000 ?s"
  have u: "task_block 0x9000 sched_two = Some ?u" by (simp add: task_block_def blocked task_yield_def del: update_task.simps)
  have sw: "switchable (Task 0) ?s" by (rule sched_inv_switchable [OF inv st(1)])
  let ?p = "park (Task 0) 0x9000 ?s" and ?t = "next_task (Task 0) (park (Task 0) 0x9000 ?s)"
  have ch: "chosen (Task 0) ?s ?t" by (rule next_task_chosen [OF sw])
  then have t: "?t \<noteq> Task 0" using st(2) by (auto simp: runnable_def simp del: update_task.simps)
  have u0: "deref (Task 0) (snd ?u) = deref (Task 0) ?p" unfolding schedule_switches(1) [OF sw regs]
    by (rule switch_to_tasks(1)) (use t in auto)
  have ublock: "slot_state (snd ?u) 0 = TASK_BLOCKED" using u0 park_self [of "Task 0" ?s "0x9000"] len st(2) by simp
  have ucur: "curTask (snd ?u) \<noteq> Some (Task 0)" using schedule_switches(4) [OF sw regs] t by simp
  have uinv: "sched_inv (snd ?u)" by (rule yield_inv [OF inv st(1) regs])
  let ?r = "snd (task_create 0x6000 (snd (task_unblock 0 (snd ?u))))"
  have run: "sched_run (\<lambda>_. True) (snd ?u) [Unblock 0, Create 0x6000] ?r"
    by (blast intro: sched_run.intros sched_step.unblock sched_step.create)
  have "slot_state ?r 0 = TASK_BLOCKED \<and> curTask ?r \<noteq> Some (Task 0)"
    by (rule blocked_task_sleeps [OF uinv _ ublock ucur run]) (simp_all add: MAX_TASKS_def)
  with blocked u run show ?thesis by blast
qed

text \<open>C37. \<^verbatim>\<open>task_create\<close> on every branch, with interrupts restored to what they were. It fails without effect on a null
  entry point or a full table. Otherwise it takes the lowest free slot, returns the slot's number as the identity, and
  leaves on the stack of that slot, and nowhere else in memory, a register frame that starts the entry point with
  interrupts enabled and returns to \<^verbatim>\<open>task_exit\<close>. The identity check that guards the stack array never fails.\<close>

theorem task_create_cases:
  assumes "sched_inv s"
  shows "if ep = 0 \<or> free_slot s = None then task_create ep s = (-1, s)
    else \<exists>m'. let i = the (free_slot s) in 1 \<le> i \<and> i < MAX_TASKS \<and> slot_state s i = TASK_TERMINATED \<and>
      task_create ep s = (int i, s\<lparr>mem := m',
        tasks := (tasks s)[i := (tasks s ! i)\<lparr>tid := of_nat i, esp := of_nat (stack_base s i + 4040), tstate := TASK_READY\<rparr>],
        nextTaskID := of_nat (max (unat (nextTaskID s)) (Suc i))\<rparr>) \<and>
      changes_only {stack_base s i + 4040..<stack_base s i + 4096} (mem s) m' \<and>
      fresh_frame (stack_base s i + 4040) ep (task_exit_address s) m'"
proof (cases "free_slot s")
  case None
  with task_create_spec [OF assms, of ep] show ?thesis by (auto simp: task_create_def)
next
  case (Some i)
  have "ids_ok s" using assms by (simp add: sched_inv_def)
  note f = free_slot_id(1-3) [OF this Some]
  show ?thesis
  proof (cases "ep = 0")
    case False
    with task_create_spec [OF assms False] Some f show ?thesis by (simp add: Let_def MAX_TASKS_def)
  qed (simp add: task_create_def)
qed

theorem task_create_cases_witness:
  "fst (task_create 0 sched_two) = -1 \<and> fst (task_create 0x6000 sched_two) = 2"
proof -
  have "free_slot sched_two = Some 2"
    unfolding free_slot_def find_upt_Some using sched_two(3) sched_two(8) [of 0]
    by (auto simp: MAX_TASKS_def numeral_2_eq_2 less_Suc_eq)
  then show ?thesis
    using task_create_cases [OF sched_two(1), of 0] task_create_cases [OF sched_two(1), of "0x6000"] by (auto simp: Let_def)
qed

text \<open>C38. \<^verbatim>\<open>task_unblock\<close> makes exactly the blocked user task with that identity ready and returns 0, or changes nothing
  and returns -1; either way the interrupt flag is as before.\<close>

theorem task_unblock_exact:
  assumes "sched_inv s"
  shows "task_unblock ident s =
    (if 1 \<le> unat ident \<and> unat ident < MAX_TASKS \<and> slot_state s (unat ident) = TASK_BLOCKED
     then (0, s\<lparr>tasks := (tasks s)[unat ident := (tasks s ! unat ident)\<lparr>tstate := TASK_READY\<rparr>]\<rparr>) else (-1, s))"
proof -
  have used: "tid (tasks s ! i) = of_nat i" if "i < 16" "slot_state s i = TASK_BLOCKED" for i
    using assms that by (auto simp: sched_inv_def ids_ok_def split: if_splits)
  have eq: "unat ident = i \<longleftrightarrow> ident = of_nat i" if "i < 16" for i using that by (auto simp: unat_of_nat_small)
  from unblock_cases [of ident s] show ?thesis
  proof (elim disjE exE conjE)
    fix i assume i: "1 \<le> i" "i < 16" "tid (tasks s ! i) = ident" "slot_state s i = TASK_BLOCKED"
      "task_unblock ident s = (0, update_task (Task i) (\<lambda>t. t\<lparr>tstate := TASK_READY\<rparr>) s)"
    have "unat ident = i" using eq [OF i(2)] used [OF i(2,4)] i(3) by simp
    with i show ?thesis by (simp add: MAX_TASKS_def)
  next
    assume n: "task_unblock ident s = (-1, s)"
      "\<forall>i. 1 \<le> i \<and> i < 16 \<longrightarrow> \<not> (tid (tasks s ! i) = ident \<and> slot_state s i = TASK_BLOCKED)"
    have "\<not> (1 \<le> unat ident \<and> unat ident < 16 \<and> slot_state s (unat ident) = TASK_BLOCKED)"
      using n(2) [rule_format, of "unat ident"] used [of "unat ident"] by auto
    with n(1) show ?thesis by (auto simp: MAX_TASKS_def)
  qed
qed

theorem task_unblock_exact_witness: "task_unblock 0 sched_two = (-1, sched_two) \<and> task_unblock 1 sched_two = (-1, sched_two)"
  using task_unblock_exact [OF sched_two(1), of 0] task_unblock_exact [OF sched_two(1), of 1] sched_two(3) by simp

end
