(* ===== verification/Bios.thy ===== *)
theory Bios
  imports Prelude
begin

text \<open>
  The second-stage boot loader runs in real mode. Its state is memory, the data segment, the global variables it
  shares with \<^verbatim>\<open>boot/stage2/disk.asm\<close>, and the BIOS. What the BIOS does is an environment the state carries along:
  \<open>disk_image\<close> is the contents of the drives by cylinder, head and sector; \<open>drive_geometry\<close> is what function 8 of
  interrupt 13h reports; \<open>int13_fails n\<close> tells whether the \<open>n\<close>-th call of interrupt 13h sets the carry flag. Nothing
  is assumed about any of them. Interrupt 10h is a trace of its AX and BX.

  This theory translates \<^verbatim>\<open>disk.asm\<close> and shows that it reads the sector it is asked for.
\<close>

record boot =
  bmem :: memory
  ds :: u16
  g_drive :: u8
  g_sectors_per_track :: u16
  g_num_heads :: u16
  int10_trace :: "(u16 \<times> u16) list"
  int13_calls :: nat
  int13_fails :: "nat \<Rightarrow> bool"
  drive_geometry :: "u8 \<Rightarrow> u8 \<times> u8"
  disk_image :: "u8 \<Rightarrow> nat \<Rightarrow> nat \<Rightarrow> nat \<Rightarrow> nat \<Rightarrow> u8"

section \<open>The BIOS\<close>

definition linear_address :: "u16 \<Rightarrow> u16 \<Rightarrow> u32" where
  "linear_address seg off = push_bit 4 (ucast seg) + ucast off"

definition copy_sector :: "u32 \<Rightarrow> (nat \<Rightarrow> u8) \<Rightarrow> memory \<Rightarrow> memory" where
  "copy_sector base d m = (\<lambda>a. if unat (a - base) < 512 then d (unat (a - base)) else m a)"

definition int13 :: "'a boot_scheme \<Rightarrow> bool \<times> 'a boot_scheme" where
  "int13 s = (int13_fails s (int13_calls s), s\<lparr>int13_calls := Suc (int13_calls s)\<rparr>)"

text \<open>Function 2, one sector: the cylinder is CH with the top bits of CL above it, the sector number is the rest of CL.
  The result is the carry flag.\<close>

definition int13_read :: "u8 \<Rightarrow> u8 \<Rightarrow> u8 \<Rightarrow> u8 \<Rightarrow> u16 \<Rightarrow> u16 \<Rightarrow> 'a boot_scheme \<Rightarrow> bool \<times> 'a boot_scheme" where
  "int13_read ch cl dh dl es bx s =
     (let (carry, s) = int13 s
      in if carry then (True, s)
         else (False, s\<lparr>bmem := copy_sector (linear_address es bx)
           (disk_image s dl (unat ch + 256 * unat (drop_bit 6 cl)) (unat dh) (unat (cl AND 0x3F))) (bmem s)\<rparr>))"

section \<open>The code\<close>

definition disk_get_params :: "'a boot_scheme \<Rightarrow> int \<times> 'a boot_scheme" where
  "disk_get_params s =
     (let dl = g_drive s; (carry, s) = int13 s
      in if carry then (-1, s)
         else let (cl, dh) = drive_geometry s dl
              in (0, s\<lparr>g_sectors_per_track := ucast (cl AND 0x3F), g_num_heads := ucast dh + 1\<rparr>))"

text \<open>EBX, ESI and EDI: sector, cylinder and head. Dividing by zero is a processor fault.\<close>

definition lba_to_chs :: "u32 \<Rightarrow> 'a boot_scheme \<Rightarrow> (u32 \<times> u32 \<times> u32) option" where
  "lba_to_chs lba s =
     (let spt = ucast (g_sectors_per_track s); heads = ucast (g_num_heads s)
      in do { guard (spt \<noteq> 0);
              let track = lba div spt;
              let sector = lba mod spt + 1;
              guard (heads \<noteq> 0);
              Some (sector, track div heads, track mod heads) })"

text \<open>The counter in SI; a failed read resets the drive before the next attempt.\<close>

fun read_retry :: "nat \<Rightarrow> u8 \<Rightarrow> u8 \<Rightarrow> u8 \<Rightarrow> u8 \<Rightarrow> u16 \<Rightarrow> u16 \<Rightarrow> 'a boot_scheme \<Rightarrow> int \<times> 'a boot_scheme" where
  "read_retry 0 ch cl dh dl es bx s = (-1, s)"
| "read_retry (Suc si) ch cl dh dl es bx s =
     (let (carry, s) = int13_read ch cl dh dl es bx s
      in if \<not> carry then (0, s) else read_retry si ch cl dh dl es bx (snd (int13 s)))"

definition disk_read_sector :: "u32 \<Rightarrow> u16 \<Rightarrow> u16 \<Rightarrow> 'a boot_scheme \<Rightarrow> (int \<times> 'a boot_scheme) option" where
  "disk_read_sector lba seg off s =
     do { (ebx, esi, edi) \<leftarrow> lba_to_chs lba s;
          let ch = ucast esi;
          let cl = (ucast (drop_bit 2 esi) AND 0xC0) OR (ucast ebx AND 0x3F);
          let dh = ucast edi;
          Some (read_retry 3 ch cl dh (g_drive s) seg off s) }"

section \<open>What a read does\<close>

text \<open>What stays the same: everything but memory and the number of interrupts so far.\<close>

definition boot_rest :: "'a boot_scheme \<Rightarrow> 'a boot_scheme" where
  "boot_rest s = s\<lparr>bmem := (\<lambda>_. 0), int13_calls := 0\<rparr>"

definition geometry_ok :: "'a boot_scheme \<Rightarrow> bool" where
  "geometry_ok s \<longleftrightarrow> 0 < unat (g_sectors_per_track s) \<and> unat (g_sectors_per_track s) < 64 \<and>
     0 < unat (g_num_heads s) \<and> unat (g_num_heads s) \<le> 256"

definition disk_size :: "'a boot_scheme \<Rightarrow> nat" where
  "disk_size s = 1024 * unat (g_num_heads s) * unat (g_sectors_per_track s)"

text \<open>The sector with number \<open>lba\<close> when the sectors of the drive are counted track by track.\<close>

definition sector :: "'a boot_scheme \<Rightarrow> nat \<Rightarrow> nat \<Rightarrow> u8" where
  "sector s lba = disk_image s (g_drive s) (lba div unat (g_sectors_per_track s) div unat (g_num_heads s))
     (lba div unat (g_sectors_per_track s) mod unat (g_num_heads s)) (Suc (lba mod unat (g_sectors_per_track s)))"

lemma boot_rest_upd [simp]:
  "boot_rest (s\<lparr>bmem := m\<rparr>) = boot_rest s" "boot_rest (s\<lparr>int13_calls := n\<rparr>) = boot_rest s" "boot_rest (snd (int13 s)) = boot_rest s"
  by (simp_all add: boot_rest_def int13_def)

lemma boot_restD:
  assumes "boot_rest s' = boot_rest s"
  shows "ds s' = ds s" "g_drive s' = g_drive s" "g_sectors_per_track s' = g_sectors_per_track s" "g_num_heads s' = g_num_heads s"
    "int10_trace s' = int10_trace s" "int13_fails s' = int13_fails s" "disk_image s' = disk_image s" "drive_geometry s' = drive_geometry s"
    "boot.more s' = boot.more s"
    using arg_cong [OF assms, of ds] arg_cong [OF assms, of g_drive] arg_cong [OF assms, of g_sectors_per_track]
      arg_cong [OF assms, of g_num_heads] arg_cong [OF assms, of int10_trace] arg_cong [OF assms, of int13_fails]
      arg_cong [OF assms, of disk_image] arg_cong [OF assms, of drive_geometry] arg_cong [OF assms, of boot.more]
    by (simp_all add: boot_rest_def)

lemma boot_rest_same:
  assumes "boot_rest s' = boot_rest s"
  shows "sector s' = sector s" "geometry_ok s' = geometry_ok s" "disk_size s' = disk_size s"
  using boot_restD [OF assms] by (simp_all add: sector_def [abs_def] geometry_ok_def disk_size_def)

lemma lba_to_chs_spec:
  assumes "geometry_ok s"
  shows "lba_to_chs lba s = Some (of_nat (Suc (unat lba mod unat (g_sectors_per_track s))),
    of_nat (unat lba div unat (g_sectors_per_track s) div unat (g_num_heads s)),
    of_nat (unat lba div unat (g_sectors_per_track s) mod unat (g_num_heads s)))"
proof -
  let ?p = "ucast (g_sectors_per_track s) :: u32" and ?h = "ucast (g_num_heads s) :: u32"
  have u: "unat ?p = unat (g_sectors_per_track s)" "unat ?h = unat (g_num_heads s)"
    by (rule unat_ucast_up; simp)+
  have nz: "?p \<noteq> 0" "?h \<noteq> 0" using assms unfolding geometry_ok_def u [symmetric] by auto
  have "lba mod ?p = of_nat (unat lba mod unat (g_sectors_per_track s))" "lba div ?p = of_nat (unat lba div unat (g_sectors_per_track s))"
    by (simp_all add: word_arith_nat_div word_arith_nat_mod u)
  moreover have "unat (of_nat (unat lba div unat (g_sectors_per_track s)) :: u32) = unat lba div unat (g_sectors_per_track s)"
    by (rule unat_of_nat_small) (use unat_lt [of lba] in \<open>auto intro: le_less_trans [OF div_le_dividend]\<close>)
  ultimately show ?thesis
    unfolding lba_to_chs_def using nz by (simp add: word_arith_nat_div [of _ ?h] word_arith_nat_mod [of _ ?h] u add.commute)
qed

text \<open>The packing of CL and what the BIOS reads out of it.\<close>

lemma ucast_of_nat_small: "n < 2 ^ LENGTH('a) \<Longrightarrow> ucast (of_nat n :: 'a::len word) = of_nat n"
  by (simp add: unsigned_of_nat take_bit_nat_eq_self)

lemma cl_sector:
  assumes "n < 64"
  shows "unat (((a AND 0xC0) OR (ucast (of_nat n :: u32) AND 0x3F) :: u8) AND 0x3F) = n"
proof -
  have m: "(0x3F :: u8) = mask 6" by (simp add: mask_eq_exp_minus_1)
  have "(a AND 0xC0) AND 0x3F = (0 :: u8)" by (simp add: and.assoc)
  then have "((a AND 0xC0) OR (ucast (of_nat n :: u32) AND 0x3F) :: u8) AND 0x3F = of_nat n AND mask 6"
    unfolding bit.conj_disj_distrib2 using assms by (simp add: and.assoc m ucast_of_nat_small)
  then show ?thesis using assms by (simp add: unat_and_mask unat_of_nat_small)
qed

lemma cl_cylinder:
  assumes "c < 1024"
  shows "unat (drop_bit 6 ((ucast (drop_bit 2 (of_nat c :: u32)) AND 0xC0) OR (b AND 0x3F) :: u8)) = c div 256"
proof -
  have "drop_bit 6 (b AND 0x3F) = (0 :: u8)"
    by (simp add: drop_bit_and)
  then have "drop_bit 6 ((ucast (drop_bit 2 (of_nat c :: u32)) AND 0xC0) OR (b AND 0x3F) :: u8) = drop_bit 6 (ucast (drop_bit 2 (of_nat c :: u32))) AND 3"
    by (simp add: drop_bit_or drop_bit_and)
  moreover have "drop_bit 2 (of_nat c :: u32) = of_nat (c div 4)"
    using assms by (simp add: unat_inj unsigned_drop_bit_eq drop_bit_eq_div unat_div unat_of_nat_small del: drop_bit_of_nat)
  ultimately have "drop_bit 6 ((ucast (drop_bit 2 (of_nat c :: u32)) AND 0xC0) OR (b AND 0x3F) :: u8) = drop_bit 6 (of_nat (c div 4)) AND mask 2"
    using assms by (simp add: ucast_of_nat_small mask_eq_exp_minus_1)
  moreover have "unat (drop_bit 6 (of_nat (c div 4)) AND mask 2 :: u8) = c div 256"
  proof -
    have "unat (of_nat (c div 4) :: u8) = c div 4" by (rule unat_of_nat_small) (use assms in simp)
    then show ?thesis using assms by (simp add: unat_and_mask unsigned_drop_bit_eq drop_bit_eq_div unat_div div_mult2_eq [symmetric])
  qed
  ultimately show ?thesis by simp
qed

text \<open>One attempt of three succeeds, or none does.\<close>

definition read_succeeds :: "'a boot_scheme \<Rightarrow> bool" where
  "read_succeeds s \<longleftrightarrow> (\<exists>k < 3. \<not> int13_fails s (int13_calls s + 2 * k))"

lemma read_retry_spec:
  "\<exists>n. read_retry si ch cl dh dl es bx s =
     (if \<exists>k < si. \<not> int13_fails s (int13_calls s + 2 * k)
      then (0, s\<lparr>int13_calls := n, bmem := copy_sector (linear_address es bx)
        (disk_image s dl (unat ch + 256 * unat (drop_bit 6 cl)) (unat dh) (unat (cl AND 0x3F))) (bmem s)\<rparr>)
      else (-1, s\<lparr>int13_calls := n\<rparr>))"
proof (induction si arbitrary: s)
  case 0
  show ?case by (intro exI [of _ "int13_calls s"]) simp
next
  case (Suc si)
  show ?case
  proof (cases "int13_fails s (int13_calls s)")
    case False
    then have "\<exists>k < Suc si. \<not> int13_fails s (int13_calls s + 2 * k)" by (intro exI [of _ 0]) simp
    with False show ?thesis by (auto simp: int13_read_def int13_def)
  next
    case True
    let ?s = "s\<lparr>int13_calls := Suc (Suc (int13_calls s))\<rparr>"
    have shift: "(\<exists>k < Suc si. \<not> int13_fails s (int13_calls s + 2 * k)) \<longleftrightarrow> (\<exists>k < si. \<not> int13_fails ?s (int13_calls ?s + 2 * k))"
      using True by (simp add: Ex_less_Suc2 add.commute)
    have run: "read_retry (Suc si) ch cl dh dl es bx s = read_retry si ch cl dh dl es bx ?s"
      using True by (simp add: int13_read_def int13_def)
    from Suc [of ?s] obtain n where n: "read_retry si ch cl dh dl es bx ?s = (if \<exists>k < si. \<not> int13_fails ?s (int13_calls ?s + 2 * k)
      then (0, ?s\<lparr>int13_calls := n, bmem := copy_sector (linear_address es bx)
        (disk_image ?s dl (unat ch + 256 * unat (drop_bit 6 cl)) (unat dh) (unat (cl AND 0x3F))) (bmem ?s)\<rparr>)
      else (-1, ?s\<lparr>int13_calls := n\<rparr>))" ..
    show ?thesis unfolding run shift n by (intro exI [of _ n] if_cong refl) simp_all
  qed
qed

lemma disk_read_sector_spec:
  assumes geo: "geometry_ok s" and lba: "unat lba < disk_size s"
  shows "\<exists>n. disk_read_sector lba seg off s =
     Some (if read_succeeds s
       then (0, s\<lparr>int13_calls := n, bmem := copy_sector (linear_address seg off) (sector s (unat lba)) (bmem s)\<rparr>)
       else (-1, s\<lparr>int13_calls := n\<rparr>))"
proof -
  let ?p = "unat (g_sectors_per_track s)" and ?h = "unat (g_num_heads s)"
  let ?c = "unat lba div ?p div ?h" and ?d = "unat lba div ?p mod ?h" and ?r = "Suc (unat lba mod ?p)"
  have p: "0 < ?p" "?p < 64" and h: "0 < ?h" "?h \<le> 256" using geo by (simp_all add: geometry_ok_def)
  have c: "?c < 1024" using lba p h
    by (simp add: disk_size_def div_mult2_eq [symmetric] less_mult_imp_div_less ac_simps)
  have d: "?d < 256" using h mod_less_divisor [OF h(1), of "unat lba div ?p"] by simp
  have r: "?r < 64" using p mod_less_divisor [OF p(1), of "unat lba"] by simp
  let ?ch = "ucast (of_nat ?c :: u32) :: u8" and ?dh = "ucast (of_nat ?d :: u32) :: u8"
  let ?cl = "(ucast (drop_bit 2 (of_nat ?c :: u32)) AND 0xC0) OR (ucast (of_nat ?r :: u32) AND 0x3F) :: u8"
  have run: "disk_read_sector lba seg off s = Some (read_retry 3 ?ch ?cl ?dh (g_drive s) seg off s)"
    unfolding disk_read_sector_def lba_to_chs_spec [OF geo] by (simp add: Let_def del: of_nat_Suc)
  have "unat ?ch = ?c mod 256" using c by (simp add: ucast_of_nat_small unat_of_nat)
  then have "unat ?ch + 256 * unat (drop_bit 6 ?cl) = ?c" unfolding cl_cylinder [OF c] by simp
  moreover have "unat ?dh = ?d" using d by (simp add: ucast_of_nat_small unat_of_nat_small)
  moreover have "unat (?cl AND 0x3F) = ?r" by (rule cl_sector [OF r])
  ultimately show ?thesis
    using read_retry_spec [of 3 ?ch ?cl ?dh "g_drive s" seg off s] unfolding run read_succeeds_def sector_def by auto
qed

text \<open>Whatever the sector number: the call returns, and touches at most the buffer.\<close>

lemma disk_read_sector_total:
  assumes "geometry_ok s"
  shows "\<exists>r s'. disk_read_sector lba seg off s = Some (r, s') \<and> (r = 0 \<or> r = -1) \<and> boot_rest s' = boot_rest s \<and>
    (\<forall>a. \<not> unat (a - linear_address seg off) < 512 \<longrightarrow> bmem s' a = bmem s a)"
proof -
  obtain ch cl dh where run: "disk_read_sector lba seg off s = Some (read_retry 3 ch cl dh (g_drive s) seg off s)"
    unfolding disk_read_sector_def lba_to_chs_spec [OF assms] by (simp add: Let_def)
  from read_retry_spec [of 3 ch cl dh "g_drive s" seg off s] show ?thesis
    unfolding run by (auto simp: copy_sector_def)
qed

lemma copy_sector_unat:
  assumes "b + 512 \<le> 2 ^ 32" "unat base = b"
  shows "copy_sector base d m a = (if b \<le> unat a \<and> unat a < b + 512 then d (unat a - b) else m a)"
proof -
  have "unat (a - base) < 512 \<longleftrightarrow> b \<le> unat a \<and> unat a < b + 512"
    using assms unat_lt [of a] by (auto simp: unat_sub_if_size word_size)
  moreover have "b \<le> unat a \<Longrightarrow> unat (a - base) = unat a - b"
    using assms(2) by (simp add: unat_minus_small)
  ultimately show ?thesis by (auto simp: copy_sector_def)
qed

lemma linear_address_unat: "unat (linear_address seg off) = 16 * unat seg + unat off"
proof -
  have "unat (push_bit 4 (ucast seg :: u32)) = 16 * unat seg"
    using unat_lt [of seg] by (simp add: push_bit_eq_mult unat_mult_small unat_ucast_up)
  then show ?thesis unfolding linear_address_def
    using unat_lt [of seg] unat_lt [of off] by (simp add: unat_plus_small unat_ucast_up)
qed

section \<open>Properties\<close>


definition floppy :: boot where
  "floppy = \<lparr>bmem = (\<lambda>_. 0), ds = 0x500, g_drive = 0, g_sectors_per_track = 18, g_num_heads = 2, int10_trace = [],
     int13_calls = 0, int13_fails = (\<lambda>n. n = 0), drive_geometry = (\<lambda>_. (18, 1)),
     disk_image = (\<lambda>_ cyl hd sec i. of_nat (cyl + 10 * hd + sec + i))\<rparr>"


end
