(* ===== verification/Bootlib.thy ===== *)
theory Bootlib
  imports Bios Format
begin

text \<open>
  The library of the second-stage loader: \<^verbatim>\<open>lib/endian.c\<close>, \<^verbatim>\<open>lib/string.c\<close> and \<^verbatim>\<open>lib/print.c\<close>. A pointer that is only
  read through is the bytes it points to, indexed from the pointer. A scan for the end of a string that has none
  does not return: its value is None. Text goes out through interrupt 10h, a carriage return before each line feed.
\<close>

section \<open>Little-endian numbers\<close>

definition read_le16 :: "(nat \<Rightarrow> u8) \<Rightarrow> u16" where
  "read_le16 p = ucast (p 0) OR push_bit 8 (ucast (p 1))"

definition read_le32 :: "(nat \<Rightarrow> u8) \<Rightarrow> u32" where
  "read_le32 p = ucast (p 0) OR push_bit 8 (ucast (p 1)) OR push_bit 16 (ucast (p 2)) OR push_bit 24 (ucast (p 3))"

section \<open>Strings\<close>

fun memcmp_loop :: "(nat \<Rightarrow> u8) \<Rightarrow> (nat \<Rightarrow> u8) \<Rightarrow> nat list \<Rightarrow> int" where
  "memcmp_loop a b [] = 0"
| "memcmp_loop a b (i # is) = (if a i \<noteq> b i then if a i > b i then 1 else -1 else memcmp_loop a b is)"

definition memcmp :: "(nat \<Rightarrow> u8) \<Rightarrow> (nat \<Rightarrow> u8) \<Rightarrow> u32 \<Rightarrow> int" where
  "memcmp a b n = memcmp_loop a b [0..<unat n]"

partial_function (option) strlen_loop :: "(u32 \<Rightarrow> u8) \<Rightarrow> u32 \<Rightarrow> u32 option" where
  "strlen_loop str len = (if str len \<noteq> 0 then strlen_loop str (len + 1) else Some len)"

definition strlen :: "(u32 \<Rightarrow> u8) \<Rightarrow> u32 option" where
  "strlen str = strlen_loop str 0"

partial_function (option) strcmp :: "(u32 \<Rightarrow> u8) \<Rightarrow> (u32 \<Rightarrow> u8) \<Rightarrow> int option" where
  "strcmp s1 s2 =
     (if s1 0 \<noteq> 0 \<and> s2 0 \<noteq> 0 \<and> s1 0 = s2 0 then strcmp (\<lambda>i. s1 (i + 1)) (\<lambda>i. s2 (i + 1))
      else Some (uint (s1 0) - uint (s2 0)))"

fun strncmp_loop :: "(nat \<Rightarrow> u8) \<Rightarrow> (nat \<Rightarrow> u8) \<Rightarrow> nat list \<Rightarrow> int" where
  "strncmp_loop s1 s2 [] = 0"
| "strncmp_loop s1 s2 (i # is) =
     (if s1 i \<noteq> s2 i then uint (s1 i) - uint (s2 i) else if s1 i = 0 then 0 else strncmp_loop s1 s2 is)"

definition strncmp :: "(nat \<Rightarrow> u8) \<Rightarrow> (nat \<Rightarrow> u8) \<Rightarrow> u32 \<Rightarrow> int" where
  "strncmp s1 s2 n = strncmp_loop s1 s2 [0..<unat n]"

section \<open>Printing\<close>

definition bios_print_char :: "u8 \<Rightarrow> 'a boot_scheme \<Rightarrow> 'a boot_scheme" where
  "bios_print_char c s =
     (let ax = 0x0E00 OR ucast c; bx = 0x0007 in s\<lparr>int10_trace := int10_trace s @ [(ax, bx)]\<rparr>)"

definition putchar :: "u32 \<Rightarrow> 'a boot_scheme \<Rightarrow> int \<times> 'a boot_scheme" where
  "putchar ch s =
     (let s = (if ch = 0x0A then bios_print_char 0x0D s else s);
          s = bios_print_char (ucast ch) s
      in (uint (ucast ch :: u8), s))"

fun bios_print :: "string \<Rightarrow> 'a boot_scheme \<Rightarrow> 'a boot_scheme" where
  "bios_print [] s = s"
| "bios_print (c # str) s = bios_print str (snd (putchar (of_char c) s))"

text \<open>\<^verbatim>\<open>cnt += (putchar(c) >= 0) ? 1 : 0\<close>, and that for each character of a string.\<close>

definition put_counted :: "u32 \<Rightarrow> int \<Rightarrow> 'a boot_scheme \<Rightarrow> int \<times> 'a boot_scheme" where
  "put_counted ch cnt s = (let (r, s) = putchar ch s in (cnt + (if r \<ge> 0 then 1 else 0), s))"

fun put_string :: "string \<Rightarrow> int \<Rightarrow> 'a boot_scheme \<Rightarrow> int \<times> 'a boot_scheme" where
  "put_string [] cnt s = (cnt, s)"
| "put_string (c # str) cnt s = (let (cnt, s) = put_counted (of_char c) cnt s in put_string str cnt s)"

definition print_unsigned :: "u32 \<Rightarrow> u32 \<Rightarrow> 'a boot_scheme \<Rightarrow> (int \<times> 'a boot_scheme) option" where
  "print_unsigned value base s =
     (if value = 0 then Some (putchar 0x30 s)
      else do { buffer \<leftarrow> digits_loop value base [];
                Some (put_string (rev buffer) 0 s) })"

definition print_signed :: "u32 \<Rightarrow> 'a boot_scheme \<Rightarrow> (int \<times> 'a boot_scheme) option" where
  "print_signed value s =
     (let (cnt, mag, s) = (if sint value < 0
            then let (cnt, s) = put_counted 0x2D 0 s in (cnt, - (value + 1) + 1, s)
            else (0, value, s))
      in do { (n, s) \<leftarrow> print_unsigned mag 10 s; Some (cnt + n, s) })"

fun vprintf_loop :: "string \<Rightarrow> c_arg list \<Rightarrow> int \<Rightarrow> 'a boot_scheme \<Rightarrow> (int \<times> 'a boot_scheme) option" where
  "vprintf_loop [] args cnt s = Some (cnt, s)"
| "vprintf_loop (c # fmt) args cnt s =
     (if c \<noteq> CHR ''%'' then
        let (cnt, s) = put_counted (of_char c) cnt s in vprintf_loop fmt args cnt s
      else case fmt of
        [] \<Rightarrow> Some (cnt, s)
      | f # fmt' \<Rightarrow>
          if f = CHR ''%'' then
            let (cnt, s) = put_counted 0x25 cnt s in vprintf_loop fmt' args cnt s
          else if f = CHR ''c'' then
            do { (w, args) \<leftarrow> va_arg_int args;
                 let (cnt, s) = put_counted w cnt s;
                 vprintf_loop fmt' args cnt s }
          else if f = CHR ''s'' then
            do { (p, args) \<leftarrow> va_arg_str args;
                 let str = (case p of None \<Rightarrow> ''(null)'' | Some str \<Rightarrow> str);
                 let (cnt, s) = put_string str cnt s;
                 vprintf_loop fmt' args cnt s }
          else if f = CHR ''d'' \<or> f = CHR ''i'' then
            do { (w, args) \<leftarrow> va_arg_int args;
                 (n, s) \<leftarrow> print_signed w s;
                 vprintf_loop fmt' args (cnt + n) s }
          else if f = CHR ''u'' then
            do { (w, args) \<leftarrow> va_arg_int args;
                 (n, s) \<leftarrow> print_unsigned w 10 s;
                 vprintf_loop fmt' args (cnt + n) s }
          else if f = CHR ''x'' then
            do { (w, args) \<leftarrow> va_arg_int args;
                 (n, s) \<leftarrow> print_unsigned w 16 s;
                 vprintf_loop fmt' args (cnt + n) s }
          else
            let (cnt, s) = put_counted 0x25 cnt s;
                (cnt, s) = put_counted (of_char f) cnt s
            in vprintf_loop fmt' args cnt s)"

definition vprintf :: "string \<Rightarrow> c_arg list \<Rightarrow> 'a boot_scheme \<Rightarrow> (int \<times> 'a boot_scheme) option" where
  "vprintf fmt args s = vprintf_loop fmt args 0 s"

definition printf :: "string \<Rightarrow> c_arg list \<Rightarrow> 'a boot_scheme \<Rightarrow> (int \<times> 'a boot_scheme) option" where
  "printf fmt args s = vprintf fmt args s"

section \<open>Numbers and strings in memory\<close>

lemma nat_or_shift: "x < 2 ^ n \<Longrightarrow> x OR 2 ^ n * y = x + 2 ^ n * y" for x y :: nat
proof -
  assume x: "x < 2 ^ n"
  have "\<not> bit x k \<or> \<not> bit (push_bit n y) k" for k
  proof (cases "k < n")
    case False
    then have "x < 2 ^ k" using x by (meson less_le_trans linorder_not_less one_le_numeral power_increasing)
    then show ?thesis by (simp add: bit_iff_odd)
  qed (simp add: bit_push_bit_iff)
  then show ?thesis using disjunctive_add [of x "push_bit n y"] by (simp add: push_bit_eq_mult mult.commute)
qed

lemma or_push_disjoint:
  fixes a b :: "'a::len word"
  assumes "unat a < 2 ^ n" "2 ^ n * unat b < 2 ^ LENGTH('a)"
  shows "unat (a OR push_bit n b) = unat a + 2 ^ n * unat b"
proof -
  have "unat (push_bit n b) = 2 ^ n * unat b"
    unfolding unsigned_push_bit_eq using assms(2) by (simp add: take_bit_nat_eq_self push_bit_eq_mult mult.commute)
  then show ?thesis by (simp add: unsigned_or_eq nat_or_shift [OF assms(1)])
qed

lemma read_le16_unat: "unat (read_le16 p) = unat (p 0) + 256 * unat (p 1)"
  using or_push_disjoint [of "ucast (p 0) :: u16" 8 "ucast (p 1)"] unat_lt [of "p 0"] unat_lt [of "p 1"]
  by (simp add: read_le16_def unat_ucast_up)

lemma read_le32_unat: "unat (read_le32 p) = unat (p 0) + 256 * unat (p 1) + 65536 * unat (p 2) + 16777216 * unat (p 3)"
proof -
  have b: "unat (p i) < 256" for i using unat_lt [of "p i"] by simp
  have 1: "unat (ucast (p 0) OR push_bit 8 (ucast (p 1)) :: u32) = unat (p 0) + 256 * unat (p 1)"
    using or_push_disjoint [of "ucast (p 0) :: u32" 8 "ucast (p 1)"] b [of 0] b [of 1] by (simp add: unat_ucast_up)
  have 2: "unat (ucast (p 0) OR push_bit 8 (ucast (p 1)) OR push_bit 16 (ucast (p 2)) :: u32) = unat (p 0) + 256 * unat (p 1) + 65536 * unat (p 2)"
    using or_push_disjoint [of "ucast (p 0) OR push_bit 8 (ucast (p 1)) :: u32" 16 "ucast (p 2)"] 1 b [of 0] b [of 1] b [of 2]
    by (simp add: unat_ucast_up or.assoc)
  show ?thesis
    using or_push_disjoint [of "ucast (p 0) OR push_bit 8 (ucast (p 1)) OR push_bit 16 (ucast (p 2)) :: u32" 24 "ucast (p 3)"]
      2 b [of 0] b [of 1] b [of 2] b [of 3] by (simp add: read_le32_def unat_ucast_up or.assoc)
qed

lemma memcmp_loop_0: "memcmp_loop a b is = 0 \<longleftrightarrow> (\<forall>i \<in> set is. a i = b i)"
  by (induction "is") auto

lemma memcmp_0: "memcmp a b n = 0 \<longleftrightarrow> (\<forall>i < unat n. a i = b i)"
  by (auto simp: memcmp_def memcmp_loop_0)

text \<open>The bytes of a C string at a pointer.\<close>

definition c_string :: "(nat \<Rightarrow> u8) \<Rightarrow> u8 list \<Rightarrow> bool" where
  "c_string p cs \<longleftrightarrow> 0 \<notin> set cs \<and> (\<forall>i < length cs. p i = cs ! i) \<and> p (length cs) = 0"

lemma c_string_Nil: "c_string p [] \<longleftrightarrow> p 0 = 0"
  by (simp add: c_string_def)

lemma c_string_Cons: "c_string p (c # cs) \<longleftrightarrow> c \<noteq> 0 \<and> p 0 = c \<and> c_string (\<lambda>i. p (Suc i)) cs"
  by (auto simp: c_string_def less_Suc_eq_0_disj)

lemma c_string_hd: "c_string p cs \<Longrightarrow> p 0 = hd (cs @ [0])"
  by (cases cs) (simp_all add: c_string_Nil c_string_Cons)

lemma strlen_loop_spec:
  "(\<And>i. i < n \<Longrightarrow> str (of_nat (k + i)) \<noteq> 0) \<Longrightarrow> str (of_nat (k + n)) = 0 \<Longrightarrow> strlen_loop str (of_nat k) = Some (of_nat (k + n))"
proof (induction n arbitrary: k)
  case (Suc n)
  from Suc.IH [of "Suc k"] Suc.prems(1) [of 0] Suc.prems(1) [of "Suc i" for i] Suc.prems(2) show ?case
    by (subst strlen_loop.simps) (simp add: add.commute)
qed (simp add: strlen_loop.simps)

lemma strlen_c_string: "c_string (\<lambda>i. str (of_nat i)) cs \<Longrightarrow> strlen str = Some (of_nat (length cs))"
  using strlen_loop_spec [of "length cs" str 0] by (auto simp: strlen_def c_string_def in_set_conv_nth)

text \<open>Dictionary order of C strings, as a signed difference at the first place where they differ.\<close>

fun string_diff :: "u8 list \<Rightarrow> u8 list \<Rightarrow> int" where
  "string_diff (x # xs) (y # ys) = (if x = y then string_diff xs ys else uint x - uint y)"
| "string_diff xs ys = uint (hd (xs @ [0])) - uint (hd (ys @ [0]))"

lemma strcmp_c_string:
  "c_string (\<lambda>i. p (of_nat i)) xs \<Longrightarrow> c_string (\<lambda>i. q (of_nat i)) ys \<Longrightarrow> strcmp p q = Some (string_diff xs ys)"
proof (induction xs ys arbitrary: p q rule: string_diff.induct)
  case (1 x xs y ys)
  then show ?case by (subst strcmp.simps) (simp add: c_string_Cons add.commute)
qed (subst strcmp.simps; auto simp: c_string_Nil dest!: c_string_hd)+

lemma strncmp_loop_c_string:
  "c_string (\<lambda>i. p (k + i)) xs \<Longrightarrow> c_string (\<lambda>i. q (k + i)) ys \<Longrightarrow>
   strncmp_loop p q [k..<k + n] = string_diff (take n xs) (take n ys)"
proof (induction n arbitrary: k xs ys)
  case (Suc n)
  have up: "[k..<k + Suc n] = k # [Suc k..<Suc k + n]" by (simp add: upt_conv_Cons)
  show ?case
    unfolding up
    by (cases xs; cases ys) (use Suc.prems Suc.IH [of "Suc k"] in \<open>auto simp: c_string_Nil c_string_Cons simp del: upt_Suc\<close>)
qed simp

lemma strncmp_c_string: "c_string p xs \<Longrightarrow> c_string q ys \<Longrightarrow> strncmp p q n = string_diff (take (unat n) xs) (take (unat n) ys)"
  using strncmp_loop_c_string [of p 0 xs q ys "unat n"] by (simp add: strncmp_def)

lemma string_diff_0: "0 \<notin> set xs \<Longrightarrow> 0 \<notin> set ys \<Longrightarrow> string_diff xs ys = 0 \<longleftrightarrow> xs = ys"
  by (induction xs ys rule: string_diff.induct)
    (auto simp: uint_0_iff word_uint_eq_iff [symmetric] hd_append neq_Nil_conv split: if_splits)

section \<open>Formatted output\<close>

text \<open>What a text makes the BIOS print.\<close>

definition tty :: "string \<Rightarrow> (u16 \<times> u16) list" where
  "tty t = concat (map (\<lambda>c. (if c = CHR 0x0A then [(0x0E0D, 7)] else []) @ [(0x0E00 OR of_char c, 7)]) t)"

definition emit :: "string \<Rightarrow> 'a boot_scheme \<Rightarrow> 'a boot_scheme" where
  "emit t s = s\<lparr>int10_trace := int10_trace s @ tty t\<rparr>"

lemma emit_append: "emit (t @ u) s = emit u (emit t s)"
  by (simp add: emit_def tty_def)

lemma emit_Nil [simp]: "emit [] s = s"
  by (simp add: emit_def tty_def)

lemma of_char_word: "of_char c = (of_nat (of_char c) :: 'a::len word)"
  by (simp add: of_nat_of_char)

lemma of_char_u32: "of_char c = (0x0A :: u32) \<longleftrightarrow> c = CHR 0x0A" "ucast (of_char c :: u32) = (of_char c :: u8)"
  "ucast (of_char c :: u8) = (of_char c :: u16)"
proof -
  have lt: "of_char c < (256 :: nat)" by (rule nat_of_char_less_256)
  show "ucast (of_char c :: u32) = (of_char c :: u8)" "ucast (of_char c :: u8) = (of_char c :: u16)"
    unfolding of_char_word by (rule ucast_of_nat_small, rule less_le_trans [OF lt], simp)+
  have "of_char c = (0x0A :: u32) \<longleftrightarrow> of_char c = (10 :: nat)"
    using of_nat_eq_small [of "of_char c" 10, where 'a = 32] lt by (simp add: of_char_word [of c, where 'a = 32])
  also have "(10 :: nat) = of_char (CHR 0x0A)" by simp
  finally show "of_char c = (0x0A :: u32) \<longleftrightarrow> c = CHR 0x0A" by (simp only: of_char_eq_iff)
qed

text \<open>An argument of \<^verbatim>\<open>%c\<close> is compared with the line feed as an \<^verbatim>\<open>int\<close> but printed as a byte.\<close>

definition char_arg :: "u32 \<Rightarrow> bool" where
  "char_arg w \<longleftrightarrow> (unat w mod 256 = 10 \<longrightarrow> w = 10)"

lemma put_counted_char: "put_counted (of_char c) cnt s = (cnt + 1, emit [c] s)"
  by (simp add: put_counted_def putchar_def bios_print_char_def of_char_u32 emit_def tty_def)

lemma put_counted_int:
  assumes "char_arg w"
  shows "put_counted w cnt s = (cnt + 1, emit [char_of (unat w)] s)"
proof -
  let ?c = "char_of (unat w) :: char"
  have c: "of_char ?c = unat w mod 256" by (simp add: of_char_of)
  have "?c = CHR 0x0A \<longleftrightarrow> of_char ?c = (of_char (CHR 0x0A) :: nat)" by (simp only: of_char_eq_iff)
  then have nl: "?c = CHR 0x0A \<longleftrightarrow> w = 10" using assms unfolding c char_arg_def by auto
  have "of_char ?c = (of_nat (unat w mod 256) :: u16)" unfolding of_char_word [of ?c] c ..
  moreover have "ucast (ucast w :: u8) = (of_nat (unat w mod 256) :: u16)"
  proof -
    have "unat w mod 256 < 256" by simp
    then have "unat (of_nat (unat w mod 256) :: u16) = unat w mod 256" by (intro unat_of_nat_small) simp
    moreover have "unat (ucast (ucast w :: u8) :: u16) = unat w mod 256"
    proof -
      have "unat (ucast w :: u8) = unat w mod 256" by (simp add: unsigned_ucast_eq take_bit_eq_mod)
      then show ?thesis using unat_ucast_up [of "ucast w :: u8", where 'b = 16] by simp
    qed
    ultimately show ?thesis by (simp add: unat_inj)
  qed
  ultimately have "ucast (ucast w :: u8) = (of_char ?c :: u16)" by simp
  then show ?thesis
    unfolding put_counted_def putchar_def bios_print_char_def Let_def emit_def tty_def using nl by simp
qed

lemma put_string_emit: "put_string t cnt s = (cnt + int (length t), emit t s)"
proof (induction t arbitrary: cnt s)
  case (Cons c t)
  then show ?case using emit_append [of "[c]" t s] by (simp add: put_counted_char)
qed simp

lemma bios_print_emit: "bios_print t s = emit t s"
proof (induction t arbitrary: s)
  case (Cons c t)
  have "snd (putchar (of_char c) s) = emit [c] s"
    by (simp add: putchar_def bios_print_char_def of_char_u32 emit_def tty_def)
  with Cons show ?case using emit_append [of "[c]" t s] by simp
qed simp

lemma print_unsigned_emit:
  assumes "4 \<le> unat base" "unat base \<le> 16"
  shows "print_unsigned v base s =
    Some (if v = 0 then 48 else int (length (unsigned_text (unat base) v)), emit (unsigned_text (unat base) v) s)"
proof (cases "v = 0")
  case True
  have "putchar 0x30 s = (48, emit ''0'' s)" by (simp add: putchar_def bios_print_char_def emit_def tty_def)
  with True show ?thesis by (simp add: print_unsigned_def unsigned_text_def)
next
  case False
  then show ?thesis using assms
    by (simp add: print_unsigned_def unsigned_text_def digits_loop_total put_string_emit rev_map)
qed

lemma print_signed_emit:
  "print_signed v s = Some (if v = 0 then 48 else int (length (signed_text v)), emit (signed_text v) s)"
proof (cases "sint v < 0")
  case True
  then have nz: "v \<noteq> 0" "- v \<noteq> 0" by auto
  have "put_counted 0x2D 0 s = (1, emit ''-'' s)" using put_counted_char [of "CHR ''-''" 0 s] by simp
  then show ?thesis using True nz emit_append [of "''-''" "unsigned_text 10 (- v)" s]
    by (simp add: print_signed_def print_unsigned_emit signed_text_def)
qed (simp add: print_signed_def print_unsigned_emit signed_text_def)

text \<open>The loop over a format string, against the reference text. The count is the length of the text, except that a zero
  counts as 48.\<close>

definition args_ok :: "c_arg list \<Rightarrow> bool" where
  "args_ok args \<longleftrightarrow> (\<forall>w. ArgInt w \<in> set args \<longrightarrow> char_arg w)"

lemma va_args_subset:
  "va_arg_int args = Some (w, args') \<Longrightarrow> ArgInt w \<in> set args \<and> set args' \<subseteq> set args"
  "va_arg_str args = Some (p, args') \<Longrightarrow> set args' \<subseteq> set args"
  by (cases args rule: va_arg_int.cases; auto) (cases args rule: va_arg_str.cases; auto)

definition prints :: "int \<Rightarrow> string option \<Rightarrow> c_arg list \<Rightarrow> 'a boot_scheme \<Rightarrow> (int \<times> 'a boot_scheme) option \<Rightarrow> bool" where
  "prints cnt t args s r = (case t of None \<Rightarrow> r = None
     | Some t \<Rightarrow> \<exists>n. r = Some (cnt + n, emit t s) \<and> (ArgInt 0 \<notin> set args \<longrightarrow> n = int (length t)))"

lemma prints_prepend:
  assumes "prints (cnt + k) t args' (emit u s) r" "set args' \<subseteq> set args" "ArgInt 0 \<notin> set args \<Longrightarrow> k = int (length u)"
  shows "prints cnt (map_option ((@) u) t) args s r"
proof (cases t)
  case (Some x)
  with assms(1) obtain n where n: "r = Some (cnt + k + n, emit x (emit u s))" "ArgInt 0 \<notin> set args' \<longrightarrow> n = int (length x)"
    by (auto simp: prints_def)
  then show ?thesis unfolding prints_def using Some assms(2,3)
    by (auto simp: emit_append intro!: exI [of _ "k + n"])
qed (use assms(1) in \<open>simp add: prints_def\<close>)

text \<open>The conversions one by one, given that what follows is printed.\<close>

definition prints_rest :: "int \<Rightarrow> string \<Rightarrow> c_arg list \<Rightarrow> 'a boot_scheme \<Rightarrow> bool" where
  "prints_rest cnt fmt args s \<longleftrightarrow> (\<forall>u args' k. set args' \<subseteq> set args \<longrightarrow> (ArgInt 0 \<notin> set args \<longrightarrow> k = int (length u)) \<longrightarrow>
     prints cnt (map_option ((@) u) (fmt_text [] fmt args')) args s (vprintf_loop fmt args' (cnt + k) (emit u s)))"

lemma prints_restD:
  assumes "prints_rest cnt fmt args s" "set args' \<subseteq> set args" "ArgInt 0 \<notin> set args \<Longrightarrow> k = int (length u)"
  shows "prints cnt (map_option ((@) u) (fmt_text [] fmt args')) args s (vprintf_loop fmt args' (cnt + k) (emit u s))"
  using assms unfolding prints_rest_def by blast

lemma put_percent: "put_counted 0x25 n t = (n + 1, emit ''%'' t)"
  using put_counted_char [of "CHR ''%''" n t] by simp

lemma int_conversion_prints:
  assumes f: "f \<in> {CHR ''c'', CHR ''d'', CHR ''i'', CHR ''u'', CHR ''x''}" and ok: "args_ok args" and rest: "prints_rest cnt fmt args s"
  shows "prints cnt (fmt_text [] (CHR ''%'' # f # fmt) args) args s (vprintf_loop (CHR ''%'' # f # fmt) args cnt s)"
proof (cases "va_arg_int args")
  case None
  with f show ?thesis by (auto simp: prints_def)
next
  case (Some wa)
  obtain w args' where wa: "va_arg_int args = Some (w, args')" using Some by (cases wa) auto
  note sub = va_args_subset(1) [OF wa, THEN conjunct2] and mem = va_args_subset(1) [OF wa, THEN conjunct1]
  note num = prints_restD [OF rest sub, of "if w = 0 then 48 else int (length u)" u for u]
  have nz: "ArgInt 0 \<notin> set args \<Longrightarrow> w \<noteq> 0" using mem by auto
  have "char_arg w" using mem ok by (auto simp: args_ok_def)
  note char = put_counted_int [OF this]
  from f consider "f = CHR ''c''" | "f = CHR ''d'' \<or> f = CHR ''i''" | "f = CHR ''u''" | "f = CHR ''x''" by blast
  then show ?thesis
  proof cases
    case 1
    then show ?thesis using prints_restD [OF rest sub, of 1 "[char_of (unat w)]"] by (simp add: wa char)
  next
    case 2
    then show ?thesis using num [of "signed_text w"] nz by (auto simp: wa print_signed_emit)
  next
    case 3
    then show ?thesis using num [of "unsigned_text 10 w"] nz by (auto simp: wa print_unsigned_emit)
  next
    case 4
    then show ?thesis using num [of "unsigned_text 16 w"] nz by (auto simp: wa print_unsigned_emit)
  qed
qed

lemma string_conversion_prints:
  assumes "prints_rest cnt fmt args s"
  shows "prints cnt (fmt_text [] (CHR ''%'' # CHR ''s'' # fmt) args) args s (vprintf_loop (CHR ''%'' # CHR ''s'' # fmt) args cnt s)"
proof (cases "va_arg_str args")
  case None
  then show ?thesis by (simp add: prints_def)
next
  case (Some pa)
  obtain p args' where pa: "va_arg_str args = Some (p, args')" using Some by (cases pa) auto
  let ?t = "case p of None \<Rightarrow> ''(null)'' | Some str \<Rightarrow> str"
  from prints_restD [OF assms va_args_subset(2) [OF pa], of "int (length ?t)" ?t] show ?thesis
    by (simp add: pa put_string_emit Let_def)
qed

lemma other_conversion_prints:
  assumes "f \<notin> set ''csdiux''" "prints_rest cnt fmt args s"
  shows "prints cnt (fmt_text [] (CHR ''%'' # f # fmt) args) args s (vprintf_loop (CHR ''%'' # f # fmt) args cnt s)"
proof (cases "f = CHR ''%''")
  case True
  then show ?thesis using prints_restD [OF assms(2), of args 1 "''%''"] by (simp add: put_percent)
next
  case False
  have "emit [f] (emit ''%'' s) = emit [CHR ''%'', f] s" using emit_append [of "''%''" "[f]" s] by simp
  then show ?thesis using False assms(1) prints_restD [OF assms(2), of args 2 "[CHR ''%'', f]"]
    by (simp add: put_percent put_counted_char add.commute [of 2 cnt])
qed

lemma vprintf_loop_prints:
  "args_ok args \<Longrightarrow> prints cnt (fmt_text [] fmt args) args s (vprintf_loop fmt args cnt s)"
proof (induction "length fmt" arbitrary: fmt args cnt s rule: less_induct)
  case less
  consider "fmt = []" | (plain) c fmt' where "fmt = c # fmt'" "c \<noteq> CHR ''%''" | (single) "fmt = ''%''" | (conv) f fmt' where "fmt = CHR ''%'' # f # fmt'"
    by (metis list.exhaust)
  then show ?case
  proof cases
    case plain
    then have "prints (cnt + 1) (fmt_text [] fmt' args) args (emit [c] s) (vprintf_loop fmt' args (cnt + 1) (emit [c] s))"
      using less by simp
    from prints_prepend [OF this, of args] show ?thesis using plain by (simp add: put_counted_char)
  next
    case conv
    have rest: "prints_rest cnt fmt' args s"
      unfolding prints_rest_def
    proof (intro allI impI)
      fix u :: string and args' k assume sub: "set args' \<subseteq> set args" and "ArgInt 0 \<notin> set args \<longrightarrow> k = int (length u)"
      moreover have "prints (cnt + k) (fmt_text [] fmt' args') args' (emit u s) (vprintf_loop fmt' args' (cnt + k) (emit u s))"
        by (rule less.hyps) (use conv sub less.prems in \<open>auto simp: args_ok_def\<close>)
      ultimately show "prints cnt (map_option ((@) u) (fmt_text [] fmt' args')) args s (vprintf_loop fmt' args' (cnt + k) (emit u s))"
        using prints_prepend by blast
    qed
    consider "f \<in> {CHR ''c'', CHR ''d'', CHR ''i'', CHR ''u'', CHR ''x''}" | "f = CHR ''s''" | "f \<notin> set ''csdiux''" by auto
    then show ?thesis unfolding conv
      by cases (use int_conversion_prints [OF _ less.prems rest] string_conversion_prints [OF rest] other_conversion_prints [OF _ rest] in auto)
  qed (simp_all add: prints_def)
qed

section \<open>Properties\<close>



end
