(* ===== verification/Fat12.thy ===== *)
theory Fat12
  imports Bootlib
begin

text \<open>
  \<^verbatim>\<open>boot/stage2/stage2.c\<close>: the loader that finds the kernel on a FAT12 disk and loads it. The pointers into the data
  segment are offsets from \<^verbatim>\<open>ds\<close>; the file-scope variables extend the state of the boot loader. \<^verbatim>\<open>fat_load_file\<close> follows a
  chain read from the disk, so its outer loop is a partial function; that it returns is a theorem. An endless
  \<^verbatim>\<open>for (;;)\<close> after an error message, and the jump to the kernel, are the two ways \<^verbatim>\<open>stage2_main\<close> can end.
  The parts under \<^verbatim>\<open>#ifdef DEBUG\<close> are not compiled and not modelled.
\<close>

section \<open>The code\<close>

definition BOOT_SECTOR_SEG :: u16 where "BOOT_SECTOR_SEG = 0x2000"
definition FAT_SEG :: u16 where "FAT_SEG = 0x2200"
definition ROOT_DIR_SEG :: u16 where "ROOT_DIR_SEG = 0x3400"
definition KERNEL_SEG :: u16 where "KERNEL_SEG = 0x4000"

record fat = boot +
  g_num_fats :: u8
  g_sectors_per_cluster :: u8
  g_bytes_per_sector :: u16
  g_reserved_sectors :: u16
  g_root_entry_count :: u16
  g_total_sectors :: u32
  g_sectors_per_fat :: u32
  g_root_dir_sectors :: u32
  g_first_data_sector :: u32
  g_first_fat_sector :: u32
  g_first_root_dir_sector :: u32
  g_data_sectors :: u32
  g_cluster_count :: u32
  g_root_dir_first_sector :: u32

text \<open>The bytes at a pointer into the data segment.\<close>

definition near :: "u16 \<Rightarrow> 'a boot_scheme \<Rightarrow> nat \<Rightarrow> u8" where
  "near off s i = bmem s (linear_address (ds s) off + of_nat i)"

definition current_ds :: "'a boot_scheme \<Rightarrow> u16" where
  "current_ds s = ds s"

text \<open>A directory entry is 32 bytes: name, extension, attribute, reserved bytes, time, date, first cluster, size.\<close>

record DirEntry =
  name :: "u8 list"
  ext :: "u8 list"
  attribute :: u8
  firstCluster :: u16
  fileSize :: u32

definition SIZEOF_DirEntry :: u16 where "SIZEOF_DirEntry = 32"

definition dir_entry :: "(nat \<Rightarrow> u8) \<Rightarrow> DirEntry" where
  "dir_entry p = \<lparr>name = map p [0..<8], ext = map (\<lambda>i. p (8 + i)) [0..<3], attribute = p 11,
     firstCluster = read_le16 (\<lambda>i. p (26 + i)), fileSize = read_le32 (\<lambda>i. p (28 + i))\<rparr>"

text \<open>\<^verbatim>\<open>fat_init\<close>: the fields of the parameter block, then the layout computed from them.\<close>

definition parse_bpb :: "'a fat_scheme \<Rightarrow> 'a fat_scheme option" where
  "parse_bpb s =
     (let b = near BOOT_SECTOR_SEG s;
          s = s\<lparr>g_bytes_per_sector := read_le16 (\<lambda>i. b (11 + i)), g_sectors_per_cluster := b 13,
                g_reserved_sectors := read_le16 (\<lambda>i. b (14 + i)), g_num_fats := b 16,
                g_root_entry_count := read_le16 (\<lambda>i. b (17 + i)),
                g_total_sectors := ucast (read_le16 (\<lambda>i. b (19 + i)))\<rparr>
      in do { s \<leftarrow> (if g_total_sectors s = 0
                    then do { (_, s) \<leftarrow> printf (''Falls back to 32-bit...'' @ [CHR 0x0A]) [] s;
                              Some (s\<lparr>g_total_sectors := read_le32 (\<lambda>i. b (32 + i))\<rparr>) }
                    else Some s);
              Some (s\<lparr>g_sectors_per_fat := ucast (read_le16 (\<lambda>i. b (22 + i)))\<rparr>) })"

definition fat_layout :: "'a fat_scheme \<Rightarrow> int \<times> 'a fat_scheme" where
  "fat_layout s =
     (if g_bytes_per_sector s = 0 \<or> g_sectors_per_cluster s = 0 \<or> g_reserved_sectors s = 0 \<or>
         g_num_fats s = 0 \<or> g_sectors_per_fat s = 0 \<or> g_total_sectors s = 0
      then (-1, s)
      else let s = s\<lparr>g_root_dir_sectors :=
                 (ucast (g_root_entry_count s) * 32 + (ucast (g_bytes_per_sector s) - 1)) div ucast (g_bytes_per_sector s)\<rparr>;
               s = s\<lparr>g_first_fat_sector := ucast (g_reserved_sectors s)\<rparr>;
               s = s\<lparr>g_first_root_dir_sector := ucast (g_reserved_sectors s) + ucast (g_num_fats s) * g_sectors_per_fat s\<rparr>;
               s = s\<lparr>g_root_dir_first_sector := g_first_root_dir_sector s\<rparr>;
               s = s\<lparr>g_first_data_sector := g_first_root_dir_sector s + g_root_dir_sectors s\<rparr>;
               s = s\<lparr>g_data_sectors := g_total_sectors s - g_first_data_sector s\<rparr>;
               s = s\<lparr>g_cluster_count := g_data_sectors s div ucast (g_sectors_per_cluster s)\<rparr>
           in if g_cluster_count s \<ge> 4085 then (-1, s) else (0, s))"

definition fat_init :: "u8 \<Rightarrow> 'a fat_scheme \<Rightarrow> (int \<times> 'a fat_scheme) option" where
  "fat_init drive s =
     (let s = s\<lparr>g_drive := drive\<rparr>; seg = current_ds s; (r, s) = disk_get_params s
      in if r \<noteq> 0 then Some (-1, s)
         else do { (r, s) \<leftarrow> disk_read_sector 0 seg BOOT_SECTOR_SEG s;
                   if r \<noteq> 0 then Some (-1, s) else map_option fat_layout (parse_bpb s) })"

text \<open>One directory sector: the end of the directory, a match, or neither.\<close>

datatype scan = EndOfDirectory | Found u16 u32 | NotHere

fun scan_entries :: "(nat \<Rightarrow> u8) \<Rightarrow> DirEntry list \<Rightarrow> scan" where
  "scan_entries name83 [] = NotHere"
| "scan_entries name83 (e # es) =
     (if name e ! 0 = 0x00 then EndOfDirectory
      else if name e ! 0 = 0xE5 then scan_entries name83 es
      else if attribute e = 0x0F then scan_entries name83 es
      else if attribute e AND 0x10 \<noteq> 0 \<or> attribute e AND 0x08 \<noteq> 0 then scan_entries name83 es
      else if memcmp ((!) (name e)) name83 8 = 0 \<and> memcmp ((!) (ext e)) (\<lambda>i. name83 (8 + i)) 3 = 0
        then Found (firstCluster e) (fileSize e)
      else scan_entries name83 es)"

text \<open>The entries in the buffer, \<^verbatim>\<open>g_bytes_per_sector / sizeof(DirEntry)\<close> of them.\<close>

definition buffer_entries :: "'a fat_scheme \<Rightarrow> DirEntry list" where
  "buffer_entries s = map (\<lambda>j. dir_entry (\<lambda>i. near ROOT_DIR_SEG s (32 * j + i)))
     [0..<unat (g_bytes_per_sector s div SIZEOF_DirEntry)]"

text \<open>The result 0 with \<^verbatim>\<open>*firstCluster\<close> and \<^verbatim>\<open>*fileSize\<close> set is Some of the two; the result -1 is None.\<close>

fun find_loop :: "(nat \<Rightarrow> u8) \<Rightarrow> u32 \<Rightarrow> nat list \<Rightarrow> 'a fat_scheme \<Rightarrow> ((u16 \<times> u32) option \<times> 'a fat_scheme) option" where
  "find_loop name83 root_lba [] s = Some (None, s)"
| "find_loop name83 root_lba (i # is) s =
     do { (r, s) \<leftarrow> disk_read_sector (root_lba + of_nat i) (current_ds s) ROOT_DIR_SEG s;
          if r \<noteq> 0 then Some (None, s)
          else case scan_entries name83 (buffer_entries s) of
            EndOfDirectory \<Rightarrow> Some (None, s)
          | Found c n \<Rightarrow> Some (Some (c, n), s)
          | NotHere \<Rightarrow> find_loop name83 root_lba is s }"

definition fat_find_file :: "(nat \<Rightarrow> u8) \<Rightarrow> 'a fat_scheme \<Rightarrow> ((u16 \<times> u32) option \<times> 'a fat_scheme) option" where
  "fat_find_file name83 s = find_loop name83 (g_first_root_dir_sector s) [0..<unat (g_root_dir_sectors s)] s"

definition fat12_next_cluster :: "(nat \<Rightarrow> u8) \<Rightarrow> u16 \<Rightarrow> u16" where
  "fat12_next_cluster table cluster =
     (let offset = cluster + cluster div 2
      in if cluster AND 1 \<noteq> 0
         then (drop_bit 4 (ucast (table (unat offset))) OR push_bit 4 (ucast (table (unat offset + 1)))) AND 0x0FFF
         else (ucast (table (unat offset)) OR push_bit 8 (ucast (table (unat offset + 1)) AND 0x0F)) AND 0x0FFF)"

fun read_table_loop :: "nat list \<Rightarrow> 'a fat_scheme \<Rightarrow> (int \<times> 'a fat_scheme) option" where
  "read_table_loop [] s = Some (0, s)"
| "read_table_loop (i # is) s =
     do { (r, s) \<leftarrow> disk_read_sector (g_first_fat_sector s + of_nat i) (current_ds s)
            (FAT_SEG + ucast (of_nat i * ucast (g_bytes_per_sector s) :: u32)) s;
          if r \<noteq> 0 then Some (-1, s) else read_table_loop is s }"

definition fat_read_table :: "'a fat_scheme \<Rightarrow> (int \<times> 'a fat_scheme) option" where
  "fat_read_table s = read_table_loop [0..<unat (g_sectors_per_fat s)] s"

text \<open>The sectors of one cluster. The inner None is the return of -1 when the disk cannot be read.\<close>

fun load_cluster :: "u32 \<Rightarrow> nat list \<Rightarrow> u32 \<Rightarrow> u32 \<Rightarrow> 'a fat_scheme \<Rightarrow> ((u32 \<times> u32) option \<times> 'a fat_scheme) option" where
  "load_cluster lba [] linear remaining s = Some (Some (linear, remaining), s)"
| "load_cluster lba (i # is) linear remaining s =
     (if \<not> remaining > 0 then Some (Some (linear, remaining), s)
      else do { (r, s) \<leftarrow> disk_read_sector (lba + of_nat i) (ucast (drop_bit 4 linear)) (ucast (linear AND 0xF)) s;
                if r \<noteq> 0 then Some (None, s)
                else let chunk = ucast (g_bytes_per_sector s);
                         chunk = (if chunk > remaining then remaining else chunk)
                     in load_cluster lba is (linear + chunk) (remaining - chunk) s })"

partial_function (option) load_loop :: "u16 \<Rightarrow> u32 \<Rightarrow> u32 \<Rightarrow> 'a fat_scheme \<Rightarrow> (int \<times> 'a fat_scheme) option" where
  "load_loop cluster linear remaining s =
     (if remaining = 0 then Some (0, s)
      else let lba = g_first_data_sector s + (ucast cluster - 2) * ucast (g_sectors_per_cluster s)
        in do { (res, s) \<leftarrow> load_cluster lba [0..<unat (g_sectors_per_cluster s)] linear remaining s;
                case res of
                  None \<Rightarrow> Some (-1, s)
                | Some (linear, remaining) \<Rightarrow>
                    if remaining = 0 then Some (0, s)
                    else let cluster = fat12_next_cluster (near FAT_SEG s) cluster
                         in if cluster = 0xFF7 then Some (-1, s)
                            else if cluster < 2 \<or> cluster \<ge> 0xFF8 then Some (-1, s)
                            else load_loop cluster linear remaining s })"

definition fat_load_file :: "u16 \<Rightarrow> u32 \<Rightarrow> u16 \<Rightarrow> 'a fat_scheme \<Rightarrow> (int \<times> 'a fat_scheme) option" where
  "fat_load_file first fsize destination s =
     (let linear = linear_address (current_ds s) destination
      in if first < 2 then Some (-1, s)
         else do { (r, s) \<leftarrow> fat_read_table s;
                   if r \<noteq> 0 then Some (-1, s) else load_loop first linear fsize s })"

fun debug_print_name83 :: "nat list \<Rightarrow> DirEntry \<Rightarrow> 'a boot_scheme \<Rightarrow> 'a boot_scheme" where
  "debug_print_name83 [] e s = s"
| "debug_print_name83 (i # is) e s =
     debug_print_name83 is e (bios_print_char (if name e ! i = 0x20 then 0x5F else name e ! i) s)"

text \<open>Printing the entries of one sector; True is the return at the end of the directory.\<close>

fun dump_entries :: "DirEntry list \<Rightarrow> u16 \<Rightarrow> 'a boot_scheme \<Rightarrow> bool \<times> u16 \<times> 'a boot_scheme" where
  "dump_entries [] printed s = (False, printed, s)"
| "dump_entries (e # es) printed s =
     (if \<not> printed < 12 then (False, printed, s)
      else if name e ! 0 = 0x00 then (True, printed, s)
      else if name e ! 0 = 0xE5 \<or> attribute e = 0x0F then dump_entries es printed s
      else if attribute e AND 0x10 \<noteq> 0 \<or> attribute e AND 0x08 \<noteq> 0 then dump_entries es printed s
      else let s = bios_print ''   '' s;
               s = debug_print_name83 [0..<8] e s;
               s = bios_print [CHR 0x0A] s
           in dump_entries es (printed + 1) s)"

fun dump_loop :: "u32 \<Rightarrow> nat list \<Rightarrow> u16 \<Rightarrow> 'a fat_scheme \<Rightarrow> 'a fat_scheme option" where
  "dump_loop root_lba [] printed s = Some s"
| "dump_loop root_lba (i # is) printed s =
     do { (r, s) \<leftarrow> disk_read_sector (root_lba + of_nat i) (current_ds s) ROOT_DIR_SEG s;
          if r \<noteq> 0 then Some (bios_print (''ERROR: cannot read!'' @ [CHR 0x0A]) s)
          else let (stop, printed, s) = dump_entries (buffer_entries s) printed s
               in if stop then Some s else dump_loop root_lba is printed s }"

definition debug_dump_root_dir :: "'a fat_scheme \<Rightarrow> 'a fat_scheme option" where
  "debug_dump_root_dir s =
     dump_loop (g_first_root_dir_sector s) [0..<unat (g_root_dir_sectors s)] 0
       (bios_print (''Root entries seen:'' @ [CHR 0x0A]) s)"

datatype outcome = Hang | JumpToKernel

definition bytes_of :: "string \<Rightarrow> nat \<Rightarrow> u8" where
  "bytes_of str i = (if i < length str then of_char (str ! i) else 0)"

definition find_kernel :: "'a fat_scheme \<Rightarrow> ((u16 \<times> u32) option \<times> 'a fat_scheme) option" where
  "find_kernel s =
     do { (r, s) \<leftarrow> fat_find_file (bytes_of ''KERNEL     '') s;
          case r of
            Some f \<Rightarrow> Some (Some f, s)
          | None \<Rightarrow> fat_find_file (bytes_of ''KERNEL  BIN'') s }"

definition stage2_main :: "'a fat_scheme \<Rightarrow> (outcome \<times> 'a fat_scheme) option" where
  "stage2_main s =
     do { let s = bios_print (''stage2_main reached!'' @ [CHR 0x0A]) s;
          (r, s) \<leftarrow> fat_init (g_drive s) s;
          if r \<noteq> 0 then Some (Hang, bios_print (''ERROR: FAT init failed!'' @ [CHR 0x0A]) s)
          else do {
            let s = bios_print (''Looking for kernel...'' @ [CHR 0x0A]) s;
            (found, s) \<leftarrow> find_kernel s;
            case found of
              None \<Rightarrow> do { s \<leftarrow> debug_dump_root_dir s;
                           Some (Hang, bios_print (''ERROR: Kernel not found!'' @ [CHR 0x0A]) s) }
            | Some (cluster, fsize) \<Rightarrow> do {
                (r, s) \<leftarrow> fat_load_file cluster fsize KERNEL_SEG s;
                if r \<noteq> 0 then Some (Hang, bios_print (''ERROR: Load failed!'' @ [CHR 0x0A]) s)
                else Some (JumpToKernel, bios_print (''Starting kernel...'' @ [CHR 0x0A]) s) } } }"

section \<open>The packing of the file allocation table\<close>

text \<open>Reference: two 12-bit entries in three bytes, low bits first.\<close>

fun pack12 :: "nat list \<Rightarrow> u8 list" where
  "pack12 [] = []"
| "pack12 [a] = [of_nat (a mod 256), of_nat (a div 256)]"
| "pack12 (a # b # es) = of_nat (a mod 256) # of_nat (a div 256 + 16 * (b mod 16)) # of_nat (b div 16) # pack12 es"

lemma next_cluster_unat:
  assumes "unat c < 4096"
  shows "unat (fat12_next_cluster t c) =
    (let k = unat c div 2
     in if odd (unat c) then unat (t (3 * k + 1)) div 16 + 16 * unat (t (3 * k + 2))
        else unat (t (3 * k)) + 256 * (unat (t (3 * k + 1)) mod 16))"
proof -
  let ?k = "unat c div 2"
  have off: "unat (c + c div 2) = unat c + ?k"
    using assms by (subst unat_plus_small) (simp_all add: unat_div)
  have b: "unat (t i) < 256" for i using unat_lt [of "t i"] by simp
  have u: "unat (ucast (t i) :: u16) = unat (t i)" for i by (simp add: unat_ucast_up)
  have m: "unat (x AND 0x0FFF :: u16) = unat x mod 4096" for x
    using unat_and_mask [of x 12] by (simp add: mask_eq_exp_minus_1)
  have "unat (c AND mask 1) = unat c mod 2 ^ 1" by (rule unat_and_mask)
  then have odd: "c AND 1 \<noteq> 0 \<longleftrightarrow> odd (unat c)" unfolding unat_eq_0 [symmetric] by (simp add: mask_eq_exp_minus_1 odd_iff_mod_2_eq_one)
  show ?thesis
  proof (cases "odd (unat c)")
    case True
    then have o: "unat c + ?k = 3 * ?k + 1" by (auto elim: oddE)
    have "unat (drop_bit 4 (ucast (t i) :: u16)) = unat (t i) div 16" for i
      by (simp add: unsigned_drop_bit_eq u drop_bit_eq_div unat_div)
    then have "unat (drop_bit 4 (ucast (t i)) OR push_bit 4 (ucast (t j)) :: u16) = unat (t i) div 16 + 16 * unat (t j)" for i j
      using or_push_disjoint [of "drop_bit 4 (ucast (t i)) :: u16" 4 "ucast (t j)"] b [of i] b [of j] u by simp
    then show ?thesis using True odd b [of "3 * ?k + 1"] b [of "3 * ?k + 2"]
      by (simp add: fat12_next_cluster_def off o m Let_def)
  next
    case False
    then have o: "unat c + ?k = 3 * ?k" by (auto elim: evenE)
    have "unat (ucast (t i) AND 0x0F :: u16) = unat (t i) mod 16" for i
      using unat_and_mask [of "ucast (t i) :: u16" 4] u by (simp add: mask_eq_exp_minus_1)
    then have "unat (ucast (t i) OR push_bit 8 (ucast (t j) AND 0x0F) :: u16) = unat (t i) + 256 * (unat (t j) mod 16)" for i j
      using or_push_disjoint [of "ucast (t i) :: u16" 8 "ucast (t j) AND 0x0F"] b [of i] u by simp
    then show ?thesis using False odd b [of "3 * ?k"]
      by (simp add: fat12_next_cluster_def off o m Let_def)
  qed
qed

lemma pack12_bytes:
  assumes "a < 4096" "b < 4096"
  shows "unat (of_nat (a mod 256) :: u8) = a mod 256" "unat (of_nat (a div 256 + 16 * (b mod 16)) :: u8) = a div 256 + 16 * (b mod 16)"
    "unat (of_nat (b div 16) :: u8) = b div 16"
  by (rule unat_of_nat_small; use assms in simp)+

lemma pack12_nth:
  assumes "\<forall>e \<in> set es. e < 4096" "2 * k < length es"
  shows "unat (pack12 es ! (3 * k)) = es ! (2 * k) mod 256 \<and> unat (pack12 es ! (3 * k + 1)) mod 16 = es ! (2 * k) div 256 \<and>
    (2 * k + 1 < length es \<longrightarrow> unat (pack12 es ! (3 * k + 1)) div 16 = es ! (2 * k + 1) mod 16 \<and>
       unat (pack12 es ! (3 * k + 2)) = es ! (2 * k + 1) div 16)"
  using assms
proof (induction es arbitrary: k rule: pack12.induct)
  case (2 a)
  then show ?case using pack12_bytes [of a 0] by simp
next
  case (3 a b es)
  then have b: "a < 4096" "b < 4096" by simp_all
  show ?case
  proof (cases k)
    case 0
    then show ?thesis using pack12_bytes [OF b] b by (simp del: of_nat_add of_nat_mult)
  next
    case (Suc j)
    then show ?thesis using "3.IH" [of j] "3.prems" by simp
  qed
qed simp

lemma next_cluster_pack12:
  assumes "\<forall>e \<in> set es. e < 4096" "length es \<le> 4096" "c < length es"
  shows "unat (fat12_next_cluster (\<lambda>i. pack12 es ! i) (of_nat c)) = es ! c"
proof -
  have c: "unat (of_nat c :: u16) = c" by (rule unat_of_nat_small) (use assms in simp)
  have e: "es ! c < 4096" using assms(1,3) by simp
  note n = pack12_nth [OF assms(1), of "c div 2"]
  show ?thesis
  proof (cases "odd c")
    case True
    then have "2 * (c div 2) + 1 = c" by simp
    with n assms(3) e have "unat (pack12 es ! (3 * (c div 2) + 1)) div 16 = es ! c mod 16" "unat (pack12 es ! (3 * (c div 2) + 2)) = es ! c div 16"
      by auto
    then show ?thesis using assms True by (simp add: next_cluster_unat c Let_def)
  next
    case False
    then have "2 * (c div 2) = c" by simp
    with n assms(3) show ?thesis using assms False e by (simp add: next_cluster_unat c Let_def)
  qed
qed

section \<open>Reading the disk\<close>

text \<open>Reading sectors leaves the variables of the loader alone.\<close>

lemma fat_restD:
  assumes "boot_rest s' = boot_rest s"
  shows "g_bytes_per_sector s' = g_bytes_per_sector s" "g_sectors_per_cluster s' = g_sectors_per_cluster s"
    "g_sectors_per_fat s' = g_sectors_per_fat s" "g_first_data_sector s' = g_first_data_sector s"
    "g_first_fat_sector s' = g_first_fat_sector s" "g_first_root_dir_sector s' = g_first_root_dir_sector s"
    "g_root_dir_sectors s' = g_root_dir_sectors s"
  using arg_cong [OF assms, of g_bytes_per_sector] arg_cong [OF assms, of g_sectors_per_cluster]
    arg_cong [OF assms, of g_sectors_per_fat] arg_cong [OF assms, of g_first_data_sector]
    arg_cong [OF assms, of g_first_fat_sector] arg_cong [OF assms, of g_first_root_dir_sector]
    arg_cong [OF assms, of g_root_dir_sectors]
  by (simp_all add: boot_rest_def)

lemmas rest_same = fat_restD boot_restD(1-4,6,7) boot_rest_same

lemma read_sector_at:
  assumes "geometry_ok s" "unat lba = l" "l < disk_size s"
  obtains n where "disk_read_sector lba seg off s = Some (if read_succeeds s
       then (0, s\<lparr>int13_calls := n, bmem := copy_sector (linear_address seg off) (sector s l) (bmem s)\<rparr>)
       else (-1, s\<lparr>int13_calls := n\<rparr>))"
  using disk_read_sector_spec [OF assms(1), of lba seg off] assms(3) unfolding assms(2) by blast

lemma read_fails: "\<not> read_succeeds s \<Longrightarrow> \<exists>n. int13_fails s n"
proof -
  assume "\<not> read_succeeds s"
  then have "int13_fails s (int13_calls s + 2 * 0)" unfolding read_succeeds_def by (metis zero_less_numeral)
  then show ?thesis ..
qed

lemma geometry_disk_size: "geometry_ok s \<Longrightarrow> disk_size s < 2 ^ 32"
proof -
  assume "geometry_ok s"
  then have "unat (g_num_heads s) * unat (g_sectors_per_track s) \<le> 256 * 64" by (intro mult_mono) (auto simp: geometry_ok_def)
  then show ?thesis by (simp add: disk_size_def mult.assoc)
qed

text \<open>The geometry the BIOS reports for a drive has at least one sector per track.\<close>

definition bios_ok :: "u8 \<Rightarrow> 'a boot_scheme \<Rightarrow> bool" where
  "bios_ok drive s \<longleftrightarrow> fst (drive_geometry s drive) AND 0x3F \<noteq> 0"

lemma get_params_geometry:
  assumes "bios_ok (g_drive s) s" "disk_get_params s = (r, s')"
  shows "(r = 0 \<or> r = -1) \<and> (r = 0 \<longrightarrow> geometry_ok s')"
proof -
  obtain cl dh where g: "drive_geometry s (g_drive s) = (cl, dh)" by (cases "drive_geometry s (g_drive s)")
  have "unat (cl AND mask 6) = unat cl mod 2 ^ 6" by (rule unat_and_mask)
  then have cl: "unat (cl AND 0x3F) < 64" by (simp add: mask_eq_exp_minus_1)
  have nz: "cl AND 0x3F \<noteq> 0" using assms(1) g by (simp add: bios_ok_def)
  have "unat (ucast dh + 1 :: u16) = unat dh + 1" using unat_lt [of dh] by (subst unat_plus_small) (simp_all add: unat_ucast_up)
  then have "geometry_ok (s\<lparr>g_sectors_per_track := ucast (cl AND 0x3F), g_num_heads := ucast dh + 1\<rparr>)" (is "geometry_ok ?s")
    using cl nz unat_lt [of dh] by (simp add: geometry_ok_def unat_ucast_up unat_gt_0)
  then have "geometry_ok (s\<lparr>int13_calls := n, g_sectors_per_track := ucast (cl AND 0x3F), g_num_heads := ucast dh + 1\<rparr>)" for n
    by (simp add: geometry_ok_def)
  with assms(2) g show ?thesis by (auto simp: disk_get_params_def int13_def split: if_splits)
qed

section \<open>Initialisation\<close>

text \<open>The layout of a volume that \<^verbatim>\<open>fat_init\<close> accepts, in arithmetic without overflow: boot area, tables, root directory, and
  fewer than 4085 whole clusters before the end of the volume.\<close>

definition volume_ok :: "'a fat_scheme \<Rightarrow> bool" where
  "volume_ok s \<longleftrightarrow> geometry_ok s \<and> 0 < unat (g_bytes_per_sector s) \<and> 0 < unat (g_sectors_per_cluster s) \<and>
     0 < unat (g_sectors_per_fat s) \<and> 0 < unat (g_first_fat_sector s) \<and>
     unat (g_first_root_dir_sector s) = unat (g_first_fat_sector s) + unat (g_num_fats s) * unat (g_sectors_per_fat s) \<and>
     unat (g_bytes_per_sector s) * unat (g_root_dir_sectors s) \<ge> 32 * unat (g_root_entry_count s) \<and>
     unat (g_first_data_sector s) = unat (g_first_root_dir_sector s) + unat (g_root_dir_sectors s) \<and>
     unat (g_first_data_sector s) + unat (g_cluster_count s) * unat (g_sectors_per_cluster s) \<le> unat (g_total_sectors s) \<and>
     unat (g_cluster_count s) < 4085"

lemma fat_layout_ok:
  assumes geo: "geometry_ok s" and spf: "unat (g_sectors_per_fat s) < 65536" and run: "fat_layout s = (r, s')"
  shows "(r = 0 \<or> r = -1) \<and> (r = 0 \<longrightarrow> volume_ok s')"
proof (cases "g_bytes_per_sector s = 0 \<or> g_sectors_per_cluster s = 0 \<or> g_reserved_sectors s = 0 \<or>
         g_num_fats s = 0 \<or> g_sectors_per_fat s = 0 \<or> g_total_sectors s = 0")
  case True
  then show ?thesis using run by (simp add: fat_layout_def)
next
  case False
  define B :: u32 where "B = ucast (g_bytes_per_sector s)"
  define R where "R = (ucast (g_root_entry_count s) * 32 + (B - 1)) div B"
  define D where "D = ucast (g_reserved_sectors s) + ucast (g_num_fats s) * g_sectors_per_fat s"
  define C :: u32 where "C = (g_total_sectors s - (D + R)) div ucast (g_sectors_per_cluster s)"
  let ?b = "unat (g_bytes_per_sector s)" and ?e = "unat (g_root_entry_count s)" and ?c = "unat (g_sectors_per_cluster s)"
    and ?v = "unat (g_reserved_sectors s)" and ?n = "unat (g_num_fats s)" and ?f = "unat (g_sectors_per_fat s)"
  let ?t = "s\<lparr>g_root_dir_sectors := R, g_first_fat_sector := ucast (g_reserved_sectors s), g_first_root_dir_sector := D,
      g_root_dir_first_sector := D, g_first_data_sector := D + R, g_data_sectors := g_total_sectors s - (D + R), g_cluster_count := C\<rparr>"
  have eq: "fat_layout s = (if C \<ge> 4085 then -1 else 0, ?t)"
    using False unfolding fat_layout_def by (simp add: Let_def B_def R_def D_def C_def)
  have pos: "0 < ?b" "0 < ?c" "0 < ?v" "0 < ?n" "0 < ?f" using False by (simp_all add: unat_gt_0)
  have lt: "?b < 65536" "?e < 65536" "?c < 256" "?v < 65536" "?n < 256"
    using unat_lt [of "g_bytes_per_sector s"] unat_lt [of "g_root_entry_count s"] unat_lt [of "g_sectors_per_cluster s"]
      unat_lt [of "g_reserved_sectors s"] unat_lt [of "g_num_fats s"] by simp_all
  have B: "unat B = ?b" unfolding B_def by (rule unat_ucast_up) simp
  have e: "unat (ucast (g_root_entry_count s) * 32 :: u32) = ?e * 32" using lt by (subst unat_mult_small) (simp_all add: unat_ucast_up)
  have B1: "unat (B - 1) = ?b - 1" using pos by (subst unat_minus_small) (simp_all add: B)
  have R: "unat R = (?e * 32 + (?b - 1)) div ?b"
    unfolding R_def unat_div B using lt pos by (subst unat_plus_small) (simp_all add: e B1)
  have Rle: "unat R \<le> ?e * 32 + (?b - 1)" unfolding R by (rule div_le_dividend)
  have Rge: "32 * ?e \<le> ?b * unat R"
  proof -
    have "?e * 32 + (?b - 1) < ?b * unat R + ?b" unfolding R using pos(1)
      by (metis add.commute add_mono_thms_linordered_field(3) div_mult_mod_eq eq_imp_le mod_less_divisor mult.commute)
    then show ?thesis using pos(1) by simp
  qed
  have nf: "?n * ?f \<le> 255 * 65535" by (rule mult_mono) (use lt spf in auto)
  have nm: "unat (ucast (g_num_fats s) * g_sectors_per_fat s) = ?n * ?f" using nf by (subst unat_mult_small) (simp_all add: unat_ucast_up)
  have D: "unat D = ?v + ?n * ?f" unfolding D_def using nf lt by (subst unat_plus_small) (simp_all add: nm unat_ucast_up)
  have DR: "unat (D + R) = unat D + unat R" using nf lt Rle by (subst unat_plus_small) (simp_all add: D)
  have C: "unat C = unat (g_total_sectors s - (D + R)) div ?c" unfolding C_def unat_div by (simp add: unat_ucast_up)
  have "volume_ok ?t" if small: "\<not> C \<ge> 4085"
  proof -
    have cc: "unat C < 4085" using small by (simp add: word_le_nat_alt)
    have ge: "unat (D + R) \<le> unat (g_total_sectors s)"
    proof (rule ccontr)
      assume "\<not> ?thesis"
      then have "unat (g_total_sectors s - (D + R)) = 2 ^ 32 + unat (g_total_sectors s) - unat (D + R)"
        by (simp add: unat_sub_if_size word_size)
      moreover have "unat (D + R) < 2 ^ 25" using nf lt Rle unfolding DR D by simp
      ultimately have "4085 * ?c \<le> unat (g_total_sectors s - (D + R))" using lt(3) by simp
      then have "4085 \<le> unat C" unfolding C using pos(2) by (simp add: less_eq_div_iff_mult_less_eq)
      with cc show False by simp
    qed
    have "unat C * ?c \<le> unat (g_total_sectors s) - unat (D + R)" unfolding C using ge by (simp add: unat_minus_small)
    then show ?thesis unfolding volume_ok_def using geo pos ge cc Rge DR D by (simp add: geometry_ok_def unat_ucast_up)
  qed
  with run eq show ?thesis by (auto split: if_splits)
qed

lemma geometry_trace [simp]: "geometry_ok (s\<lparr>int10_trace := t\<rparr>) = geometry_ok s" "geometry_ok (emit u s) = geometry_ok s"
  by (simp_all add: geometry_ok_def emit_def)

lemma parse_bpb_spec:
  assumes "geometry_ok s"
  shows "\<exists>s'. parse_bpb s = Some s' \<and> geometry_ok s' \<and> unat (g_sectors_per_fat s') < 65536"
proof -
  have lt: "unat (ucast w :: u32) < 65536" for w :: u16 using unat_lt [of w] by (simp add: unat_ucast_up)
  have pr: "\<exists>n. printf (''Falls back to 32-bit...'' @ [CHR 0x0A]) [] t = Some (n, emit (''Falls back to 32-bit...'' @ [CHR 0x0A]) t)"
    for t :: "'a fat_scheme"
    using vprintf_loop_prints [of "[]" 0 "''Falls back to 32-bit...'' @ [CHR 0x0A]" t]
    by (auto simp: args_ok_def printf_def vprintf_def prints_def)
  obtain n where n: "\<And>t :: 'a fat_scheme. printf (''Falls back to 32-bit...'' @ [CHR 0x0A]) [] t = Some (n t, emit (''Falls back to 32-bit...'' @ [CHR 0x0A]) t)"
    using pr by metis
  show ?thesis
    using assms unfolding parse_bpb_def Let_def by (auto simp: n [simplified] lt geometry_ok_def emit_def)
qed

lemma fat_init_spec:
  assumes "bios_ok drive s"
  shows "\<exists>r s'. fat_init drive s = Some (r, s') \<and> (r = 0 \<or> r = -1) \<and> (r = 0 \<longrightarrow> volume_ok s')"
proof -
  let ?s = "s\<lparr>g_drive := drive\<rparr>"
  obtain r s1 where p: "disk_get_params ?s = (r, s1)" by (cases "disk_get_params ?s")
  have ok: "bios_ok (g_drive ?s) ?s" using assms by (simp add: bios_ok_def)
  note g = get_params_geometry [OF ok p]
  show ?thesis
  proof (cases "r = 0")
    case False
    then show ?thesis by (simp add: fat_init_def Let_def p)
  next
    case True
    with g have geo: "geometry_ok s1" by simp
    obtain r2 s2 where r2: "disk_read_sector 0 (current_ds ?s) BOOT_SECTOR_SEG s1 = Some (r2, s2)" "boot_rest s2 = boot_rest s1"
      using disk_read_sector_total [OF geo, of 0 "current_ds ?s" BOOT_SECTOR_SEG] by auto
    have "geometry_ok s2" using geo boot_rest_same(2) [OF r2(2)] by simp
    from parse_bpb_spec [OF this] obtain s3 where s3: "parse_bpb s2 = Some s3" "geometry_ok s3" "unat (g_sectors_per_fat s3) < 65536" by blast
    obtain r4 s4 where r4: "fat_layout s3 = (r4, s4)" by (cases "fat_layout s3")
    have "fat_init drive s = (if r2 \<noteq> 0 then Some (-1, s2) else Some (r4, s4))"
      using True by (simp add: fat_init_def Let_def p r2(1) s3(1) r4)
    with fat_layout_ok [OF s3(2,3) r4] show ?thesis by auto
  qed
qed

section \<open>Finding a file\<close>

text \<open>Reference: the directory is the list of its entries up to the end mark; a lookup is the first regular entry with
  that name.\<close>

definition regular :: "DirEntry \<Rightarrow> bool" where
  "regular e \<longleftrightarrow> name e ! 0 \<noteq> 0xE5 \<and> attribute e \<noteq> 0x0F \<and> attribute e AND 0x10 = 0 \<and> attribute e AND 0x08 = 0"

definition directory_lookup :: "(nat \<Rightarrow> u8) \<Rightarrow> DirEntry list \<Rightarrow> (u16 \<times> u32) option" where
  "directory_lookup name83 es = map_option (\<lambda>e. (firstCluster e, fileSize e))
     (find (\<lambda>e. regular e \<and> (\<forall>i < 8. name e ! i = name83 i) \<and> (\<forall>i < 3. ext e ! i = name83 (8 + i)))
       (takeWhile (\<lambda>e. name e ! 0 \<noteq> 0) es))"

lemma scan_lookup:
  "directory_lookup name83 (es @ rest) =
    (case scan_entries name83 es of EndOfDirectory \<Rightarrow> None | Found c n \<Rightarrow> Some (c, n) | NotHere \<Rightarrow> directory_lookup name83 rest)"
proof (induction es)
  case (Cons e es)
  then show ?case by (auto simp: directory_lookup_def regular_def memcmp_0)
qed simp

text \<open>The root directory on the disk, sector by sector.\<close>

definition sector_entries :: "'a boot_scheme \<Rightarrow> nat \<Rightarrow> DirEntry list" where
  "sector_entries s lba = map (\<lambda>j. dir_entry (\<lambda>i. sector s lba (32 * j + i))) [0..<16]"

definition root_directory :: "'a fat_scheme \<Rightarrow> DirEntry list" where
  "root_directory s = concat (map (\<lambda>i. sector_entries s (unat (g_first_root_dir_sector s) + i)) [0..<unat (g_root_dir_sectors s)])"

lemma dir_entry_cong: "(\<And>i. i < 32 \<Longrightarrow> p i = q i) \<Longrightarrow> dir_entry p = dir_entry q"
  by (simp add: dir_entry_def read_le16_def read_le32_def)

text \<open>A sector in the data segment is in the buffer where it was read to.\<close>

lemma near_copy:
  assumes "i < 512" "unat off + 512 \<le> 65536"
  shows "near off (s\<lparr>bmem := copy_sector (linear_address (ds s) off) d m\<rparr>) i = d i"
proof -
  have "unat (of_nat i :: u32) = i" using assms by (simp add: unat_of_nat_small)
  then show ?thesis using assms(1) by (simp add: near_def copy_sector_def)
qed

lemma read_buffer_entries:
  assumes "g_bytes_per_sector s = 512"
  shows "buffer_entries (s\<lparr>bmem := copy_sector (linear_address (ds s) ROOT_DIR_SEG) (sector t lba) m\<rparr>) = sector_entries t lba"
proof -
  have "unat (g_bytes_per_sector s div SIZEOF_DirEntry) = 16" using assms by (simp add: SIZEOF_DirEntry_def)
  then show ?thesis unfolding buffer_entries_def sector_entries_def
    by (auto intro!: dir_entry_cong simp: near_copy ROOT_DIR_SEG_def)
qed

lemma find_loop_spec:
  assumes geo: "geometry_ok s" and bps: "g_bytes_per_sector s = 512"
    and disk: "\<And>i. i \<in> set is \<Longrightarrow> lba + i < disk_size s"
  shows "\<exists>r s'. find_loop name83 (of_nat lba) is s = Some (r, s') \<and> boot_rest s' = boot_rest s \<and>
    (r = directory_lookup name83 (concat (map (\<lambda>i. sector_entries s (lba + i)) is)) \<or> r = None \<and> (\<exists>n. int13_fails s n))"
  using assms
proof (induction "is" arbitrary: s)
  case Nil
  then show ?case by (simp add: directory_lookup_def)
next
  case (Cons i "is")
  have l: "unat (of_nat lba + of_nat i :: u32) = lba + i"
    using Cons.prems(3) [of i] geometry_disk_size [OF Cons.prems(1)] unat_of_nat_small [of "lba + i", where 'a = 32] by simp
  obtain n where n: "disk_read_sector (of_nat lba + of_nat i) (current_ds s) ROOT_DIR_SEG s = Some (if read_succeeds s
      then (0, s\<lparr>int13_calls := n, bmem := copy_sector (linear_address (ds s) ROOT_DIR_SEG) (sector s (lba + i)) (bmem s)\<rparr>)
      else (-1, s\<lparr>int13_calls := n\<rparr>))"
    unfolding current_ds_def by (rule read_sector_at [OF Cons.prems(1) l]) (use Cons.prems(3) in auto)
  show ?case
  proof (cases "read_succeeds s")
    case False
    from read_fails [OF False] False n show ?thesis by auto
  next
    case True
    let ?s = "s\<lparr>int13_calls := n, bmem := copy_sector (linear_address (ds s) ROOT_DIR_SEG) (sector s (lba + i)) (bmem s)\<rparr>"
    have rest: "boot_rest ?s = boot_rest s" by simp
    note same = rest_same [OF rest]
    have "buffer_entries ?s = sector_entries s (lba + i)"
      using read_buffer_entries [of "s\<lparr>int13_calls := n\<rparr>" s "lba + i" "bmem s"] Cons.prems(2) by simp
    then have run: "find_loop name83 (of_nat lba) (i # is) s = (case scan_entries name83 (sector_entries s (lba + i)) of
        EndOfDirectory \<Rightarrow> Some (None, ?s) | Found c k \<Rightarrow> Some (Some (c, k), ?s) | NotHere \<Rightarrow> find_loop name83 (of_nat lba) is ?s)"
      using n True by simp
    have "\<exists>r s'. find_loop name83 (of_nat lba) is ?s = Some (r, s') \<and> boot_rest s' = boot_rest ?s \<and>
        (r = directory_lookup name83 (concat (map (\<lambda>i. sector_entries ?s (lba + i)) is)) \<or> r = None \<and> (\<exists>n. int13_fails ?s n))"
      by (rule Cons.IH) (use Cons.prems same in auto)
    moreover have "sector_entries ?s = sector_entries s" using same by (simp add: sector_entries_def [abs_def])
    ultimately show ?thesis
      using rest unfolding run by (cases "scan_entries name83 (sector_entries s (lba + i))") (auto simp: scan_lookup)
  qed
qed

section \<open>Every loop ends\<close>

text \<open>On any disk, with any pattern of read errors. The proofs rest on \<open>disk_read_sector_total\<close>.\<close>

lemma read_total:
  assumes "geometry_ok s"
  obtains r s' where "disk_read_sector lba seg off s = Some (r, s')" "r = 0 \<or> r = -1" "boot_rest s' = boot_rest s" "geometry_ok s'"
  using disk_read_sector_total [OF assms, of lba seg off] boot_rest_same(2) assms by metis

lemma find_loop_total:
  "geometry_ok s \<Longrightarrow> \<exists>r s'. find_loop name83 lba is s = Some (r, s') \<and> boot_rest s' = boot_rest s"
proof (induction "is" arbitrary: s)
  case (Cons i "is")
  from read_total [OF Cons.prems] obtain r s1 where s1: "disk_read_sector (lba + of_nat i) (current_ds s) ROOT_DIR_SEG s = Some (r, s1)"
    "boot_rest s1 = boot_rest s" "geometry_ok s1" by metis
  from Cons.IH [OF s1(3)] s1 show ?case by (auto split: scan.split)
qed simp

lemma read_table_total:
  "geometry_ok s \<Longrightarrow> \<exists>r s'. read_table_loop is s = Some (r, s') \<and> (r = 0 \<or> r = -1) \<and> boot_rest s' = boot_rest s"
proof (induction "is" arbitrary: s)
  case (Cons i "is")
  from read_total [OF Cons.prems] obtain r s1 where s1: "disk_read_sector (g_first_fat_sector s + of_nat i) (current_ds s)
      (FAT_SEG + ucast (of_nat i * ucast (g_bytes_per_sector s) :: u32)) s = Some (r, s1)"
    "boot_rest s1 = boot_rest s" "geometry_ok s1" by metis
  from Cons.IH [OF s1(3)] s1 show ?case by auto
qed simp

lemma load_cluster_total:
  assumes "geometry_ok s" "0 < unat (g_bytes_per_sector s)"
  shows "\<exists>res s'. load_cluster lba is linear remaining s = Some (res, s') \<and> boot_rest s' = boot_rest s \<and>
    (\<forall>l r. res = Some (l, r) \<longrightarrow> r \<le> remaining \<and> (is \<noteq> [] \<and> remaining \<noteq> 0 \<longrightarrow> r < remaining))"
  using assms
proof (induction "is" arbitrary: linear remaining s)
  case (Cons i "is")
  show ?case
  proof (cases "remaining = 0")
    case False
    from read_total [OF Cons.prems(1)] obtain r s1 where s1: "disk_read_sector (lba + of_nat i) (ucast (drop_bit 4 linear)) (ucast (linear AND 0xF)) s = Some (r, s1)"
      "boot_rest s1 = boot_rest s" "geometry_ok s1" by metis
    let ?c = "if ucast (g_bytes_per_sector s1) > remaining then remaining else ucast (g_bytes_per_sector s1) :: u32"
    have bps: "g_bytes_per_sector s1 = g_bytes_per_sector s" by (rule fat_restD [OF s1(2)])
    have "0 < unat (ucast (g_bytes_per_sector s1) :: u32)" using Cons.prems(2) by (simp add: bps unat_ucast_up)
    then have less: "remaining - ?c < remaining" using False
      by (auto simp: word_less_nat_alt unat_minus_small unat_gt_0)
    from Cons.IH [of s1 "linear + ?c" "remaining - ?c"] s1(3) Cons.prems(2) bps obtain res s' where
      IH: "load_cluster lba is (linear + ?c) (remaining - ?c) s1 = Some (res, s')" "boot_rest s' = boot_rest s1"
        "\<forall>l r. res = Some (l, r) \<longrightarrow> r \<le> remaining - ?c" by auto
    show ?thesis
    proof (cases "r = 0")
      case True
      then have "load_cluster lba (i # is) linear remaining s = Some (res, s')"
        using False s1(1) IH(1) by (simp add: word_neq_0_conv Let_def)
      with IH(2,3) less s1(2) show ?thesis by fastforce
    next
      case r: False
      then have "load_cluster lba (i # is) linear remaining s = Some (None, s1)"
        using False s1(1) by (simp add: word_neq_0_conv)
      with s1(2) show ?thesis by simp
    qed
  qed simp
qed simp

lemma load_loop_total:
  assumes "geometry_ok s" "0 < unat (g_bytes_per_sector s)" "0 < unat (g_sectors_per_cluster s)"
  shows "\<exists>r s'. load_loop cluster linear remaining s = Some (r, s') \<and> (r = 0 \<or> r = -1) \<and> boot_rest s' = boot_rest s"
  using assms
proof (induction "unat remaining" arbitrary: cluster linear remaining s rule: less_induct)
  case less
  show ?case
  proof (cases "remaining = 0")
    case True
    then show ?thesis by (simp add: load_loop.simps)
  next
    case False
    let ?lba = "g_first_data_sector s + (ucast cluster - 2) * ucast (g_sectors_per_cluster s)"
    have ne: "[0..<unat (g_sectors_per_cluster s)] \<noteq> []" using less.prems(3) by simp
    from load_cluster_total [OF less.prems(1,2), of ?lba "[0..<unat (g_sectors_per_cluster s)]" linear remaining] obtain res s1 where
      res: "load_cluster ?lba [0..<unat (g_sectors_per_cluster s)] linear remaining s = Some (res, s1)" "boot_rest s1 = boot_rest s"
        "\<And>l r. res = Some (l, r) \<Longrightarrow> r < remaining" using ne False by metis
    note same = fat_restD [OF res(2)] boot_rest_same [OF res(2)]
    show ?thesis
    proof (cases res)
      case None
      then show ?thesis using False res by (subst load_loop.simps) simp
    next
      case (Some lr)
      obtain l r where lr: "lr = (l, r)" by (cases lr)
      let ?c = "fat12_next_cluster (near FAT_SEG s1) cluster"
      have "\<exists>r' s'. load_loop ?c l r s1 = Some (r', s') \<and> (r' = 0 \<or> r' = -1) \<and> boot_rest s' = boot_rest s1"
        by (rule less.hyps) (use res(3) Some lr less.prems same in \<open>auto simp: word_less_nat_alt\<close>)
      then show ?thesis using False res(1,2) Some lr by (subst load_loop.simps) (auto simp: Let_def)
    qed
  qed
qed

section \<open>What is loaded\<close>

lemma linear_split:
  fixes linear :: u32
  assumes "unat linear < 2 ^ 20"
  shows "unat (linear_address (ucast (drop_bit 4 linear)) (ucast (linear AND 0xF))) = unat linear"
proof -
  have "unat (linear AND mask 4) = unat linear mod 2 ^ 4" by (rule unat_and_mask)
  then have "unat (linear AND 0xF) = unat linear mod 16" by (simp add: mask_eq_exp_minus_1)
  then have lo: "unat (ucast (linear AND 0xF) :: u16) = unat linear mod 16" by (simp add: unsigned_ucast_eq take_bit_nat_eq_self)
  have "unat (drop_bit 4 linear) = unat linear div 16" by (simp add: unsigned_drop_bit_eq drop_bit_eq_div unat_div)
  then have hi: "unat (ucast (drop_bit 4 linear) :: u16) = unat linear div 16"
    using assms unfolding unsigned_ucast_eq by (simp add: take_bit_nat_eq_self)
  show ?thesis unfolding linear_address_unat lo hi by simp
qed

text \<open>Sectors \<open>l + k\<close> to \<open>l + n - 1\<close> go to memory from address \<open>a\<close> on, 512 bytes each, until the bytes that remain run out.\<close>

lemma join_sectors:
  assumes mem: "\<And>x. bmem s1 x = (if a \<le> unat x \<and> unat x < a + 512 then d 0 (unat x - a) else m x)"
    and later: "\<And>x. unat x < a + min 512 n \<Longrightarrow> bmem s' x = bmem s1 x"
    and tail: "\<forall>j < k. bmem s' (of_nat (a + min 512 n + j)) = d (Suc (j div 512)) (j mod 512)"
    and lt: "a + n < 2 ^ 32" and j: "j < min 512 n + k" and k: "k \<le> n - min 512 n"
  shows "bmem s' (of_nat (a + j)) = d (j div 512) (j mod 512)"
proof (cases "j < min 512 n")
  case True
  have "unat (of_nat (a + j) :: u32) = a + j" by (rule unat_of_nat_small) (use True lt in simp)
  then show ?thesis using later [of "of_nat (a + j)"] mem [of "of_nat (a + j)"] True by simp
next
  case False
  then have r: "min 512 n = 512" using j k by (auto simp: min_def split: if_splits)
  have j': "j - 512 < k" "512 \<le> j" using j False unfolding r by linarith+
  have "Suc ((j - 512) div 512) = j div 512" "(j - 512) mod 512 = j mod 512" using j'(2) by (simp_all add: le_div_geq le_mod_geq)
  with tail [rule_format, OF j'(1)] r j'(2) show ?thesis by simp
qed

lemma chunk_size:
  fixes remaining linear :: u32
  defines "chunk \<equiv> if 512 > remaining then remaining else 512"
  assumes "unat linear + unat remaining < 2 ^ 32"
  shows "chunk = of_nat (min 512 (unat remaining))" "unat (linear + chunk) = unat linear + min 512 (unat remaining)"
    "unat (remaining - chunk) = unat remaining - min 512 (unat remaining)"
proof -
  have c: "unat chunk = min 512 (unat remaining)" by (auto simp: chunk_def word_less_nat_alt)
  show "chunk = of_nat (min 512 (unat remaining))" unfolding c [symmetric] by simp
  show "unat (linear + chunk) = unat linear + min 512 (unat remaining)" using assms(2) c by (subst unat_plus_small) simp_all
  show "unat (remaining - chunk) = unat remaining - min 512 (unat remaining)" using c by (subst unat_minus_small) simp_all
qed

lemma load_cluster_spec:
  assumes "geometry_ok s" "g_bytes_per_sector s = 512" "unat lba = l" "l + n \<le> disk_size s" "k \<le> n"
    "unat linear = a" "a + unat remaining + 512 \<le> 2 ^ 20"
  shows "\<exists>res s'. load_cluster lba [k..<n] linear remaining s = Some (res, s') \<and> boot_rest s' = boot_rest s \<and>
    (\<forall>x. unat x < a \<longrightarrow> bmem s' x = bmem s x) \<and>
    (let m = min (unat remaining) (512 * (n - k))
     in res = None \<and> (\<exists>i. int13_fails s i) \<or>
        res = Some (linear + of_nat m, remaining - of_nat m) \<and>
        (\<forall>j < m. bmem s' (of_nat (a + j)) = sector s (l + k + j div 512) (j mod 512)))"
  using assms
proof (induction "n - k" arbitrary: k linear a remaining s)
  case 0
  then show ?case by simp
next
  case (Suc d)
  have up: "[k..<n] = k # [Suc k..<n]" using Suc.hyps(2) by (simp add: upt_conv_Cons)
  have lk: "unat (lba + of_nat k) = l + k"
    using Suc.prems geometry_disk_size [OF Suc.prems(1)] Suc.hyps(2) by (subst unat_plus_small) (simp_all add: unat_of_nat_small)
  have a: "a < 2 ^ 20" using Suc.prems by simp
  let ?at = "linear_address (ucast (drop_bit 4 linear)) (ucast (linear AND 0xF))"
  have at: "unat ?at = a" using linear_split [of linear] a Suc.prems(6) by simp
  obtain i where i: "disk_read_sector (lba + of_nat k) (ucast (drop_bit 4 linear)) (ucast (linear AND 0xF)) s = Some (if read_succeeds s
       then (0, s\<lparr>int13_calls := i, bmem := copy_sector ?at (sector s (l + k)) (bmem s)\<rparr>)
       else (-1, s\<lparr>int13_calls := i\<rparr>))"
    by (rule read_sector_at [OF Suc.prems(1) lk]) (use Suc.prems Suc.hyps(2) in auto)
  consider "remaining = 0" | (fail) "remaining \<noteq> 0" "\<not> read_succeeds s" | (read) "remaining \<noteq> 0" "read_succeeds s" by blast
  then show ?case
  proof cases
    case fail
    from read_fails [OF fail(2)] fail i show ?thesis by (auto simp: up word_neq_0_conv)
  next
    case read
    let ?s = "s\<lparr>int13_calls := i, bmem := copy_sector ?at (sector s (l + k)) (bmem s)\<rparr>" and ?c = "if 512 > remaining then remaining else 512"
    let ?q = "min 512 (unat remaining)"
    have rest: "boot_rest ?s = boot_rest s" by simp
    note same = rest_same [OF rest]
    have mem: "bmem ?s x = (if a \<le> unat x \<and> unat x < a + 512 then sector s (l + k) (unat x - a) else bmem s x)" for x
      using copy_sector_unat [of a ?at] at a by simp
    have "unat linear + unat remaining < 2 ^ 32" using Suc.prems(6,7) by simp
    note c = chunk_size [OF this, unfolded Suc.prems(6)]
    have run: "load_cluster lba [k..<n] linear remaining s = load_cluster lba [Suc k..<n] (linear + ?c) (remaining - ?c) ?s"
      using i read Suc.prems(2) by (simp add: up word_neq_0_conv Let_def)
    let ?m = "min (unat remaining - ?q) (512 * (n - Suc k))"
    have "\<exists>res s'. load_cluster lba [Suc k..<n] (linear + ?c) (remaining - ?c) ?s = Some (res, s') \<and> boot_rest s' = boot_rest ?s \<and>
      (\<forall>x. unat x < a + ?q \<longrightarrow> bmem s' x = bmem ?s x) \<and>
      (let m = min (unat (remaining - ?c)) (512 * (n - Suc k)) in res = None \<and> (\<exists>i. int13_fails ?s i) \<or>
          res = Some (linear + ?c + of_nat m, remaining - ?c - of_nat m) \<and>
          (\<forall>j < m. bmem s' (of_nat (a + ?q + j)) = sector ?s (l + Suc k + j div 512) (j mod 512)))"
      by (rule Suc.hyps(1)) (use Suc.hyps(2) Suc.prems same c in auto)
    then obtain res s' where IH: "load_cluster lba [Suc k..<n] (linear + ?c) (remaining - ?c) ?s = Some (res, s')" "boot_rest s' = boot_rest s"
      "\<And>x. unat x < a + ?q \<Longrightarrow> bmem s' x = bmem ?s x"
      "res = None \<and> (\<exists>i. int13_fails s i) \<or> res = Some (linear + ?c + of_nat ?m, remaining - ?c - of_nat ?m) \<and>
          (\<forall>j < ?m. bmem s' (of_nat (a + ?q + j)) = sector s (l + k + Suc (j div 512)) (j mod 512))"
      using same rest unfolding c(3) by (auto simp: Let_def)
    let ?M = "min (unat remaining) (512 * (n - k))"
    have M: "?M = ?q + ?m" using Suc.hyps(2) by (auto simp: min_def)
    have "bmem s' (of_nat (a + j)) = sector s (l + k + j div 512) (j mod 512)"
      if "\<forall>j < ?m. bmem s' (of_nat (a + ?q + j)) = sector s (l + k + Suc (j div 512)) (j mod 512)" "j < ?M" for j
      using join_sectors [of ?s a "\<lambda>i. sector s (l + k + i)" "bmem s" "unat remaining" s' ?m j] mem IH(3) that Suc.prems(7) by (simp add: M)
    moreover have "linear + ?c + of_nat ?m = linear + of_nat ?M" "remaining - ?c - of_nat ?m = remaining - of_nat ?M"
      unfolding M c(1) by simp_all
    moreover have "bmem s' x = bmem s x" if "unat x < a" for x using IH(3) [of x] mem [of x] that by simp
    ultimately show ?thesis unfolding run IH(1) Let_def using IH(2,4) by auto
  qed (simp add: up)
qed

text \<open>The chain of clusters, and byte \<open>j\<close> of the file that starts at cluster \<open>c\<close>.\<close>

definition cluster_at :: "(nat \<Rightarrow> u8) \<Rightarrow> u16 \<Rightarrow> nat \<Rightarrow> u16" where
  "cluster_at t c k = (fat12_next_cluster t ^^ k) c"

definition good_cluster :: "u16 \<Rightarrow> bool" where
  "good_cluster c \<longleftrightarrow> 2 \<le> unat c \<and> unat c < 0xFF7"

definition cluster_bytes :: "'a fat_scheme \<Rightarrow> nat" where
  "cluster_bytes s = 512 * unat (g_sectors_per_cluster s)"

definition cluster_lba :: "'a fat_scheme \<Rightarrow> u16 \<Rightarrow> nat" where
  "cluster_lba s c = unat (g_first_data_sector s) + (unat c - 2) * unat (g_sectors_per_cluster s)"

definition file_byte :: "'a fat_scheme \<Rightarrow> (nat \<Rightarrow> u8) \<Rightarrow> u16 \<Rightarrow> nat \<Rightarrow> u8" where
  "file_byte s t c j = sector s (cluster_lba s (cluster_at t c (j div cluster_bytes s)) + j mod cluster_bytes s div 512) (j mod 512)"

text \<open>A file of \<open>n\<close> bytes needs the clusters whose first byte is before its end.\<close>

definition chain_ok :: "'a fat_scheme \<Rightarrow> (nat \<Rightarrow> u8) \<Rightarrow> u16 \<Rightarrow> nat \<Rightarrow> bool" where
  "chain_ok s t c n \<longleftrightarrow> (\<forall>k. k * cluster_bytes s < n \<longrightarrow> good_cluster (cluster_at t c k))"

lemma cluster_at_0 [simp]: "cluster_at t c 0 = c"
  by (simp add: cluster_at_def)

lemma cluster_at_Suc: "cluster_at t c (Suc k) = cluster_at t (fat12_next_cluster t c) k"
  by (simp add: cluster_at_def funpow_swap1)

lemma next_cluster_cong:
  assumes "unat c < 4096" "\<And>i. i < 0x1E00 \<Longrightarrow> t i = u i"
  shows "fat12_next_cluster t c = fat12_next_cluster u c"
proof -
  have "3 * (unat c div 2) + 2 < 0x1E00" using assms(1) by simp
  then show ?thesis using assms by (simp add: unat_inj next_cluster_unat Let_def)
qed

lemma chain_ok_next:
  assumes "0 < cluster_bytes s" "cluster_bytes s < n" "good_cluster c"
  shows "chain_ok s t c n \<longleftrightarrow> chain_ok s t (fat12_next_cluster t c) (n - cluster_bytes s)"
proof -
  have "(\<forall>k. k * cluster_bytes s < n \<longrightarrow> good_cluster (cluster_at t c k)) \<longleftrightarrow>
      (\<forall>k. Suc k * cluster_bytes s < n \<longrightarrow> good_cluster (cluster_at t c (Suc k)))"
    using assms(3) by (metis cluster_at_0 not0_implies_Suc)
  then show ?thesis unfolding chain_ok_def cluster_at_Suc by (simp add: less_diff_conv add.commute)
qed

lemma file_byte_next:
  assumes "0 < cluster_bytes s" "cluster_bytes s \<le> j"
  shows "file_byte s t c j = file_byte s t (fat12_next_cluster t c) (j - cluster_bytes s)"
proof -
  have "j div cluster_bytes s = Suc ((j - cluster_bytes s) div cluster_bytes s)" "(j - cluster_bytes s) mod cluster_bytes s = j mod cluster_bytes s"
    using assms by (simp_all add: le_div_geq le_mod_geq)
  moreover obtain i where "j = cluster_bytes s + i" using assms(2) by (metis le_iff_add)
  then have "(j - cluster_bytes s) mod 512 = j mod 512" by (simp add: cluster_bytes_def)
  ultimately show ?thesis by (simp add: file_byte_def cluster_at_Suc)
qed

lemma cluster_lba_unat:
  assumes "good_cluster c" "unat (g_first_data_sector s) + 4085 * unat (g_sectors_per_cluster s) \<le> disk_size s" "geometry_ok s"
  shows "unat (g_first_data_sector s + (ucast c - 2) * ucast (g_sectors_per_cluster s) :: u32) = cluster_lba s c"
    "cluster_lba s c + unat (g_sectors_per_cluster s) \<le> disk_size s"
proof -
  let ?p = "unat (g_sectors_per_cluster s)"
  have c: "2 \<le> unat c" "unat c - 2 < 4085" using assms(1) unfolding good_cluster_def by linarith+
  have "(unat c - 2) * ?p + ?p \<le> 4085 * ?p" using c(2) by (metis Suc_leI add.commute mult_Suc mult_le_mono1)
  then show le: "cluster_lba s c + ?p \<le> disk_size s" using assms(2) unfolding cluster_lba_def by linarith
  have ds: "disk_size s < 2 ^ 32" by (rule geometry_disk_size [OF assms(3)])
  have "unat (ucast c - 2 :: u32) = unat c - 2" using c by (subst unat_minus_small) (simp_all add: unat_ucast_up)
  then have m: "unat ((ucast c - 2) * ucast (g_sectors_per_cluster s) :: u32) = (unat c - 2) * ?p"
    using le ds by (subst unat_mult_small) (simp_all add: unat_ucast_up cluster_lba_def)
  show "unat (g_first_data_sector s + (ucast c - 2) * ucast (g_sectors_per_cluster s) :: u32) = cluster_lba s c"
    using le ds by (subst unat_plus_small) (simp_all add: m cluster_lba_def)
qed

lemma near_unat:
  assumes "i < 0x10000"
  shows "unat (linear_address seg off + of_nat i) = 16 * unat seg + unat off + i"
  using assms unat_lt [of seg] unat_lt [of off]
  by (subst unat_plus_small) (simp_all add: linear_address_unat unat_of_nat_small)

text \<open>The table as it is in memory while the file is loaded: the sectors of the disk, and behind them what was there.\<close>

definition fat_table :: "'a fat_scheme \<Rightarrow> nat \<Rightarrow> u8" where
  "fat_table s i = (if i < 512 * unat (g_sectors_per_fat s)
     then sector s (unat (g_first_fat_sector s) + i div 512) (i mod 512) else near FAT_SEG s i)"

lemma read_table_loop_spec:
  assumes "geometry_ok s" "g_bytes_per_sector s = 512" "n \<le> 15" "unat (g_first_fat_sector s) + n \<le> disk_size s" "k \<le> n"
  shows "\<exists>r s'. read_table_loop [k..<n] s = Some (r, s') \<and> boot_rest s' = boot_rest s \<and>
    (r = 0 \<and> (\<forall>i < 0x1E00. near FAT_SEG s' i = (if 512 * k \<le> i \<and> i < 512 * n
        then sector s (unat (g_first_fat_sector s) + i div 512) (i mod 512) else near FAT_SEG s i)) \<or>
     r = -1 \<and> (\<exists>i. int13_fails s i))"
  using assms
proof (induction "n - k" arbitrary: k s)
  case 0
  then show ?case by auto
next
  case (Suc d)
  have k: "k < 15" "k < n" using Suc.hyps(2) Suc.prems(3) by simp_all
  have up: "[k..<n] = k # [Suc k..<n]" using k by (simp add: upt_conv_Cons)
  let ?l = "unat (g_first_fat_sector s)"
  have lk: "unat (g_first_fat_sector s + of_nat k) = ?l + k"
    using Suc.prems(4) k geometry_disk_size [OF Suc.prems(1)] by (subst unat_plus_small) (simp_all add: unat_of_nat_small)
  define off :: u16 where "off = FAT_SEG + ucast (of_nat k * ucast (g_bytes_per_sector s) :: u32)"
  have "of_nat k * ucast (g_bytes_per_sector s) = (of_nat (512 * k) :: u32)" using Suc.prems(2) by simp
  then have "off = FAT_SEG + ucast (of_nat (512 * k) :: u32)" unfolding off_def by simp
  then have off: "off = of_nat (0x2200 + 512 * k)" using k by (simp add: ucast_of_nat_small FAT_SEG_def del: of_nat_mult)
  then have uoff: "unat off = 0x2200 + 512 * k" unfolding off using k by (intro unat_of_nat_small) simp
  obtain i where i: "disk_read_sector (g_first_fat_sector s + of_nat k) (current_ds s) off s = Some (if read_succeeds s
       then (0, s\<lparr>int13_calls := i, bmem := copy_sector (linear_address (current_ds s) off) (sector s (?l + k)) (bmem s)\<rparr>)
       else (-1, s\<lparr>int13_calls := i\<rparr>))"
    by (rule read_sector_at [OF Suc.prems(1) lk]) (use Suc.prems k in auto)
  show ?case
  proof (cases "read_succeeds s")
    case False
    from read_fails [OF False] False i show ?thesis by (simp add: up off_def)
  next
    case True
    let ?s = "s\<lparr>int13_calls := i, bmem := copy_sector (linear_address (current_ds s) off) (sector s (?l + k)) (bmem s)\<rparr>"
    have rest: "boot_rest ?s = boot_rest s" by simp
    note same = rest_same [OF rest]
    have run: "read_table_loop [k..<n] s = read_table_loop [Suc k..<n] ?s" using i True by (simp add: up off_def)
    have near: "near FAT_SEG ?s j = (if 512 * k \<le> j \<and> j < 512 * k + 512 then sector s (?l + k) (j - 512 * k) else near FAT_SEG s j)"
      if "j < 0x1E00" for j
    proof -
      let ?a = "16 * unat (ds s) + 0x2200 + 512 * k"
      have b: "?a + 512 \<le> 2 ^ 32" using k unat_lt [of "ds s"] by simp
      have at: "unat (linear_address (current_ds s) off) = ?a" by (simp add: linear_address_unat uoff current_ds_def)
      have u: "unat (linear_address (ds s) FAT_SEG + of_nat j) = 16 * unat (ds s) + 0x2200 + j"
        using near_unat [of j "ds s" FAT_SEG] that by (simp add: FAT_SEG_def)
      show ?thesis unfolding near_def using copy_sector_unat [OF b at] by (auto simp: u)
    qed
    have "\<exists>r s'. read_table_loop [Suc k..<n] ?s = Some (r, s') \<and> boot_rest s' = boot_rest ?s \<and>
      (r = 0 \<and> (\<forall>i < 0x1E00. near FAT_SEG s' i = (if 512 * Suc k \<le> i \<and> i < 512 * n
        then sector ?s (unat (g_first_fat_sector ?s) + i div 512) (i mod 512) else near FAT_SEG ?s i)) \<or>
       r = -1 \<and> (\<exists>i. int13_fails ?s i))"
      by (rule Suc.hyps(1)) (use Suc.hyps(2) Suc.prems same k in auto)
    then obtain r s' where IH: "read_table_loop [Suc k..<n] ?s = Some (r, s')" "boot_rest s' = boot_rest s"
      "r = 0 \<and> (\<forall>i < 0x1E00. near FAT_SEG s' i = (if 512 * Suc k \<le> i \<and> i < 512 * n
        then sector s (?l + i div 512) (i mod 512) else near FAT_SEG ?s i)) \<or> r = -1 \<and> (\<exists>i. int13_fails s i)"
      using same rest by auto
    have "(if 512 * Suc k \<le> j \<and> j < 512 * n then sector s (?l + j div 512) (j mod 512) else near FAT_SEG ?s j) =
        (if 512 * k \<le> j \<and> j < 512 * n then sector s (?l + j div 512) (j mod 512) else near FAT_SEG s j)" if "j < 0x1E00" for j
    proof (cases "512 * k \<le> j \<and> j < 512 * k + 512")
      case True
      then obtain m where "j = 512 * k + m" "m < 512" by (metis add_less_cancel_left le_iff_add)
      then show ?thesis using near [OF that] k by simp
    next
      case False
      then show ?thesis using near [OF that] by auto
    qed
    with IH show ?thesis unfolding run by auto
  qed
qed

lemma good_cluster_iff: "good_cluster c \<longleftrightarrow> \<not> (c = 0xFF7 \<or> c < 2 \<or> c \<ge> 0xFF8)"
  by (auto simp: good_cluster_def word_less_nat_alt word_le_nat_alt unat_inj)

lemma chain_ok_single:
  assumes "0 < cluster_bytes s" "n \<le> cluster_bytes s" "good_cluster c"
  shows "chain_ok s t c n"
  unfolding chain_ok_def
proof (intro allI impI)
  fix k assume "k * cluster_bytes s < n"
  then have "k = 0" using assms(1,2) by (cases k) auto
  then show "good_cluster (cluster_at t c k)" using assms(3) by simp
qed

text \<open>Loading one cluster: a read error, the end of the file, or a whole cluster with more to come.\<close>

lemma load_one_cluster:
  assumes "geometry_ok s" "g_bytes_per_sector s = 512" "0 < unat (g_sectors_per_cluster s)"
    "unat (g_first_data_sector s) + 4085 * unat (g_sectors_per_cluster s) \<le> disk_size s" "good_cluster c"
    "unat linear = a" "a + unat remaining + 512 \<le> 2 ^ 20"
  shows "\<exists>res s1. load_cluster (g_first_data_sector s + (ucast c - 2) * ucast (g_sectors_per_cluster s)) [0..<unat (g_sectors_per_cluster s)]
      linear remaining s = Some (res, s1) \<and> boot_rest s1 = boot_rest s \<and> (\<forall>x. unat x < a \<longrightarrow> bmem s1 x = bmem s x) \<and>
    (res = None \<and> (\<exists>i. int13_fails s i) \<or>
     unat remaining \<le> cluster_bytes s \<and> (\<exists>l. res = Some (l, 0)) \<and> (\<forall>j < unat remaining. bmem s1 (of_nat (a + j)) = file_byte s t c j) \<or>
     cluster_bytes s < unat remaining \<and> res = Some (linear + of_nat (cluster_bytes s), remaining - of_nat (cluster_bytes s)) \<and>
       (\<forall>j < cluster_bytes s. bmem s1 (of_nat (a + j)) = file_byte s t c j))"
proof -
  let ?p = "unat (g_sectors_per_cluster s)" and ?n = "unat remaining" and ?B = "cluster_bytes s"
  let ?m = "min ?n (512 * ?p)"
  have B: "?B = 512 * ?p" by (simp add: cluster_bytes_def)
  note lba = cluster_lba_unat [OF assms(5,4,1)]
  from load_cluster_spec [OF assms(1,2) lba(1,2) _ assms(6,7), of 0] obtain res s1 where
    run: "load_cluster (g_first_data_sector s + (ucast c - 2) * ucast (g_sectors_per_cluster s)) [0..<?p] linear remaining s = Some (res, s1)"
      "boot_rest s1 = boot_rest s" "\<And>x. unat x < a \<Longrightarrow> bmem s1 x = bmem s x"
    and res: "res = None \<and> (\<exists>i. int13_fails s i) \<or> res = Some (linear + of_nat ?m, remaining - of_nat ?m) \<and>
      (\<forall>j < ?m. bmem s1 (of_nat (a + j)) = sector s (cluster_lba s c + 0 + j div 512) (j mod 512))"
    unfolding Let_def by auto
  have here: "sector s (cluster_lba s c + j div 512) (j mod 512) = file_byte s t c j" if "j < ?B" for j
    using that by (simp add: file_byte_def)
  show ?thesis
  proof (cases "?n \<le> ?B")
    case True
    then have "?m = ?n" by (simp add: B)
    with True res here show ?thesis unfolding run(1) using run(2,3) by auto
  next
    case False
    then have "?m = ?B" by (simp add: B)
    with False res here show ?thesis unfolding run(1) using run(2,3) by auto
  qed
qed

text \<open>The bytes of the first cluster and those of the rest of the chain are the bytes of the file.\<close>

lemma join_clusters:
  assumes "0 < cluster_bytes s" "a + n < 2 ^ 32" "\<And>x. unat x < a + cluster_bytes s \<Longrightarrow> bmem s' x = bmem s1 x"
    "\<forall>j < cluster_bytes s. bmem s1 (of_nat (a + j)) = file_byte s t c j"
    "\<forall>j < n - cluster_bytes s. bmem s' (of_nat (a + cluster_bytes s + j)) = file_byte s t (fat12_next_cluster t c) j" "j < n"
  shows "bmem s' (of_nat (a + j)) = file_byte s t c j"
proof (cases "j < cluster_bytes s")
  case True
  have "unat (of_nat (a + j) :: u32) = a + j" by (rule unat_of_nat_small) (use assms(2,6) in simp)
  then show ?thesis using True assms(3) [of "of_nat (a + j)"] assms(4) by simp
next
  case False
  then have "j - cluster_bytes s < n - cluster_bytes s" using assms(6) by linarith
  then have "bmem s' (of_nat (a + cluster_bytes s + (j - cluster_bytes s))) = file_byte s t (fat12_next_cluster t c) (j - cluster_bytes s)"
    by (rule assms(5) [rule_format])
  then show ?thesis using False file_byte_next [OF assms(1), of j t c] by (simp del: of_nat_add)
qed

lemma near_below:
  assumes "\<And>x. unat x < a \<Longrightarrow> bmem s1 x = bmem s x" "16 * unat (ds s) + 0x4000 \<le> a" "ds s1 = ds s" "i < 0x1E00"
  shows "near FAT_SEG s1 i = near FAT_SEG s i"
proof -
  have "unat (linear_address (ds s) FAT_SEG + of_nat i) < a" using near_unat [of i "ds s" FAT_SEG] assms(2,4) by (simp add: FAT_SEG_def)
  then show ?thesis using assms(1,3) by (simp add: near_def)
qed

lemma load_loop_spec:
  assumes "geometry_ok s" "g_bytes_per_sector s = 512" "0 < unat (g_sectors_per_cluster s)"
    "unat (g_first_data_sector s) + 4085 * unat (g_sectors_per_cluster s) \<le> disk_size s"
    "good_cluster c" "unat linear = a" "16 * unat (ds s) + 0x4000 \<le> a" "a + unat remaining + 512 \<le> 2 ^ 20"
    "\<And>i. i < 0x1E00 \<Longrightarrow> near FAT_SEG s i = t i"
  shows "\<exists>r s'. load_loop c linear remaining s = Some (r, s') \<and> boot_rest s' = boot_rest s \<and>
    (\<forall>x. unat x < a \<longrightarrow> bmem s' x = bmem s x) \<and>
    (r = 0 \<and> chain_ok s t c (unat remaining) \<and> (\<forall>j < unat remaining. bmem s' (of_nat (a + j)) = file_byte s t c j) \<or>
     r = -1 \<and> ((\<exists>i. int13_fails s i) \<or> \<not> chain_ok s t c (unat remaining)))"
  using assms
proof (induction "unat remaining" arbitrary: c linear a remaining s rule: less_induct)
  case less
  let ?n = "unat remaining" and ?B = "cluster_bytes s"
  have B: "0 < ?B" using less.prems(3) by (simp add: cluster_bytes_def)
  obtain res s1 where run: "load_cluster (g_first_data_sector s + (ucast c - 2) * ucast (g_sectors_per_cluster s)) [0..<unat (g_sectors_per_cluster s)] linear remaining s = Some (res, s1)"
    and rest: "boot_rest s1 = boot_rest s" and below: "\<And>x. unat x < a \<Longrightarrow> bmem s1 x = bmem s x"
    and res: "res = None \<and> (\<exists>i. int13_fails s i) \<or>
      ?n \<le> ?B \<and> (\<exists>l. res = Some (l, 0)) \<and> (\<forall>j < ?n. bmem s1 (of_nat (a + j)) = file_byte s t c j) \<or>
      ?B < ?n \<and> res = Some (linear + of_nat ?B, remaining - of_nat ?B) \<and> (\<forall>j < ?B. bmem s1 (of_nat (a + j)) = file_byte s t c j)"
    using load_one_cluster [OF less.prems(1-6,8), of t] by blast
  note same = rest_same [OF rest]
  let ?l = "linear + of_nat ?B" and ?r = "remaining - of_nat ?B" and ?c = "fat12_next_cluster (near FAT_SEG s1) c"
  have fat: "near FAT_SEG s1 i = t i" if "i < 0x1E00" for i
    using near_below [OF below less.prems(7) _ that] less.prems(9) [OF that] same by simp
  have c: "?c = fat12_next_cluster t c" by (rule next_cluster_cong) (use less.prems(5) fat in \<open>auto simp: good_cluster_def\<close>)
  consider (none) "remaining = 0" | (fail) "remaining \<noteq> 0" "res = None" "\<exists>i. int13_fails s i"
    | (last) l where "remaining \<noteq> 0" "?n \<le> ?B" "res = Some (l, 0)" "\<forall>j < ?n. bmem s1 (of_nat (a + j)) = file_byte s t c j"
    | (more) "remaining \<noteq> 0" "?B < ?n" "res = Some (?l, ?r)" "\<forall>j < ?B. bmem s1 (of_nat (a + j)) = file_byte s t c j"
    using res by blast
  then show ?case
  proof cases
    case none
    then show ?thesis by (simp add: load_loop.simps chain_ok_def)
  next
    case fail
    then show ?thesis using run rest below by (subst load_loop.simps) auto
  next
    case last
    then have "load_loop c linear remaining s = Some (0, s1)" using run by (subst load_loop.simps) simp
    then show ?thesis using rest below last(4) chain_ok_single [OF B last(2) less.prems(5)] by auto
  next
    case more
    have Bs: "unat (of_nat ?B :: u32) = ?B" by (rule unat_of_nat_small) (use more(2) unat_lt [of remaining] in simp)
    have r: "unat ?r = ?n - ?B" using more(2) Bs by (subst unat_minus_small) simp_all
    have l: "unat ?l = a + ?B" using less.prems(6,8) more(2) Bs by (subst unat_plus_small) simp_all
    have nz: "?r \<noteq> 0" using r more(2) by auto
    note chain = chain_ok_next [OF B more(2) less.prems(5), of t]
    show ?thesis
    proof (cases "good_cluster ?c")
      case False
      then have "\<not> chain_ok s t (fat12_next_cluster t c) (?n - ?B)"
        unfolding chain_ok_def c using more(2) by (intro notI) (drule spec [of _ 0], simp)
      then show ?thesis
        using False [unfolded good_cluster_iff] run more(1,3) nz rest below chain by (subst load_loop.simps) (auto simp: Let_def)
    next
      case True
      then have step: "load_loop c linear remaining s = load_loop ?c ?l ?r s1"
        using run more(1,3) nz by (subst load_loop.simps) (simp add: Let_def good_cluster_iff)
      have fs: "file_byte s1 = file_byte s" "chain_ok s1 = chain_ok s"
        using same by (simp_all add: file_byte_def chain_ok_def cluster_lba_def cluster_bytes_def fun_eq_iff)
      have "\<exists>r s'. load_loop ?c ?l ?r s1 = Some (r, s') \<and> boot_rest s' = boot_rest s1 \<and>
        (\<forall>x. unat x < a + ?B \<longrightarrow> bmem s' x = bmem s1 x) \<and>
        (r = 0 \<and> chain_ok s1 t ?c (unat ?r) \<and> (\<forall>j < unat ?r. bmem s' (of_nat (a + ?B + j)) = file_byte s1 t ?c j) \<or>
         r = -1 \<and> ((\<exists>i. int13_fails s1 i) \<or> \<not> chain_ok s1 t ?c (unat ?r)))"
        by (rule less.hyps) (use less.prems same True l r more(2) B fat in auto)
      then obtain r s' where IH: "load_loop ?c ?l ?r s1 = Some (r, s')" "boot_rest s' = boot_rest s"
        "\<And>x. unat x < a + ?B \<Longrightarrow> bmem s' x = bmem s1 x"
        "r = 0 \<and> chain_ok s t c ?n \<and> (\<forall>j < ?n - ?B. bmem s' (of_nat (a + ?B + j)) = file_byte s t (fat12_next_cluster t c) j) \<or>
         r = -1 \<and> ((\<exists>i. int13_fails s i) \<or> \<not> chain_ok s t c ?n)"
        unfolding \<open>unat ?r = ?n - ?B\<close> fs c chain rest same(12) by blast
      have "a + ?n < 2 ^ 32" using less.prems(8) by simp
      note bytes = join_clusters [OF B this IH(3) more(4)]
      have "bmem s' x = bmem s x" if "unat x < a" for x using IH(3) [of x] below that by simp
      then show ?thesis unfolding step IH(1) using IH(2,4) bytes by (auto simp del: of_nat_add)
    qed
  qed
qed

section \<open>The whole loader\<close>

lemma dump_entries_geometry:
  "geometry_ok (snd (snd (dump_entries es n s))) = geometry_ok s"
proof (induction es arbitrary: n s)
  case (Cons e es)
  have "geometry_ok (debug_print_name83 is e t) = geometry_ok t" for "is" and t :: "'a boot_scheme"
    by (induction "is" arbitrary: t) (simp_all add: bios_print_char_def)
  then show ?case using Cons by (simp add: bios_print_emit)
qed simp

lemma dump_loop_total: "geometry_ok s \<Longrightarrow> \<exists>s'. dump_loop lba is n s = Some s'"
proof (induction "is" arbitrary: n s)
  case (Cons i "is")
  from read_total [OF Cons.prems] obtain r s1 where s1: "disk_read_sector (lba + of_nat i) (current_ds s) ROOT_DIR_SEG s = Some (r, s1)" "geometry_ok s1"
    by metis
  obtain stop m s2 where d: "dump_entries (buffer_entries s1) n s1 = (stop, m, s2)" by (cases "dump_entries (buffer_entries s1) n s1") auto
  have "geometry_ok s2" using dump_entries_geometry [of "buffer_entries s1" n s1] s1(2) d by simp
  from Cons.IH [OF this, of m] s1(1) d show ?case by simp
qed simp

lemma find_kernel_total: "geometry_ok s \<Longrightarrow> \<exists>r s'. find_kernel s = Some (r, s') \<and> boot_rest s' = boot_rest s"
proof -
  assume g: "geometry_ok s"
  obtain r s1 where 1: "fat_find_file (bytes_of ''KERNEL     '') s = Some (r, s1)" "boot_rest s1 = boot_rest s"
    using find_loop_total [OF g] unfolding fat_find_file_def by blast
  have "geometry_ok s1" using g boot_rest_same [OF 1(2)] by simp
  then obtain r2 s2 where 2: "fat_find_file (bytes_of ''KERNEL  BIN'') s1 = Some (r2, s2)" "boot_rest s2 = boot_rest s1"
    using find_loop_total unfolding fat_find_file_def by blast
  show ?thesis using 1 2 by (cases r) (simp_all add: find_kernel_def)
qed

lemma load_file_total:
  assumes "volume_ok s"
  shows "\<exists>r s'. fat_load_file c n dest s = Some (r, s') \<and> (r = 0 \<or> r = -1)"
proof -
  have g: "geometry_ok s" using assms by (simp add: volume_ok_def)
  obtain r s1 where 1: "fat_read_table s = Some (r, s1)" "boot_rest s1 = boot_rest s"
    using read_table_total [OF g] unfolding fat_read_table_def by blast
  have "geometry_ok s1" "0 < unat (g_bytes_per_sector s1)" "0 < unat (g_sectors_per_cluster s1)"
    using assms boot_rest_same [OF 1(2)] fat_restD [OF 1(2)] by (simp_all add: volume_ok_def)
  from load_loop_total [OF this, of c "linear_address (current_ds s) dest" n] 1 show ?thesis
    by (auto simp: fat_load_file_def Let_def)
qed

lemma volume_rest: "boot_rest s' = boot_rest s \<Longrightarrow> volume_ok s \<Longrightarrow> volume_ok s'"
proof -
  assume r: "boot_rest s' = boot_rest s" and v: "volume_ok s"
  have "g_num_fats s' = g_num_fats s" "g_root_entry_count s' = g_root_entry_count s" "g_cluster_count s' = g_cluster_count s"
    "g_total_sectors s' = g_total_sectors s"
    using arg_cong [OF r, of g_num_fats] arg_cong [OF r, of g_root_entry_count] arg_cong [OF r, of g_cluster_count]
      arg_cong [OF r, of g_total_sectors] by (simp_all add: boot_rest_def)
  with v fat_restD [OF r] boot_rest_same [OF r] show ?thesis by (simp add: volume_ok_def)
qed

lemma volume_emit: "volume_ok (emit t s) = volume_ok s"
  by (simp add: volume_ok_def geometry_ok_def emit_def)

text \<open>The last line on the screen.\<close>

definition last_message :: "string \<Rightarrow> 'a boot_scheme \<Rightarrow> bool" where
  "last_message m s \<longleftrightarrow> (\<exists>t. int10_trace s = t @ tty (m @ [CHR 0x0A]))"

lemma last_message_emit: "last_message m (emit (m @ [CHR 0x0A]) s)"
  unfolding last_message_def emit_def by simp

lemma stage2_cases:
  assumes bios: "bios_ok (g_drive s) s"
  shows "\<exists>out s'. stage2_main s = Some (out, s') \<and>
    (case out of
       JumpToKernel \<Rightarrow> last_message ''Starting kernel...'' s'
     | Hang \<Rightarrow> last_message ''ERROR: FAT init failed!'' s' \<or> last_message ''ERROR: Kernel not found!'' s' \<or>
         last_message ''ERROR: Load failed!'' s')"
proof -
  let ?s = "emit (''stage2_main reached!'' @ [CHR 0x0A]) s"
  have "bios_ok (g_drive ?s) ?s" using bios by (simp add: bios_ok_def emit_def)
  from fat_init_spec [OF this] obtain r s1 where 1: "fat_init (g_drive ?s) ?s = Some (r, s1)" "r = 0 \<longrightarrow> volume_ok s1" by blast
  let ?s1 = "emit (''Looking for kernel...'' @ [CHR 0x0A]) s1"
  show ?thesis
  proof (cases "r = 0")
    case False
    then have "stage2_main s = Some (Hang, emit (''ERROR: FAT init failed!'' @ [CHR 0x0A]) s1)"
      unfolding stage2_main_def bios_print_emit Let_def 1(1) by simp
    then show ?thesis using last_message_emit [of "''ERROR: FAT init failed!''" s1] by simp
  next
    case True
    have v: "volume_ok ?s1" using 1(2) True by (simp add: volume_emit)
    then have "geometry_ok ?s1" by (simp only: volume_ok_def)
    from find_kernel_total [OF this] obtain f s2 where 2: "find_kernel ?s1 = Some (f, s2)" "boot_rest s2 = boot_rest ?s1" by blast
    have v2: "volume_ok s2" by (rule volume_rest [OF 2(2) v])
    have run: "stage2_main s = (case f of
          None \<Rightarrow> debug_dump_root_dir s2 \<bind> (\<lambda>s. Some (Hang, emit (''ERROR: Kernel not found!'' @ [CHR 0x0A]) s))
        | Some (c, n) \<Rightarrow> fat_load_file c n KERNEL_SEG s2 \<bind> (\<lambda>(r, s).
            if r \<noteq> 0 then Some (Hang, emit (''ERROR: Load failed!'' @ [CHR 0x0A]) s)
            else Some (JumpToKernel, emit (''Starting kernel...'' @ [CHR 0x0A]) s)))"
      unfolding stage2_main_def bios_print_emit Let_def 1(1) using True 2(1) by (simp split: option.split)
    show ?thesis
    proof (cases f)
      case None
      have "geometry_ok s2" using v2 by (simp only: volume_ok_def)
      then obtain s3 where "debug_dump_root_dir s2 = Some s3"
        using dump_loop_total unfolding debug_dump_root_dir_def bios_print_emit by (metis geometry_trace(2))
      then show ?thesis using None run last_message_emit [of "''ERROR: Kernel not found!''" s3] by simp
    next
      case (Some cn)
      obtain c n where cn: "cn = (c, n)" by (cases cn)
      obtain r3 s3 where "fat_load_file c n KERNEL_SEG s2 = Some (r3, s3)" using load_file_total [OF v2] by blast
      then show ?thesis using Some cn run last_message_emit [of "''ERROR: Load failed!''" s3] last_message_emit [of "''Starting kernel...''" s3]
        by (cases "r3 = 0") simp_all
    qed
  qed
qed

lemma find_file_spec:
  assumes "geometry_ok s" "g_bytes_per_sector s = 512"
    "unat (g_first_root_dir_sector s) + unat (g_root_dir_sectors s) \<le> disk_size s"
  shows "\<exists>r s'. fat_find_file name83 s = Some (r, s') \<and> boot_rest s' = boot_rest s \<and>
    (r = directory_lookup name83 (root_directory s) \<or> r = None \<and> (\<exists>n. int13_fails s n))"
proof -
  let ?l = "unat (g_first_root_dir_sector s)"
  have "of_nat ?l = g_first_root_dir_sector s" by simp
  with find_loop_spec [OF assms(1,2), of "[0..<unat (g_root_dir_sectors s)]" ?l name83] assms(3) show ?thesis
    by (simp add: fat_find_file_def root_directory_def)
qed

text \<open>Everything below the buffers stays as it is, the loader itself included.\<close>

lemma read_sector_low:
  assumes "geometry_ok s" "disk_read_sector lba seg off s = Some (r, s')" "unat x < 16 * unat seg + unat off"
  shows "bmem s' x = bmem s x"
proof -
  have "unat (linear_address seg off) = 16 * unat seg + unat off" by (rule linear_address_unat)
  moreover have "16 * unat seg + unat off < 2 ^ 21" using unat_lt [of seg] unat_lt [of off] by simp
  ultimately have "\<not> unat (x - linear_address seg off) < 512" using assms(3) by (simp add: unat_sub_if_size word_size)
  with disk_read_sector_total [OF assms(1), of lba seg off] assms(2) show ?thesis by auto
qed

lemma find_loop_low:
  "geometry_ok s \<Longrightarrow> find_loop name83 lba is s = Some (r, s') \<Longrightarrow> unat x < 16 * unat (ds s) + 0x3400 \<Longrightarrow> bmem s' x = bmem s x"
proof (induction "is" arbitrary: s)
  case (Cons i "is")
  from read_total [OF Cons.prems(1)] obtain r1 s1 where s1: "disk_read_sector (lba + of_nat i) (current_ds s) ROOT_DIR_SEG s = Some (r1, s1)"
    "boot_rest s1 = boot_rest s" "geometry_ok s1" by metis
  have "bmem s1 x = bmem s x" by (rule read_sector_low [OF Cons.prems(1) s1(1)]) (use Cons.prems(3) in \<open>simp add: current_ds_def ROOT_DIR_SEG_def\<close>)
  moreover have "ds s1 = ds s" using boot_restD [OF s1(2)] by simp
  ultimately show ?case using Cons.IH [OF s1(3)] Cons.prems(2,3) s1(1) by (auto split: if_splits scan.splits)
qed simp

lemma read_table_low:
  "geometry_ok s \<Longrightarrow> g_bytes_per_sector s = 512 \<Longrightarrow> \<forall>i \<in> set is. i < 15 \<Longrightarrow> read_table_loop is s = Some (r, s') \<Longrightarrow>
   unat x < 16 * unat (ds s) + 0x2200 \<Longrightarrow> bmem s' x = bmem s x"
proof (induction "is" arbitrary: s)
  case (Cons i "is")
  let ?off = "FAT_SEG + ucast (of_nat i * ucast (g_bytes_per_sector s) :: u32) :: u16"
  from read_total [OF Cons.prems(1)] obtain r1 s1 where s1: "disk_read_sector (g_first_fat_sector s + of_nat i) (current_ds s) ?off s = Some (r1, s1)"
    "boot_rest s1 = boot_rest s" "geometry_ok s1" by metis
  have "ucast (of_nat i * 512 :: u32) = (of_nat (i * 512) :: u16)" using ucast_of_nat_small [of "i * 512", where 'a = 32 and 'b = 16] Cons.prems(3) by simp
  moreover have "unat (of_nat (i * 512) :: u16) = i * 512" by (rule unat_of_nat_small) (use Cons.prems(3) in simp)
  ultimately have "0x2200 \<le> unat ?off" using Cons.prems(2,3) by (simp add: FAT_SEG_def) (subst unat_plus_small; simp)
  then have "bmem s1 x = bmem s x" by (intro read_sector_low [OF Cons.prems(1) s1(1)]) (use Cons.prems(5) in \<open>simp add: current_ds_def\<close>)
  moreover have "ds s1 = ds s" "g_bytes_per_sector s1 = 512" using boot_restD [OF s1(2)] fat_restD [OF s1(2)] Cons.prems(2) by simp_all
  ultimately show ?case using Cons.IH [OF s1(3)] Cons.prems s1(1) by (auto split: if_splits)
qed simp

lemma load_file_spec:
  assumes "geometry_ok s" "g_bytes_per_sector s = 512" "0 < unat (g_sectors_per_cluster s)" "unat (g_sectors_per_fat s) \<le> 15"
    "unat (g_first_fat_sector s) + unat (g_sectors_per_fat s) \<le> disk_size s"
    "unat (g_first_data_sector s) + 4085 * unat (g_sectors_per_cluster s) \<le> disk_size s"
    "good_cluster first" "16 * unat (ds s) + 0x4000 + unat n + 512 \<le> 2 ^ 20"
  shows "\<exists>r s'. fat_load_file first n KERNEL_SEG s = Some (r, s') \<and> boot_rest s' = boot_rest s \<and>
    (\<forall>x. unat x < 16 * unat (ds s) + 0x2200 \<longrightarrow> bmem s' x = bmem s x) \<and>
    (r = 0 \<and> chain_ok s (fat_table s) first (unat n) \<and>
       (\<forall>j < unat n. bmem s' (of_nat (16 * unat (ds s) + 0x4000 + j)) = file_byte s (fat_table s) first j) \<or>
     r = -1 \<and> ((\<exists>i. int13_fails s i) \<or> \<not> chain_ok s (fat_table s) first (unat n)))"
proof -
  let ?f = "unat (g_sectors_per_fat s)" and ?a = "16 * unat (ds s) + 0x4000"
  from read_table_loop_spec [OF assms(1,2,4,5), of 0] obtain r s1 where
    run: "fat_read_table s = Some (r, s1)" and rest: "boot_rest s1 = boot_rest s"
    and r: "r = 0 \<and> (\<forall>i < 0x1E00. near FAT_SEG s1 i = fat_table s i) \<or> r = -1 \<and> (\<exists>i. int13_fails s i)"
    by (auto simp: fat_read_table_def fat_table_def)
  note same = rest_same [OF rest]
  have low: "unat x < 16 * unat (ds s) + 0x2200 \<Longrightarrow> bmem s1 x = bmem s x" for x
    by (rule read_table_low [OF assms(1,2) _ run [unfolded fat_read_table_def]]) (use assms(4) in auto)
  have ge2: "\<not> first < 2" using assms(7) by (simp add: good_cluster_def word_less_nat_alt)
  have a: "unat (linear_address (current_ds s) KERNEL_SEG) = ?a" by (simp add: linear_address_unat current_ds_def KERNEL_SEG_def)
  show ?thesis
  proof (cases "r = 0")
    case False
    then show ?thesis using run rest r ge2 low by (auto simp: fat_load_file_def Let_def)
  next
    case True
    have fs: "file_byte s1 = file_byte s" "chain_ok s1 = chain_ok s"
      using same by (simp_all add: file_byte_def chain_ok_def cluster_lba_def cluster_bytes_def fun_eq_iff)
    have "fat_load_file first n KERNEL_SEG s = load_loop first (linear_address (current_ds s) KERNEL_SEG) n s1"
      using run ge2 True by (simp add: fat_load_file_def Let_def)
    moreover have "\<exists>r s'. load_loop first (linear_address (current_ds s) KERNEL_SEG) n s1 = Some (r, s') \<and> boot_rest s' = boot_rest s1 \<and>
      (\<forall>x. unat x < ?a \<longrightarrow> bmem s' x = bmem s1 x) \<and>
      (r = 0 \<and> chain_ok s1 (fat_table s) first (unat n) \<and> (\<forall>j < unat n. bmem s' (of_nat (?a + j)) = file_byte s1 (fat_table s) first j) \<or>
       r = -1 \<and> ((\<exists>i. int13_fails s1 i) \<or> \<not> chain_ok s1 (fat_table s) first (unat n)))"
      by (rule load_loop_spec) (use assms same a r True in auto)
    ultimately show ?thesis using rest same low unfolding fs by (auto simp del: of_nat_add)
  qed
qed

section \<open>A concrete volume\<close>

definition byte_at :: "(nat \<times> u8) list \<Rightarrow> nat \<Rightarrow> u8" where
  "byte_at xs i = (case map_of xs i of Some b \<Rightarrow> b | None \<Rightarrow> 0)"

text \<open>Boot sector, one table with the chain 2, 3, one directory sector with the file \<^verbatim>\<open>KERNEL\<close> of 600 bytes, then data.\<close>

definition disk_bytes :: "nat \<Rightarrow> nat \<Rightarrow> u8" where
  "disk_bytes sec i =
     (if sec = 1 then byte_at [(12, 2), (13, 1), (14, 1), (16, 1), (17, 16), (19, 36), (22, 1)] i
      else if sec = 2 then byte_at [(3, 3), (4, 0xF0), (5, 0xFF)] i
      else if sec = 3 then byte_at [(0, 0x4B), (1, 0x45), (2, 0x52), (3, 0x4E), (4, 0x45), (5, 0x4C), (6, 0x20), (7, 0x20),
        (8, 0x20), (9, 0x20), (10, 0x20), (11, 0x20), (26, 2), (28, 0x58), (29, 2)] i
      else of_nat (sec + i))"

definition volume :: fat where
  "volume = boot.extend (floppy\<lparr>int13_fails := (\<lambda>_. False), disk_image := (\<lambda>_ cyl hd sec. disk_bytes (18 * (2 * cyl + hd) + sec))\<rparr>)
     (fat.fields 1 1 512 1 16 36 1 1 3 1 2 33 33 2)"

lemma volume_fields:
  "geometry_ok volume" "disk_size volume = 36864" "g_bytes_per_sector volume = 512" "unat (g_sectors_per_cluster volume) = 1"
  "unat (g_sectors_per_fat volume) = 1" "unat (g_first_fat_sector volume) = 1" "unat (g_first_data_sector volume) = 3"
  "g_first_root_dir_sector volume = 2" "unat (g_root_dir_sectors volume) = 1" "ds volume = 0x500" "\<not> int13_fails volume n"
  "bios_ok d volume" "g_drive volume = 0"
  by (simp_all add: volume_def boot.defs fat.defs floppy_def geometry_ok_def disk_size_def bios_ok_def)

lemma volume_sector: "sector volume lba = disk_bytes (Suc lba)"
proof -
  have "2 * (lba div 18 div 2) + lba div 18 mod 2 = lba div 18" "18 * (lba div 18) + lba mod 18 = lba" by simp_all
  then have "36 * (lba div 18 div 2) + 18 * (lba div 18 mod 2) + lba mod 18 = lba" by linarith
  then show ?thesis by (simp add: sector_def volume_def boot.defs floppy_def)
qed

section \<open>Properties\<close>

text \<open>C39. \<^verbatim>\<open>fat12_next_cluster\<close> unpacks a FAT12 table: reading entry \<open>c\<close> of the packed form of a table of 12-bit values gives back
  value \<open>c\<close>, in even and odd positions.\<close>

theorem fat12_next_cluster_unpacks:
  assumes "\<forall>e \<in> set es. e < 4096" "length es \<le> 4096" "c < length es"
  shows "unat (fat12_next_cluster (\<lambda>i. pack12 es ! i) (of_nat c)) = es ! c"
  by (rule next_cluster_pack12 [OF assms])

theorem fat12_next_cluster_unpacks_witness:
  "unat (fat12_next_cluster (\<lambda>i. pack12 [0xFF0, 0xFFF, 3, 0xABC] ! i) 3) = 0xABC"
  using fat12_next_cluster_unpacks [of "[0xFF0, 0xFFF, 3, 0xABC]" 3] by simp







end
