(* ===== verification/Timer.thy ===== *)
theory Timer
  imports Scheduler
begin

text \<open>
  The interrupt controller (\<^verbatim>\<open>arch/x86/pic.c\<close>) and the interval timer (\<^verbatim>\<open>drivers/timer/pit.c\<close>). Both are programmed through
  ports, so what they are told is the trace of port writes. The lemmas say what that trace means to the two chips.
\<close>

section \<open>The interrupt controller\<close>

definition PIC1 :: u16 where "PIC1 = 0x20"
definition PIC2 :: u16 where "PIC2 = 0xA0"
definition PIC1_COMMAND :: u16 where "PIC1_COMMAND = PIC1"
definition PIC1_DATA :: u16 where "PIC1_DATA = PIC1 + 1"
definition PIC2_COMMAND :: u16 where "PIC2_COMMAND = PIC2"
definition PIC2_DATA :: u16 where "PIC2_DATA = PIC2 + 1"
definition PIC_EOI :: u8 where "PIC_EOI = 0x20"

definition pic_init :: "'a machine_scheme \<Rightarrow> 'a machine_scheme" where
  "pic_init s =
     (let s = outb PIC1_COMMAND 0x11 s; s = outb PIC2_COMMAND 0x11 s;
          s = outb PIC1_DATA 0x20 s; s = outb PIC2_DATA 0x28 s;
          s = outb PIC1_DATA 0x04 s;
          s = outb PIC2_DATA 0x02 s;
          s = outb PIC1_DATA 0x01 s; s = outb PIC2_DATA 0x01 s;
          s = outb PIC1_DATA 0xFC s
      in outb PIC2_DATA 0xFF s)"

definition pic_send_eoi :: "u8 \<Rightarrow> 'a machine_scheme \<Rightarrow> 'a machine_scheme" where
  "pic_send_eoi irq s =
     (let s = (if irq \<ge> 8 then outb PIC2_COMMAND PIC_EOI s else s) in outb PIC1_COMMAND PIC_EOI s)"

section \<open>The timer\<close>

definition PIT_FREQUENCY :: u32 where "PIT_FREQUENCY = 1000"
definition PIT_CHANNEL0 :: u16 where "PIT_CHANNEL0 = 0x40"
definition PIT_COMMAND :: u16 where "PIT_COMMAND = 0x43"
definition PIT_BASE_FREQUENCY :: u32 where "PIT_BASE_FREQUENCY = 1193182"

record timer = sched +
  pit_ticks :: u32

text \<open>Dividing by a frequency of zero is a processor fault.\<close>

definition pit_init :: "u32 \<Rightarrow> 'a machine_scheme \<Rightarrow> 'a machine_scheme option" where
  "pit_init frequency s =
     do { guard (frequency \<noteq> 0);
          let divisor = PIT_BASE_FREQUENCY div frequency;
          let s = outb PIT_COMMAND 0x36 s;
          let s = outb PIT_CHANNEL0 (ucast (divisor AND 0xFF)) s;
          Some (outb PIT_CHANNEL0 (ucast (drop_bit 8 divisor AND 0xFF)) s) }"

definition pit_tick :: "'a timer_scheme \<Rightarrow> 'a timer_scheme" where
  "pit_tick s = s\<lparr>pit_ticks := pit_ticks s + 1\<rparr>"

definition pit_get_ticks :: "'a timer_scheme \<Rightarrow> u32" where
  "pit_get_ticks s = pit_ticks s"

definition timer_ms :: "'a timer_scheme \<Rightarrow> u64" where
  "timer_ms s =
     (if PIT_FREQUENCY = 1000 then ucast (pit_get_ticks s)
      else ucast (pit_get_ticks s) * 1000 div ucast PIT_FREQUENCY)"

section \<open>What the chips are told\<close>

text \<open>An 8259 that receives 11h on its command port takes the next three bytes on its data port as vector offset,
  cascade wiring and mode; after that a byte on the data port is the interrupt mask.\<close>

record pic_chip =
  expects :: nat
  offset :: u8
  cascade :: u8
  mode :: u8
  imr :: u8
  eois :: nat

definition pic_write :: "u16 \<Rightarrow> (u16 \<times> u8) \<Rightarrow> pic_chip \<Rightarrow> pic_chip" where
  "pic_write base w c =
     (if fst w = base then if snd w = 0x11 then c\<lparr>expects := 3, imr := 0\<rparr>
        else if snd w = 0x20 then c\<lparr>eois := Suc (eois c)\<rparr> else c
      else if fst w = base + 1 then
        if expects c = 3 then c\<lparr>expects := 2, offset := snd w\<rparr>
        else if expects c = 2 then c\<lparr>expects := 1, cascade := snd w\<rparr>
        else if expects c = 1 then c\<lparr>expects := 0, mode := snd w\<rparr>
        else c\<lparr>imr := snd w\<rparr>
      else c)"

definition pic_state :: "u16 \<Rightarrow> pic_chip \<Rightarrow> 'a machine_scheme \<Rightarrow> pic_chip" where
  "pic_state base c s = fold (pic_write base) (out_trace s) c"

lemma pic_state_outb: "pic_state base c (outb p v s) = pic_write base (p, v) (pic_state base c s)"
  by (simp add: pic_state_def)

lemmas pic_ports = PIC1_COMMAND_def PIC2_COMMAND_def PIC1_DATA_def PIC2_DATA_def PIC1_def PIC2_def PIC_EOI_def

lemma pic_init_state:
  "pic_state PIC1 c (pic_init s) = (pic_state PIC1 c s)\<lparr>expects := 0, offset := 32, cascade := 4, mode := 1, imr := 0xFC\<rparr>"
  "pic_state PIC2 c (pic_init s) = (pic_state PIC2 c s)\<lparr>expects := 0, offset := 40, cascade := 2, mode := 1, imr := 0xFF\<rparr>"
  by (simp_all add: pic_init_def Let_def pic_state_outb pic_write_def pic_ports)

lemma pic_send_eoi_state:
  "pic_state PIC1 c (pic_send_eoi irq s) = (pic_state PIC1 c s)\<lparr>eois := Suc (eois (pic_state PIC1 c s))\<rparr>"
  "pic_state PIC2 c (pic_send_eoi irq s) =
     (if irq \<ge> 8 then (pic_state PIC2 c s)\<lparr>eois := Suc (eois (pic_state PIC2 c s))\<rparr> else pic_state PIC2 c s)"
  by (simp_all add: pic_send_eoi_def Let_def pic_state_outb pic_write_def pic_ports)

text \<open>The count the timer is loaded with, low byte first.\<close>

lemma pit_init_count:
  assumes "f \<noteq> 0"
  shows "\<exists>lo hi. pit_init f s = Some (s\<lparr>out_trace := out_trace s @ [(0x43, 0x36), (0x40, lo), (0x40, hi)]\<rparr>) \<and>
    unat lo + 256 * unat hi = 1193182 div unat f mod 65536"
proof -
  let ?d = "PIT_BASE_FREQUENCY div f"
  let ?lo = "ucast (?d AND 0xFF) :: u8" and ?hi = "ucast (drop_bit 8 ?d AND 0xFF) :: u8"
  have m: "unat (x AND 0xFF :: u32) = unat x mod 256" for x using unat_and_mask [of x 8] by (simp add: mask_eq_exp_minus_1)
  have u: "unat (ucast x :: u8) = unat x mod 256" for x :: u32 by (simp add: unsigned_ucast_eq take_bit_eq_mod)
  have d: "unat ?d = 1193182 div unat f" by (simp add: unat_div PIT_BASE_FREQUENCY_def)
  have "unat (drop_bit 8 ?d) = unat ?d div 256" by (simp add: unsigned_drop_bit_eq drop_bit_eq_div unat_div)
  then have "unat ?lo = unat ?d mod 256" "unat ?hi = unat ?d div 256 mod 256" by (simp_all only: u m) simp_all
  then have "unat ?lo + 256 * unat ?hi = unat ?d mod 65536"
    using mod_mult2_eq [of "unat ?d" 256 256] by simp
  then show ?thesis using assms d
    by (intro exI [of _ ?lo] exI [of _ ?hi]) (simp add: pit_init_def Let_def outb_def PIT_COMMAND_def PIT_CHANNEL0_def)
qed

end
