(* ===== verification/Keyboard.thy ===== *)
theory Keyboard
  imports Timer
begin

text \<open>
  \<^verbatim>\<open>drivers/keyboard/keyboard.c\<close>: the interrupt handler of the keyboard. It reads a scan code, tracks the two shift keys,
  caps lock and the E0 prefix, scrolls the terminal on the cursor keys and otherwise puts the character of the key on
  the screen. The polling loops of \<^verbatim>\<open>keyboard_set_caps_lock_led\<close> are bounded by 100000 attempts each.
\<close>

section \<open>The code\<close>

definition KEYBOARD_DATA_PORT :: u16 where "KEYBOARD_DATA_PORT = 0x60"
definition KEYBOARD_STATUS_PORT :: u16 where "KEYBOARD_STATUS_PORT = 0x64"
definition KEYBOARD_SCANCODE_COUNT :: nat where "KEYBOARD_SCANCODE_COUNT = 128"
definition SCANCODE_LEFT_SHIFT :: u8 where "SCANCODE_LEFT_SHIFT = 42"
definition SCANCODE_CAPS_LOCK :: u8 where "SCANCODE_CAPS_LOCK = 58"
definition SCANCODE_RIGHT_SHIFT :: u8 where "SCANCODE_RIGHT_SHIFT = 54"
definition SCANCODE_EXTENDED :: u8 where "SCANCODE_EXTENDED = 0xE0"
definition SCANCODE_UP :: u8 where "SCANCODE_UP = 0x48"
definition SCANCODE_PAGE_UP :: u8 where "SCANCODE_PAGE_UP = 0x49"
definition SCANCODE_DOWN :: u8 where "SCANCODE_DOWN = 0x50"
definition SCANCODE_PAGE_DOWN :: u8 where "SCANCODE_PAGE_DOWN = 0x51"

record kbd = timer +
  extendedScancode :: bool
  leftShiftPressed :: bool
  rightShiftPressed :: bool
  capsLockEnabled :: bool

text \<open>The initialisers name 58 characters; C fills the rest of the arrays with zeros.\<close>

definition keyboardMap :: "char list" where
  "keyboardMap =
     [CHR 0x00, CHR 0x1B] @ ''1234567890-='' @ [CHR 0x08, CHR 0x09] @ ''qwertyuiop[]'' @ [CHR 0x0A, CHR 0x00] @
     ''asdfghjkl;'' @ [CHR 0x27] @ [CHR 0x60] @ [CHR 0x00, CHR 0x5C] @ ''zxcvbnm,./'' @ [CHR 0x00] @ ''*'' @ [CHR 0x00] @ '' '' @
     replicate 70 (CHR 0x00)"

definition keyboardShiftMap :: "char list" where
  "keyboardShiftMap =
     [CHR 0x00, CHR 0x1B] @ ''!@#$%^&*()_+'' @ [CHR 0x08, CHR 0x09] @ ''QWERTYUIOP{}'' @ [CHR 0x0A, CHR 0x00] @
     ''ASDFGHJKL:'' @ [CHR 0x22] @ ''~'' @ [CHR 0x00] @ ''|ZXCVBNM<>?'' @ [CHR 0x00] @ ''*'' @ [CHR 0x00] @ '' '' @
     replicate 70 (CHR 0x00)"

text \<open>A polling loop with the attempts that remain.\<close>

fun wait_loop :: "nat \<Rightarrow> 'a machine_scheme \<Rightarrow> bool \<times> 'a machine_scheme" where
  "wait_loop 0 s = (False, s)"
| "wait_loop (Suc n) s =
     (let (status, s) = inb KEYBOARD_STATUS_PORT s
      in if status AND 0x02 \<noteq> 0 then (True, s) else wait_loop n s)"

definition keyboard_wait_input_clear :: "'a machine_scheme \<Rightarrow> bool \<times> 'a machine_scheme" where
  "keyboard_wait_input_clear s = wait_loop 100000 s"

text \<open>Waiting for the acknowledgement: None is the return from the middle of the loop.\<close>

fun ack_loop :: "nat \<Rightarrow> 'a machine_scheme \<Rightarrow> bool option \<times> 'a machine_scheme" where
  "ack_loop 0 s = (Some False, s)"
| "ack_loop (Suc n) s =
     (let (status, s) = inb KEYBOARD_STATUS_PORT s
      in if status AND 0x01 \<noteq> 0
         then let (status, s) = inb KEYBOARD_STATUS_PORT s
              in if status AND 0xFA \<noteq> 0 then (None, s) else (Some True, s)
         else ack_loop n s)"

definition keyboard_set_caps_lock_led :: "'a kbd_scheme \<Rightarrow> 'a kbd_scheme" where
  "keyboard_set_caps_lock_led s =
     (let (ready, s) = keyboard_wait_input_clear s
      in if \<not> ready then s
         else let s = outb KEYBOARD_DATA_PORT 0xED s; (ack, s) = ack_loop 100000 s
              in case ack of
                   None \<Rightarrow> s
                 | Some acknowledged \<Rightarrow>
                     if \<not> acknowledged then s
                     else let (ready, s) = keyboard_wait_input_clear s
                          in if \<not> ready then s
                             else outb KEYBOARD_DATA_PORT (if capsLockEnabled s then 0x04 else 0x00) s)"

definition keyboard_handler_extended :: "u8 \<Rightarrow> 'a vga_scheme \<Rightarrow> 'a vga_scheme" where
  "keyboard_handler_extended scancode s =
     (if scancode AND 0x80 \<noteq> 0 then s
      else if scancode = SCANCODE_UP then vga_scroll_up s
      else if scancode = SCANCODE_PAGE_UP then vga_page_up s
      else if scancode = SCANCODE_DOWN then vga_scroll_down s
      else if scancode = SCANCODE_PAGE_DOWN then vga_page_down s
      else s)"

definition keyboard_init :: "'a machine_scheme \<Rightarrow> 'a machine_scheme" where
  "keyboard_init s =
     (let (mask, s) = inb PIC1_DATA s; mask = mask AND NOT (push_bit 1 1) in outb PIC1_DATA mask s)"

definition keyboard_handler :: "'a kbd_scheme \<Rightarrow> 'a kbd_scheme option" where
  "keyboard_handler s =
     (let (scancode, s) = inb KEYBOARD_DATA_PORT s
      in if scancode = SCANCODE_EXTENDED then Some (pic_send_eoi 1 (s\<lparr>extendedScancode := True\<rparr>))
         else if extendedScancode s then
           Some (pic_send_eoi 1 (keyboard_handler_extended scancode (s\<lparr>extendedScancode := False\<rparr>)))
         else if scancode AND 0x80 \<noteq> 0 then
           let scancode = scancode AND 0x7F;
               s = (if scancode = SCANCODE_LEFT_SHIFT then s\<lparr>leftShiftPressed := False\<rparr> else s);
               s = (if scancode = SCANCODE_RIGHT_SHIFT then s\<lparr>rightShiftPressed := False\<rparr> else s)
           in Some (pic_send_eoi 1 s)
         else if scancode = SCANCODE_LEFT_SHIFT then Some (pic_send_eoi 1 (s\<lparr>leftShiftPressed := True\<rparr>))
         else if scancode = SCANCODE_RIGHT_SHIFT then Some (pic_send_eoi 1 (s\<lparr>rightShiftPressed := True\<rparr>))
         else if scancode = SCANCODE_CAPS_LOCK then
           Some (pic_send_eoi 1 (keyboard_set_caps_lock_led (s\<lparr>capsLockEnabled := \<not> capsLockEnabled s\<rparr>)))
         else let shiftPressed = leftShiftPressed s \<or> rightShiftPressed s
           in do { s \<leftarrow> (if unat scancode < KEYBOARD_SCANCODE_COUNT
                         then let c = (if shiftPressed then keyboardShiftMap ! unat scancode else keyboardMap ! unat scancode)
                              in if c \<noteq> CHR 0x00 then vga_putchar c s else Some s
                         else Some s);
                   Some (pic_send_eoi 1 s) })"

section \<open>Keys and what they mean\<close>

lemma keyboard_maps_length: "length keyboardMap = KEYBOARD_SCANCODE_COUNT" "length keyboardShiftMap = KEYBOARD_SCANCODE_COUNT"
  by (simp_all add: keyboardMap_def keyboardShiftMap_def KEYBOARD_SCANCODE_COUNT_def)

text \<open>The modifier keys as the driver sees them: E0 prefix pending, left shift, right shift, caps lock.\<close>

type_synonym modifiers = "bool \<times> bool \<times> bool \<times> bool"

definition modifiers :: "'a kbd_scheme \<Rightarrow> modifiers" where
  "modifiers s = (extendedScancode s, leftShiftPressed s, rightShiftPressed s, capsLockEnabled s)"

text \<open>Reference: a scan code changes the modifiers, and types a character or not. A prefixed code and the release of a
  key type nothing; caps lock is remembered but does not change what is typed.\<close>

fun next_modifiers :: "modifiers \<Rightarrow> nat \<Rightarrow> modifiers" where
  "next_modifiers (e, l, r, c) k =
     (if k = 0xE0 then (True, l, r, c)
      else if e then (False, l, r, c)
      else (False, (if k = 42 then True else if k = 128 + 42 then False else l),
             (if k = 54 then True else if k = 128 + 54 then False else r), (if k = 58 then \<not> c else c)))"

fun typed_char :: "modifiers \<Rightarrow> nat \<Rightarrow> char option" where
  "typed_char (e, l, r, c) k =
     (if e \<or> 128 \<le> k \<or> k = 42 \<or> k = 54 \<or> k = 58 then None
      else let ch = (if l \<or> r then keyboardShiftMap else keyboardMap) ! k
           in if ch = CHR 0x00 then None else Some ch)"

fun typed :: "modifiers \<Rightarrow> u8 list \<Rightarrow> string" where
  "typed m [] = []"
| "typed m (k # ks) = (case typed_char m (unat k) of None \<Rightarrow> [] | Some c \<Rightarrow> [c]) @ typed (next_modifiers m (unat k)) ks"

section \<open>Frames\<close>

text \<open>What the driver leaves alone: everything but the screen, the ports and its own variables.\<close>

definition kbd_rest :: "'a kbd_scheme \<Rightarrow> 'a kbd_scheme" where
  "kbd_rest s = (vga_rest s)\<lparr>in_count := 0, out_trace := [], extendedScancode := False, leftShiftPressed := False,
     rightShiftPressed := False, capsLockEnabled := False\<rparr>"

lemma kbd_rest_upd [simp]:
  "kbd_rest (s\<lparr>in_count := n\<rparr>) = kbd_rest s" "kbd_rest (s\<lparr>out_trace := t\<rparr>) = kbd_rest s"
  "kbd_rest (s\<lparr>extendedScancode := b\<rparr>) = kbd_rest s" "kbd_rest (s\<lparr>leftShiftPressed := b\<rparr>) = kbd_rest s"
  "kbd_rest (s\<lparr>rightShiftPressed := b\<rparr>) = kbd_rest s" "kbd_rest (s\<lparr>capsLockEnabled := b\<rparr>) = kbd_rest s"
  by (simp_all add: kbd_rest_def vga_rest_def)

lemma kbd_rest_vga: "vga_rest s = vga_rest t \<Longrightarrow> kbd_rest s = kbd_rest t"
  by (simp add: kbd_rest_def)

text \<open>Reading the status port only counts reads.\<close>

lemma wait_loop_state: "\<exists>n. snd (wait_loop k s) = s\<lparr>in_count := n\<rparr>"
proof (induction k arbitrary: s)
  case 0
  show ?case by (intro exI [of _ "in_count s"]) simp
next
  case (Suc k)
  let ?s = "s\<lparr>in_count := Suc (in_count s)\<rparr>"
  obtain n where "snd (wait_loop k ?s) = ?s\<lparr>in_count := n\<rparr>" using Suc by blast
  then show ?case by (auto simp: inb_def intro: exI [of _ n])
qed

lemma ack_loop_state: "\<exists>n. snd (ack_loop k s) = s\<lparr>in_count := n\<rparr>"
proof (induction k arbitrary: s)
  case 0
  show ?case by (intro exI [of _ "in_count s"]) simp
next
  case (Suc k)
  let ?s = "s\<lparr>in_count := Suc (in_count s)\<rparr>"
  obtain n where "snd (ack_loop k ?s) = ?s\<lparr>in_count := n\<rparr>" using Suc by blast
  then show ?case by (auto simp: inb_def intro: exI [of _ n])
qed

lemma ports_commute: "s\<lparr>out_trace := t, in_count := n\<rparr> = s\<lparr>in_count := n, out_trace := t\<rparr>"
  by simp

lemma led_state: "\<exists>n ws. keyboard_set_caps_lock_led s = s\<lparr>in_count := n, out_trace := out_trace s @ ws\<rparr> \<and> (\<forall>w \<in> set ws. fst w = 0x60)"
proof -
  obtain b1 s1 where w1: "keyboard_wait_input_clear s = (b1, s1)" by (cases "keyboard_wait_input_clear s")
  then obtain n1 where s1: "s1 = s\<lparr>in_count := n1\<rparr>" using wait_loop_state [of 100000 s] by (auto simp: keyboard_wait_input_clear_def)
  let ?s1 = "outb KEYBOARD_DATA_PORT 0xED s1"
  obtain b2 s2 where w2: "ack_loop 100000 ?s1 = (b2, s2)" by (cases "ack_loop 100000 ?s1")
  then obtain n2 where s2: "s2 = ?s1\<lparr>in_count := n2\<rparr>" using ack_loop_state [of 100000 ?s1] by auto
  obtain b3 s3 where w3: "keyboard_wait_input_clear s2 = (b3, s3)" by (cases "keyboard_wait_input_clear s2")
  then obtain n3 where s3: "s3 = s2\<lparr>in_count := n3\<rparr>" using wait_loop_state [of 100000 s2] by (auto simp: keyboard_wait_input_clear_def)
  have eq: "keyboard_set_caps_lock_led s = (if \<not> b1 then s1 else case b2 of None \<Rightarrow> s2
      | Some a \<Rightarrow> if \<not> a then s2 else if \<not> b3 then s3 else outb KEYBOARD_DATA_PORT (if capsLockEnabled s3 then 0x04 else 0x00) s3)"
    by (simp add: keyboard_set_caps_lock_led_def w1 w2 w3 Let_def split: option.split)
  define P where "P t \<longleftrightarrow> (\<exists>n ws. t = s\<lparr>in_count := n, out_trace := out_trace s @ ws\<rparr> \<and> (\<forall>w \<in> set ws. fst w = 0x60))" for t
  have k: "P (s\<lparr>in_count := m, out_trace := out_trace s @ vs\<rparr>)" if "\<forall>w \<in> set vs. fst w = 0x60" for m vs
    using that unfolding P_def by blast
  have "P s1" "P s2" "P s3" "P (outb KEYBOARD_DATA_PORT v s3)" for v
    using k [of "[]" n1] k [of "[(0x60, 0xED)]" n2] k [of "[(0x60, 0xED)]" n3] k [of "[(0x60, 0xED), (0x60, v)]" n3]
    by (simp_all add: s1 s2 s3 outb_def KEYBOARD_DATA_PORT_def ports_commute)
  then have "P (keyboard_set_caps_lock_led s)" unfolding eq by (simp split: option.split)
  then show ?thesis unfolding P_def .
qed

section \<open>The text of the terminal\<close>

text \<open>What the terminal holds, wherever the window stands: the lines, the cursor and the colour.\<close>

definition terminal_text :: "'a vga_scheme \<Rightarrow> (nat \<Rightarrow> nat \<Rightarrow> u16) \<times> nat \<times> nat \<times> u8" where
  "terminal_text s = (terminalBuffer s, cursorX s, cursorY s, vgaColor s)"

lemma terminal_text_upd [simp]:
  "terminal_text (vga_write_cell y x e s) = terminal_text s" "terminal_text (vga_follow_cursor s) = terminal_text s"
  "terminal_text (vga_flush s) = terminal_text s" "terminal_text (vga_render s) = terminal_text s"
  "terminal_text (s\<lparr>viewportY := v\<rparr>) = terminal_text s" "terminal_text (s\<lparr>eflags := f\<rparr>) = terminal_text s"
  "terminal_text (s\<lparr>in_count := n\<rparr>) = terminal_text s" "terminal_text (s\<lparr>out_trace := w\<rparr>) = terminal_text s"
  by (simp_all add: terminal_text_def vga_write_cell_def vga_follow_cursor_def vga_flush_def)

lemma put_cell_text:
  "terminal_text s = terminal_text t \<Longrightarrow>
   rel_option (\<lambda>s t. terminal_text s = terminal_text t) (put_cell e s) (put_cell e t)"
  by (simp add: put_cell_def) (simp add: terminal_text_def)

lemma putchar_raw_text:
  fixes s :: "'a vga_scheme" and t :: "'b vga_scheme"
  assumes "terminal_text s = terminal_text t"
  shows "rel_option (\<lambda>s t. terminal_text s = terminal_text t) (vga_putchar_raw c s) (vga_putchar_raw c t)"
proof -
  have scroll: "terminal_text (scroll_buffer s) = terminal_text (scroll_buffer t)"
    if "terminal_text s = terminal_text t" for s :: "'a vga_scheme" and t :: "'b vga_scheme"
    using that by (simp add: terminal_text_def scroll_buffer_def)
  have erase: "rel_option (\<lambda>s t. terminal_text s = terminal_text t)
      (put_cell VGA_CLEAR (s\<lparr>cursorX := cursorX s - 1\<rparr>)) (put_cell VGA_CLEAR (t\<lparr>cursorX := cursorX t - 1\<rparr>))"
    by (rule put_cell_text) (use assms in \<open>simp add: terminal_text_def\<close>)
  have "rel_option (\<lambda>s t. terminal_text s = terminal_text t) (putchar_switch c s) (putchar_switch c t)"
    using assms erase put_cell_text [OF assms, of "of_char c OR push_bit 8 (ucast (vgaColor s))"]
    by (auto simp: putchar_switch_def Let_def terminal_text_def rel_option_iff split: option.splits Option.bind_splits)
  then show ?thesis
    by (auto simp: vga_putchar_raw_def option.rel_map elim!: option.rel_mono_strong intro: scroll)
qed

lemma put_all_text:
  "terminal_text s = terminal_text t \<Longrightarrow>
   rel_option (\<lambda>s t. terminal_text s = terminal_text t) (put_all vga_putchar_raw cs s) (put_all vga_putchar_raw cs t)"
proof (induction cs arbitrary: s t)
  case (Cons c cs)
  with putchar_raw_text [OF Cons.prems, of c] show ?case
    by (cases "vga_putchar_raw c s"; cases "vga_putchar_raw c t") auto
qed simp

lemma vga_write_text:
  assumes "vga_inv s" "vga_inv t" "terminal_text s = terminal_text t" "vga_write cs s = Some s'" "vga_write cs t = Some t'"
  shows "terminal_text s' = terminal_text t'"
proof -
  have "rel_option (\<lambda>s t. terminal_text s = terminal_text t) (put_all vga_putchar_raw cs (s\<lparr>eflags := eflags s AND NOT IF_BIT\<rparr>))
      (put_all vga_putchar_raw cs (t\<lparr>eflags := eflags t AND NOT IF_BIT\<rparr>))"
    by (rule put_all_text) (simp add: assms(3))
  with assms(4,5) show ?thesis
    by (auto simp: vga_write_def irq_save_def irq_restore_def rel_option_iff split: Option.bind_splits)
qed

lemma vga_write_Nil_text: "vga_write [] s = Some t \<Longrightarrow> terminal_text t = terminal_text s"
  by (auto simp: vga_write_def irq_save_def irq_restore_def)

text \<open>Two writes in a row leave the text of one write.\<close>

lemma vga_write_append_text:
  assumes "vga_inv s" "vga_write xs s = Some s1" "vga_write ys s1 = Some s2"
  shows "\<exists>t. vga_write (xs @ ys) s = Some t \<and> terminal_text t = terminal_text s2"
proof -
  let ?off = "\<lambda>s. s\<lparr>eflags := eflags s AND NOT IF_BIT\<rparr>"
  obtain u where u: "put_all vga_putchar_raw xs (?off s) = Some u" "s1 = (vga_flush u)\<lparr>eflags := eflags s\<rparr>"
    using assms(2) by (auto simp: vga_write_def irq_save_def irq_restore_def split: Option.bind_splits)
  obtain w where w: "put_all vga_putchar_raw ys (?off s1) = Some w" "s2 = (vga_flush w)\<lparr>eflags := eflags s1\<rparr>"
    using assms(3) by (auto simp: vga_write_def irq_save_def irq_restore_def split: Option.bind_splits)
  have "terminal_text u = terminal_text (?off s1)" by (simp add: u(2))
  from put_all_text [OF this, of ys] w obtain v where "put_all vga_putchar_raw ys u = Some v" "terminal_text v = terminal_text w"
    by (auto simp: rel_option_iff split: option.splits)
  then show ?thesis
    using u w by (auto simp: vga_write_def irq_save_def irq_restore_def put_all_append)
qed

section \<open>The interrupt handler\<close>

lemma vga_inv_ports [simp]:
  "vga_inv (s\<lparr>in_count := n\<rparr>) = vga_inv s" "vga_inv (s\<lparr>out_trace := w\<rparr>) = vga_inv s"
  "vga_inv (t\<lparr>extendedScancode := b\<rparr>) = vga_inv t" "vga_inv (t\<lparr>leftShiftPressed := b\<rparr>) = vga_inv t"
  "vga_inv (t\<lparr>rightShiftPressed := b\<rparr>) = vga_inv t" "vga_inv (t\<lparr>capsLockEnabled := b\<rparr>) = vga_inv t"
  by (simp_all add: vga_inv_def screen_shows_window_def max_viewport_def)

lemma terminal_text_flags [simp]:
  "terminal_text (t\<lparr>extendedScancode := b\<rparr>) = terminal_text t" "terminal_text (t\<lparr>leftShiftPressed := b\<rparr>) = terminal_text t"
  "terminal_text (t\<lparr>rightShiftPressed := b\<rparr>) = terminal_text t" "terminal_text (t\<lparr>capsLockEnabled := b\<rparr>) = terminal_text t"
  by (simp_all add: terminal_text_def)

lemma modifiers_ports [simp]: "modifiers (s\<lparr>in_count := n\<rparr>) = modifiers s" "modifiers (s\<lparr>out_trace := w\<rparr>) = modifiers s"
  by (simp_all add: modifiers_def)

lemma modifiers_rest: "vga_rest s = vga_rest t \<Longrightarrow> modifiers s = modifiers t"
proof -
  assume eq: "vga_rest s = vga_rest t"
  have "modifiers (vga_rest u) = modifiers u" for u :: "'a kbd_scheme" by (simp add: modifiers_def vga_rest_def)
  from this [of s] this [of t] show ?thesis by (simp add: eq)
qed

text \<open>The scan code the next interrupt will read.\<close>

definition next_code :: "'a machine_scheme \<Rightarrow> u8" where
  "next_code s = port_in s (in_count s) KEYBOARD_DATA_PORT"

text \<open>What one interrupt does to the state: the keyboard may have been spoken to, then the end of interrupt is sent.\<close>

definition served :: "'a kbd_scheme \<Rightarrow> 'a kbd_scheme \<Rightarrow> bool" where
  "served s s' \<longleftrightarrow> vga_inv s' \<and> kbd_rest s' = kbd_rest s \<and>
     (\<exists>ws. out_trace s' = out_trace s @ ws @ [(0x20, 0x20)] \<and> (\<forall>w \<in> set ws. fst w = 0x60)) \<and>
     (next_code s \<noteq> 58 \<longrightarrow> in_count s' = Suc (in_count s))"

lemma served_eoi:
  assumes "vga_inv u" "kbd_rest u = kbd_rest s" "out_trace u = out_trace s @ ws" "\<forall>w \<in> set ws. fst w = 0x60"
    "next_code s \<noteq> 58 \<longrightarrow> in_count u = Suc (in_count s)"
  shows "served s (pic_send_eoi 1 u)"
  using assms by (auto simp: served_def pic_send_eoi_def outb_def pic_ports word_le_nat_alt)

lemma eoi_text [simp]: "terminal_text (pic_send_eoi i s) = terminal_text s" "modifiers (pic_send_eoi i t) = modifiers t"
  by (simp_all add: pic_send_eoi_def Let_def outb_def)

lemma extended_key:
  assumes "vga_inv s"
  shows "vga_inv (keyboard_handler_extended k s)" "vga_rest (keyboard_handler_extended k s) = vga_rest s"
    "terminal_text (keyboard_handler_extended k s) = terminal_text s"
  using vga_scroll_shown [OF assms] assms
  by (simp_all add: keyboard_handler_extended_def)
    (simp_all add: vga_scroll_up_def vga_scroll_down_def vga_page_up_def vga_page_down_def Let_def)

lemma release_code: "k AND 0x80 \<noteq> 0 \<longleftrightarrow> 128 \<le> unat k" for k :: u8
proof -
  have "k AND 0x80 \<noteq> 0 \<longleftrightarrow> bit k 7" using and_one_bit_nonzero [of k 7] by simp
  also have "\<dots> \<longleftrightarrow> odd (unat k div 128)"
    using bit_unsigned_iff [of k 7, where 'a = nat] by (simp add: bit_iff_odd [of "unat k"])
  also have "\<dots> \<longleftrightarrow> 128 \<le> unat k"
  proof (cases "128 \<le> unat k")
    case True
    then have "unat k div 128 = 1" using unat_lt [of k] by (intro div_nat_eqI) simp_all
    with True show ?thesis by simp
  qed simp
  finally show ?thesis .
qed

lemma key_code: "unat (k AND 0x7F) = unat k mod 128" for k :: u8
  using unat_and_mask [of k 7] by (simp add: mask_eq_exp_minus_1)

lemmas scan_codes = SCANCODE_EXTENDED_def SCANCODE_LEFT_SHIFT_def SCANCODE_RIGHT_SHIFT_def SCANCODE_CAPS_LOCK_def
  KEYBOARD_SCANCODE_COUNT_def

lemma inb_code: "inb KEYBOARD_DATA_PORT s = (next_code s, s\<lparr>in_count := Suc (in_count s)\<rparr>)"
  by (simp add: inb_def next_code_def)

text \<open>A key that types nothing: the state just before the end of interrupt.\<close>

definition silent_key :: "'a kbd_scheme \<Rightarrow> 'a kbd_scheme \<Rightarrow> bool" where
  "silent_key s u \<longleftrightarrow> vga_inv u \<and> kbd_rest u = kbd_rest s \<and> (\<exists>ws. out_trace u = out_trace s @ ws \<and> (\<forall>w \<in> set ws. fst w = 0x60)) \<and>
     modifiers u = next_modifiers (modifiers s) (unat (next_code s)) \<and> terminal_text u = terminal_text s \<and>
     (next_code s \<noteq> 58 \<longrightarrow> in_count u = Suc (in_count s))"

definition silent :: "'a kbd_scheme \<Rightarrow> bool" where
  "silent s \<longleftrightarrow> (\<exists>u. keyboard_handler s = Some (pic_send_eoi 1 u) \<and> silent_key s u)"

lemma silentI: "keyboard_handler s = Some (pic_send_eoi 1 u) \<Longrightarrow> silent_key s u \<Longrightarrow> silent s"
  by (auto simp: silent_def)

lemma quiet_key:
  "vga_inv u \<Longrightarrow> kbd_rest u = kbd_rest s \<Longrightarrow> out_trace u = out_trace s \<Longrightarrow>
   modifiers u = next_modifiers (modifiers s) (unat (next_code s)) \<Longrightarrow> terminal_text u = terminal_text s \<Longrightarrow>
   in_count u = Suc (in_count s) \<Longrightarrow> silent_key s u"
  by (simp add: silent_key_def)

lemma handler_prefix:
  assumes "vga_inv s" "next_code s = 0xE0"
  shows "silent s"
proof (rule silentI)
  show "keyboard_handler s = Some (pic_send_eoi 1 (s\<lparr>in_count := Suc (in_count s), extendedScancode := True\<rparr>))"
    using assms(2) by (simp add: keyboard_handler_def inb_code scan_codes)
qed (use assms in \<open>auto intro!: quiet_key simp: modifiers_def\<close>)

lemma handler_extended:
  assumes "vga_inv s" "next_code s \<noteq> 0xE0" "extendedScancode s"
  shows "silent s"
proof -
  let ?t = "s\<lparr>in_count := Suc (in_count s), extendedScancode := False\<rparr>"
  let ?u = "keyboard_handler_extended (next_code s) ?t"
  have ext: "vga_rest ?u = vga_rest ?t" "vga_inv ?u" "terminal_text ?u = terminal_text ?t"
    using extended_key [of ?t "next_code s"] assms(1) by simp_all
  have "silent_key s ?u"
    using assms ext(2,3) kbd_rest_vga [OF ext(1)] modifiers_rest [OF ext(1)] arg_cong [OF ext(1), of out_trace] arg_cong [OF ext(1), of in_count]
    by (intro quiet_key) (simp_all add: vga_rest_sel modifiers_def word_unat_eq_iff)
  moreover have "keyboard_handler s = Some (pic_send_eoi 1 ?u)"
    using assms(2,3) by (simp add: keyboard_handler_def inb_code scan_codes)
  ultimately show ?thesis by (rule silentI [rotated])
qed

lemma handler_release:
  assumes "vga_inv s" "next_code s \<noteq> 0xE0" "\<not> extendedScancode s" "128 \<le> unat (next_code s)"
  shows "silent s"
proof -
  let ?u = "(\<lambda>t. if next_code s AND 0x7F = 54 then t\<lparr>rightShiftPressed := False\<rparr> else t)
    ((\<lambda>t. if next_code s AND 0x7F = 42 then t\<lparr>leftShiftPressed := False\<rparr> else t) (s\<lparr>in_count := Suc (in_count s)\<rparr>))"
  have m: "unat (next_code s) mod 128 = unat (next_code s) - 128"
    using assms(4) unat_lt [of "next_code s"] by (subst le_mod_geq) simp_all
  have "keyboard_handler s = Some (pic_send_eoi 1 ?u)"
    using assms(2-4) release_code [of "next_code s"] by (simp add: keyboard_handler_def inb_code scan_codes)
  moreover have "silent_key s ?u"
    using assms by (intro quiet_key) (auto simp: modifiers_def key_code word_unat_eq_iff m)
  ultimately show ?thesis by (rule silentI)
qed

lemma handler_modifier:
  assumes "vga_inv s" "\<not> extendedScancode s" "next_code s \<in> {42, 54, 58}"
  shows "silent s"
proof -
  let ?s = "s\<lparr>in_count := Suc (in_count s)\<rparr>"
  let ?t = "?s\<lparr>capsLockEnabled := \<not> capsLockEnabled s\<rparr>"
  obtain n ws where led: "keyboard_set_caps_lock_led ?t = ?t\<lparr>in_count := n, out_trace := out_trace ?t @ ws\<rparr>" "\<forall>w \<in> set ws. fst w = 0x60"
    using led_state [of ?t] by blast
  have "keyboard_handler s = Some (pic_send_eoi 1 (?s\<lparr>leftShiftPressed := True\<rparr>))"
    "silent_key s (?s\<lparr>leftShiftPressed := True\<rparr>)" if "next_code s = 42"
    using that assms(1,2) by (simp_all add: keyboard_handler_def inb_code scan_codes silent_key_def modifiers_def)
  moreover have "keyboard_handler s = Some (pic_send_eoi 1 (?s\<lparr>rightShiftPressed := True\<rparr>))"
    "silent_key s (?s\<lparr>rightShiftPressed := True\<rparr>)" if "next_code s = 54"
    using that assms(1,2) by (simp_all add: keyboard_handler_def inb_code scan_codes silent_key_def modifiers_def)
  moreover have "keyboard_handler s = Some (pic_send_eoi 1 (keyboard_set_caps_lock_led ?t))" if "next_code s = 58"
    using that assms(2) by (simp add: keyboard_handler_def inb_code scan_codes)
  moreover have "silent_key s (keyboard_set_caps_lock_led ?t)" if "next_code s = 58"
    unfolding led(1) using that led(2) assms(1,2) by (simp add: silent_key_def modifiers_def)
  ultimately show ?thesis using assms(3) silentI by blast
qed

lemma plain_key_char:
  fixes k :: u8
  assumes "\<not> extendedScancode s" "unat k < 128" "k \<notin> {42, 54, 58}"
  shows "typed_char (modifiers s) (unat k) =
    (let c = (if leftShiftPressed s \<or> rightShiftPressed s then keyboardShiftMap ! unat k else keyboardMap ! unat k)
     in if c = CHR 0x00 then None else Some c)" "next_modifiers (modifiers s) (unat k) = modifiers s"
  using assms by (auto simp: modifiers_def word_unat_eq_iff Let_def)

lemma handler_silent:
  assumes "vga_inv s" "typed_char (modifiers s) (unat (next_code s)) = None"
  shows "silent s"
proof -
  consider "next_code s = 0xE0" | "next_code s \<noteq> 0xE0" "extendedScancode s"
    | "next_code s \<noteq> 0xE0" "\<not> extendedScancode s" "128 \<le> unat (next_code s)"
    | "\<not> extendedScancode s" "next_code s \<in> {42, 54, 58}"
    | (plain) "\<not> extendedScancode s" "unat (next_code s) < 128" "next_code s \<notin> {42, 54, 58}" by fastforce
  then show ?thesis
  proof cases
    case plain
    have "next_code s \<noteq> 0xE0" using plain(2) by auto
    then have "keyboard_handler s = Some (pic_send_eoi 1 (s\<lparr>in_count := Suc (in_count s)\<rparr>))"
      using plain assms(2) release_code [of "next_code s"]
      by (auto simp: keyboard_handler_def inb_code scan_codes plain_key_char Let_def split: if_splits)
    moreover have "silent_key s (s\<lparr>in_count := Suc (in_count s)\<rparr>)"
      using assms(1) plain by (intro quiet_key) (simp_all add: plain_key_char)
    ultimately show ?thesis by (rule silentI)
  qed (use assms(1) handler_prefix handler_extended handler_release handler_modifier in blast)+
qed

text \<open>One interrupt types at most one character.\<close>

abbreviation key_text :: "'a kbd_scheme \<Rightarrow> string" where
  "key_text s \<equiv> case typed_char (modifiers s) (unat (next_code s)) of None \<Rightarrow> [] | Some c \<Rightarrow> [c]"

lemma keyboard_handler_spec:
  assumes "vga_inv s"
  shows "\<exists>s' t. keyboard_handler s = Some s' \<and> served s s' \<and> modifiers s' = next_modifiers (modifiers s) (unat (next_code s)) \<and>
    vga_write (key_text s) s = Some t \<and> terminal_text s' = terminal_text t"
proof (cases "typed_char (modifiers s) (unat (next_code s))")
  case None
  then obtain u where u: "keyboard_handler s = Some (pic_send_eoi 1 u)" "silent_key s u"
    using handler_silent [OF assms] by (auto simp: silent_def)
  obtain t where t: "vga_write [] s = Some t" using vga_write_shown [OF assms] by blast
  show ?thesis
    using u t None vga_write_Nil_text [OF t] by (auto simp: silent_key_def intro: served_eoi)
next
  case (Some c)
  let ?s = "s\<lparr>in_count := Suc (in_count s)\<rparr>"
  have plain: "next_code s \<noteq> 0xE0" "\<not> extendedScancode s" "unat (next_code s) < 128" "next_code s \<notin> {42, 54, 58}"
    using Some by (auto simp: modifiers_def split: if_splits)
  obtain t where t: "vga_write [c] s = Some t" using vga_write_shown [OF assms] by blast
  obtain u where u: "vga_write [c] ?s = Some u" "vga_shown u" "vga_rest u = vga_rest ?s"
    using vga_write_shown [of ?s "[c]"] assms by auto
  have "terminal_text u = terminal_text t"
    by (rule vga_write_text [OF _ _ _ u(1) t]) (use assms in simp_all)
  moreover have "keyboard_handler s = Some (pic_send_eoi 1 u)"
    using plain Some u(1) release_code [of "next_code s"]
    by (auto simp: keyboard_handler_def inb_code scan_codes plain_key_char Let_def vga_putchar_eq_write split: if_splits)
  moreover have "served s (pic_send_eoi 1 u)"
    by (rule served_eoi [where ws = "[]"]) (use u(2) kbd_rest_vga [OF u(3)] arg_cong [OF u(3), of out_trace] arg_cong [OF u(3), of in_count] in
      \<open>simp_all add: vga_rest_sel vga_shown_def\<close>)
  ultimately show ?thesis
    using t Some plain plain_key_char(2) [OF plain(2-4)] modifiers_rest [OF u(3)] by simp
qed

text \<open>A run of keyboard interrupts, with the scan codes they read.\<close>

fun handle_keys :: "nat \<Rightarrow> 'a kbd_scheme \<Rightarrow> (u8 list \<times> 'a kbd_scheme) option" where
  "handle_keys 0 s = Some ([], s)"
| "handle_keys (Suc n) s =
     do { s' \<leftarrow> keyboard_handler s; (ks, s'') \<leftarrow> handle_keys n s'; Some (next_code s # ks, s'') }"

lemma served_eois:
  assumes "served s s'"
  shows "pic_state PIC1 c s' = (pic_state PIC1 c s)\<lparr>eois := Suc (eois (pic_state PIC1 c s))\<rparr>"
proof -
  obtain ws where ws: "out_trace s' = out_trace s @ ws @ [(0x20, 0x20)]" "\<forall>w \<in> set ws. fst w = 0x60"
    using assms by (auto simp: served_def)
  have "fold (pic_write PIC1) ws d = d" for d
    using ws(2) by (induction ws arbitrary: d) (auto simp: pic_write_def PIC1_def)
  then show ?thesis by (simp add: pic_state_def ws(1) pic_write_def PIC1_def)
qed

lemma handle_keys_spec:
  assumes "vga_inv s"
  shows "\<exists>ks s' t. handle_keys n s = Some (ks, s') \<and> length ks = n \<and> vga_inv s' \<and> kbd_rest s' = kbd_rest s \<and>
    vga_write (typed (modifiers s) ks) s = Some t \<and> terminal_text s' = terminal_text t \<and>
    pic_state PIC1 c s' = (pic_state PIC1 c s)\<lparr>eois := eois (pic_state PIC1 c s) + n\<rparr>"
  using assms
proof (induction n arbitrary: s)
  case 0
  obtain t where t: "vga_write [] s = Some t" using vga_write_shown [OF 0] by blast
  with 0 vga_write_Nil_text [OF t] show ?case by simp
next
  case (Suc n)
  obtain s1 t1 where s1: "keyboard_handler s = Some s1" "served s s1" "modifiers s1 = next_modifiers (modifiers s) (unat (next_code s))"
    "vga_write (key_text s) s = Some t1" "terminal_text s1 = terminal_text t1"
    using keyboard_handler_spec [OF Suc.prems] by blast
  have inv: "vga_inv s1" "vga_inv t1"
    using s1(2) s1(4) vga_write_shown [OF Suc.prems, of "key_text s"] by (auto simp: served_def vga_shown_def)
  obtain ks s' t where s': "handle_keys n s1 = Some (ks, s')" "length ks = n" "vga_inv s'" "kbd_rest s' = kbd_rest s1"
    "vga_write (typed (modifiers s1) ks) s1 = Some t" "terminal_text s' = terminal_text t"
    "pic_state PIC1 c s' = (pic_state PIC1 c s1)\<lparr>eois := eois (pic_state PIC1 c s1) + n\<rparr>"
    using Suc.IH [OF inv(1)] by blast
  obtain t2 where t2: "vga_write (typed (modifiers s1) ks) t1 = Some t2" using vga_write_shown [OF inv(2)] by blast
  obtain w where w: "vga_write (key_text s @ typed (modifiers s1) ks) s = Some w" "terminal_text w = terminal_text t2"
    using vga_write_append_text [OF Suc.prems s1(4) t2] by blast
  have "terminal_text t = terminal_text t2" by (rule vga_write_text [OF inv s1(5) s'(5) t2])
  then show ?case
    using s1 s' w served_eois [OF s1(2), of c] by (simp add: served_def)
qed

text \<open>Only the caps lock key makes the handler read more than one byte.\<close>

lemma handle_keys_codes:
  assumes "vga_inv s" "handle_keys n s = Some (ks, s')" "\<forall>i < n. port_in s (in_count s + i) KEYBOARD_DATA_PORT \<noteq> 58"
  shows "ks = map (\<lambda>i. port_in s (in_count s + i) KEYBOARD_DATA_PORT) [0..<n]"
  using assms
proof (induction n arbitrary: s ks)
  case (Suc n)
  obtain s1 where s1: "keyboard_handler s = Some s1" "served s s1"
    using keyboard_handler_spec [OF Suc.prems(1)] by blast
  then obtain ks1 where ks: "handle_keys n s1 = Some (ks1, s')" "ks = next_code s # ks1"
    using Suc.prems(2) by (auto split: Option.bind_splits)
  have p: "port_in (kbd_rest t) = port_in t" for t :: "'a kbd_scheme" by (simp add: kbd_rest_def vga_rest_def)
  have "next_code s \<noteq> 58" using Suc.prems(3) [rule_format, of 0] by (simp add: next_code_def)
  then have "port_in s1 = port_in s" "in_count s1 = Suc (in_count s)" "vga_inv s1"
    using s1(2) p [of s] p [of s1] by (simp_all add: served_def)
  moreover have "\<forall>i < n. port_in s (Suc (in_count s) + i) KEYBOARD_DATA_PORT \<noteq> 58"
    using Suc.prems(3) by (metis Suc_less_eq add_Suc add_Suc_right)
  ultimately show ?case
    using Suc.IH [of s1 ks1] ks
    by (simp add: next_code_def upt_conv_Cons flip: map_Suc_upt del: upt_Suc)
qed simp

section \<open>Properties\<close>

text \<open>The driver's variables as the kernel image loads them, and a keyboard with the keys shift, H, shift up, I.\<close>

definition kbd_loaded :: kbd where
  "kbd_loaded = timer.extend (sched.extend sched_loaded (timer.fields 0)) (kbd.fields False False False False)"

definition kbd_typing :: kbd where
  "kbd_typing = vga_init (kbd_loaded\<lparr>vgaColor := 15,
     port_in := (\<lambda>n _. if n = 0 then 42 else if n = 1 then 35 else if n = 2 then 0xAA else 23)\<rparr>)"

lemma kbd_typing: "vga_inv kbd_typing" "modifiers kbd_typing = (False, False, False, False)" "in_count kbd_typing = 0"
  "port_in kbd_typing = (\<lambda>n _. if n = 0 then 42 else if n = 1 then 35 else if n = 2 then 0xAA else 23)"
  "cursorX kbd_typing = 0" "cursorY kbd_typing = 0" "vgaColor kbd_typing = 15"
  by (simp_all add: kbd_typing_def vga_init_def vga_clear_shown)
    (simp_all add: vga_clear_def modifiers_def kbd_loaded_def timer.defs sched.defs kbd.defs sched_loaded_def pg.defs pg_loaded_def)



end
