(* ===== verification/Interrupts.thy ===== *)
theory Interrupts
  imports Keyboard
begin

text \<open>
  \<^verbatim>\<open>arch/x86/idt.c\<close>, \<^verbatim>\<open>idt.h\<close> and \<^verbatim>\<open>isr.asm\<close>: the descriptor table, the stubs that save and restore the registers, and the
  handler that dispatches on the vector. An interrupt is modelled from the processor's reaction (look up the gate,
  push flags, code segment, instruction pointer and possibly an error code, clear the interrupt flag) through the
  stub and the C handler to the \<^verbatim>\<open>iretd\<close> that resumes a task. The processor's own part is \<open>deliver\<close>, \<open>pushes_error_code\<close> and
  \<open>iretd\<close>, after the Intel manual, for interrupts that do not change the privilege level.

  The handler returns the address of a register frame; what the stub loads from there is the context of the task
  that continues. The second half shows that this is a correct context switch.
\<close>

section \<open>The descriptor table\<close>

record idt_entry =
  offset_low :: u16
  selector :: u16
  zero :: u8
  type_attr :: u8
  offset_high :: u16

record idt_ptr =
  limit :: u16
  base :: u32

definition IDT_ENTRIES :: nat where "IDT_ENTRIES = 256"

text \<open>The addresses of the table, of the stubs and of the instruction behind the call in \<^verbatim>\<open>isr_common\<close> are the linker's; \<open>idtr\<close> is
  the processor's register.\<close>

record intr = kbd +
  idt :: "idt_entry list"
  idtp :: idt_ptr
  idtr :: idt_ptr
  idt_address :: u32
  isr_address :: "nat \<Rightarrow> u32"
  isr_return_address :: u32

definition idt_set_gate :: "u8 \<Rightarrow> u32 \<Rightarrow> 'a intr_scheme \<Rightarrow> 'a intr_scheme" where
  "idt_set_gate n handler s =
     s\<lparr>idt := (idt s)[unat n := \<lparr>offset_low = ucast (handler AND 0xFFFF), selector = 0x08, zero = 0, type_attr = 0x8E,
       offset_high = ucast (drop_bit 16 handler AND 0xFFFF)\<rparr>]\<rparr>"

definition idt_clear :: "'a intr_scheme \<Rightarrow> 'a intr_scheme" where
  "idt_clear s = s\<lparr>idt := fold (\<lambda>i es. es[i := \<lparr>offset_low = 0, selector = 0, zero = 0, type_attr = 0, offset_high = 0\<rparr>])
     [0..<IDT_ENTRIES] (idt s)\<rparr>"

text \<open>The calls set the gates 0 to 47, 49 and 50, each to the stub of its own number.\<close>

definition idt_init :: "'a intr_scheme \<Rightarrow> 'a intr_scheme" where
  "idt_init s =
     (let s = idt_clear s;
          s = fold (\<lambda>n s. idt_set_gate (of_nat n) (isr_address s n) s) ([0..<48] @ [49, 50]) s;
          s = s\<lparr>idtp := \<lparr>limit = of_nat (IDT_ENTRIES * 8) - 1, base = idt_address s\<rparr>\<rparr>
      in s\<lparr>idtr := idtp s\<rparr>)"

section \<open>The handler\<close>

text \<open>The C view of the saved registers, read from memory.\<close>

record registers =
  r_edi :: u32
  r_esi :: u32
  r_ebp :: u32
  r_esp :: u32
  r_ebx :: u32
  r_edx :: u32
  r_ecx :: u32
  r_eax :: u32
  r_int_no :: u32
  r_err_code :: u32
  r_eip :: u32
  r_cs :: u32
  r_eflags :: u32
  r_useresp :: u32
  r_ss :: u32

definition registers_at :: "memory \<Rightarrow> u32 \<Rightarrow> registers" where
  "registers_at m p = \<lparr>r_edi = load32 m p, r_esi = load32 m (p + 4), r_ebp = load32 m (p + 8), r_esp = load32 m (p + 12),
     r_ebx = load32 m (p + 16), r_edx = load32 m (p + 20), r_ecx = load32 m (p + 24), r_eax = load32 m (p + 28),
     r_int_no = load32 m (p + 32), r_err_code = load32 m (p + 36), r_eip = load32 m (p + 40), r_cs = load32 m (p + 44),
     r_eflags = load32 m (p + 48), r_useresp = load32 m (p + 52), r_ss = load32 m (p + 56)\<rparr>"

text \<open>The cases of the \<^verbatim>\<open>switch\<close> that print a message.\<close>

definition exception_messages :: "(u32 \<times> string) list" where
  "exception_messages =
     [(0, ''EXCEPTION: DIVIDE BY ZERO''), (1, ''EXCEPTION: DEBUG''), (2, ''EXCEPTION: NMI''),
      (3, ''EXCEPTION: BREAKPOINT''), (4, ''EXCEPTION: OVERFLOW''), (5, ''EXCEPTION: BOUND RANGE EXCEEDED''),
      (6, ''EXCEPTION: INVALID OPCODE''), (7, ''EXCEPTION: DEVICE NOT AVAILABLE''), (8, ''EXCEPTION: DOUBLE FAULT''),
      (9, ''EXCEPTION: COPROCESSOR SEGMENT OVERRUN''), (10, ''EXCEPTION: INVALID TSS''),
      (11, ''EXCEPTION: SEGMENT NOT PRESENT''), (12, ''EXCEPTION: STACK-SEGMENT FAULT''),
      (13, ''EXCEPTION: GENERAL PROTECTION FAULT''), (14, ''EXCEPTION: PAGE FAULT''),
      (16, ''EXCEPTION: x87 FLOATING-POINT''), (17, ''EXCEPTION: ALIGNMENT CHECK''), (18, ''EXCEPTION: MACHINE CHECK''),
      (19, ''EXCEPTION: SIMD FLOATING-POINT''), (20, ''EXCEPTION: VIRTUALIZATION''),
      (21, ''EXCEPTION: CONTROL PROTECTION''), (28, ''EXCEPTION: HYPERVISOR INJECTION''),
      (29, ''EXCEPTION: VMM COMMUNICATION''), (30, ''EXCEPTION: SECURITY'')]"

definition interrupt_handler :: "u32 \<Rightarrow> 'a kbd_scheme \<Rightarrow> (u32 \<times> 'a kbd_scheme) option" where
  "interrupt_handler regs s =
     (let int_no = r_int_no (registers_at (mem s) regs)
      in case map_of exception_messages int_no of
           Some msg \<Rightarrow> do { s \<leftarrow> vga_write (msg @ [CHR 0x0A]) s; Some (regs, s) }
         | None \<Rightarrow>
             if int_no = 32 then let s = pit_tick s; s = pic_send_eoi 0 s in Some (scheduler_tick regs s)
             else if int_no = 33 then do { s \<leftarrow> keyboard_handler s; let s = pic_send_eoi 1 s; Some (regs, s) }
             else if int_no = 49 then Some (scheduler_schedule regs s)
             else if int_no = 50 then Some (scheduler_exit regs s)
             else if 34 \<le> int_no \<and> int_no \<le> 47 then Some (regs, pic_send_eoi (ucast (int_no - 32)) s)
             else do { s \<leftarrow> vga_write (''UNKNOWN INTERRUPT'' @ [CHR 0x0A]) s; Some (regs, s) })"

section \<open>The stubs\<close>

record cpu =
  EAX :: u32
  ECX :: u32
  EDX :: u32
  EBX :: u32
  ESP :: u32
  EBP :: u32
  ESI :: u32
  EDI :: u32
  EIP :: u32
  CS :: u32

definition push :: "u32 list \<Rightarrow> cpu \<times> 'a machine_scheme \<Rightarrow> cpu \<times> 'a machine_scheme" where
  "push vs = (\<lambda>(c, s). let (sp, m) = push_words (ESP c) vs (mem s) in (c\<lparr>ESP := sp\<rparr>, s\<lparr>mem := m\<rparr>))"

text \<open>The processor: the vectors with an error code, the gate it goes through, and the return.\<close>

definition pushes_error_code :: "nat \<Rightarrow> bool" where
  "pushes_error_code vec \<longleftrightarrow> vec \<in> {8, 10, 11, 12, 13, 14, 17, 21, 29, 30}"

definition gate_offset :: "idt_entry \<Rightarrow> u32" where
  "gate_offset e = ucast (offset_low e) OR push_bit 16 (ucast (offset_high e))"

definition deliver :: "nat \<Rightarrow> u32 \<Rightarrow> cpu \<Rightarrow> 'a intr_scheme \<Rightarrow> (cpu \<times> 'a intr_scheme) option" where
  "deliver vec err c s =
     (if base (idtr s) = idt_address s \<and> 8 * vec + 7 \<le> unat (limit (idtr s)) \<and> type_attr (idt s ! vec) = 0x8E
      then let e = idt s ! vec;
               (c, s) = push ([eflags s, CS c, EIP c] @ (if pushes_error_code vec then [err] else [])) (c, s)
           in Some (c\<lparr>EIP := gate_offset e, CS := ucast (selector e)\<rparr>, s\<lparr>eflags := eflags s AND NOT 0x34300\<rparr>)
      else None)"

definition iretd :: "cpu \<Rightarrow> 'a machine_scheme \<Rightarrow> (cpu \<times> 'a machine_scheme) option" where
  "iretd c s =
     (let m = mem s; sp = ESP c; code = load32 m (sp + 4)
      in if code AND 3 = 0
         then Some (c\<lparr>EIP := load32 m sp, CS := code, ESP := sp + 12\<rparr>, s\<lparr>eflags := load32 m (sp + 8)\<rparr>)
         else None)"

text \<open>Which stubs expect an error code, and what a stub pushes.\<close>

definition isr_error :: "nat \<Rightarrow> bool" where
  "isr_error vec \<longleftrightarrow> vec \<in> {8, 10, 11, 12, 13, 14, 17, 21, 30}"

definition isr_stub :: "nat \<Rightarrow> cpu \<times> 'a machine_scheme \<Rightarrow> cpu \<times> 'a machine_scheme" where
  "isr_stub vec cs = push ((if isr_error vec then [] else [0]) @ [of_nat vec]) cs"

definition pusha :: "cpu \<times> 'a machine_scheme \<Rightarrow> cpu \<times> 'a machine_scheme" where
  "pusha = (\<lambda>(c, s). push [EAX c, ECX c, EDX c, EBX c, ESP c, EBP c, ESI c, EDI c] (c, s))"

definition popa :: "cpu \<Rightarrow> memory \<Rightarrow> cpu" where
  "popa c m = (let sp = ESP c in c\<lparr>EDI := load32 m sp, ESI := load32 m (sp + 4), EBP := load32 m (sp + 8),
     EBX := load32 m (sp + 16), EDX := load32 m (sp + 20), ECX := load32 m (sp + 24), EAX := load32 m (sp + 28), ESP := sp + 32\<rparr>)"

definition isr_common :: "cpu \<times> 'a intr_scheme \<Rightarrow> (cpu \<times> 'a intr_scheme) option" where
  "isr_common cs =
     (let (c, s) = pusha cs; regs = ESP c; (c, s) = push [ESP c] (c, s); (c, s) = push [isr_return_address s] (c, s)
      in do { (eax, s) \<leftarrow> interrupt_handler regs s;
              let c = c\<lparr>ESP := eax\<rparr>;
              let c = popa c (mem s);
              let c = c\<lparr>ESP := ESP c + 8\<rparr>;
              iretd c s })"

text \<open>A whole interrupt: the gate leads to the stub with the same number.\<close>

definition interrupt :: "nat \<Rightarrow> u32 \<Rightarrow> cpu \<Rightarrow> 'a intr_scheme \<Rightarrow> (cpu \<times> 'a intr_scheme) option" where
  "interrupt vec err c s =
     do { (c, s) \<leftarrow> deliver vec err c s;
          if EIP c = isr_address s vec then isr_common (isr_stub vec (c, s)) else None }"

section \<open>Gates\<close>

lemma gate_roundtrip:
  "gate_offset \<lparr>offset_low = ucast (h AND 0xFFFF), selector = x, zero = y, type_attr = z, offset_high = ucast (drop_bit 16 h AND 0xFFFF)\<rparr> = h"
proof -
  have m: "(0xFFFF :: u32) = mask 16" by (simp add: mask_eq_exp_minus_1)
  show ?thesis
    by (rule bit_word_eqI) (auto simp: gate_offset_def m bit_simps)
qed

text \<open>The table the processor uses leads to the stubs.\<close>

definition gates :: "nat set" where
  "gates = {..<48} \<union> {49, 50}"

lemma gates_256: "n \<in> gates \<Longrightarrow> n < 256"
  by (auto simp: gates_def)

definition idt_ready :: "'a intr_scheme \<Rightarrow> bool" where
  "idt_ready s \<longleftrightarrow> base (idtr s) = idt_address s \<and> limit (idtr s) = 2047 \<and>
     (\<forall>n \<in> gates. type_attr (idt s ! n) = 0x8E \<and> selector (idt s ! n) = 8 \<and> gate_offset (idt s ! n) = isr_address s n)"

lemma set_gates:
  "set ns \<subseteq> {..<256} \<Longrightarrow> length (idt s) = 256 \<Longrightarrow>
   fold (\<lambda>n s. idt_set_gate (of_nat n) (isr_address s n) s) ns s =
   s\<lparr>idt := map (\<lambda>n. if n \<in> set ns then \<lparr>offset_low = ucast (isr_address s n AND 0xFFFF), selector = 0x08, zero = 0, type_attr = 0x8E,
       offset_high = ucast (drop_bit 16 (isr_address s n) AND 0xFFFF)\<rparr> else idt s ! n) [0..<256]\<rparr>"
proof (induction ns arbitrary: s)
  case Nil
  then have "map ((!) (idt s)) [0..<256] = idt s" using map_nth [of "idt s"] by simp
  then show ?case by simp
next
  case (Cons n ns)
  let ?g = "\<lambda>n. \<lparr>offset_low = ucast (isr_address s n AND 0xFFFF), selector = 0x08, zero = 0, type_attr = 0x8E,
       offset_high = ucast (drop_bit 16 (isr_address s n) AND 0xFFFF)\<rparr>"
  have n: "unat (of_nat n :: u8) = n" using Cons.prems by (intro unat_of_nat_small) auto
  then have g: "idt_set_gate (of_nat n) (isr_address s n) s = s\<lparr>idt := (idt s)[n := ?g n]\<rparr>" by (simp add: idt_set_gate_def)
  have "map (\<lambda>i. if i \<in> set ns then ?g i else (idt s)[n := ?g n] ! i) [0..<256] =
      map (\<lambda>i. if i \<in> set (n # ns) then ?g i else idt s ! i) [0..<256]"
    using Cons.prems by (auto simp: nth_list_update)
  then show ?case using Cons.IH [of "s\<lparr>idt := (idt s)[n := ?g n]\<rparr>"] Cons.prems by (simp add: g)
qed

lemma idt_clear_eq:
  assumes "length (idt s) = IDT_ENTRIES"
  shows "idt_clear s = s\<lparr>idt := replicate 256 \<lparr>offset_low = 0, selector = 0, zero = 0, type_attr = 0, offset_high = 0\<rparr>\<rparr>"
  using fold_update_all [of "idt s" 256] assms by (simp add: idt_clear_def IDT_ENTRIES_def)

lemma idt_init_spec:
  assumes "length (idt s) = IDT_ENTRIES"
  shows "\<exists>es. idt_init s = s\<lparr>idt := es, idtp := \<lparr>limit = 2047, base = idt_address s\<rparr>, idtr := \<lparr>limit = 2047, base = idt_address s\<rparr>\<rparr> \<and>
    length es = 256 \<and> idt_ready (idt_init s) \<and> (\<forall>n < 256. n \<notin> gates \<longrightarrow> type_attr (es ! n) = 0)"
proof -
  let ?c = "idt_clear s"
  define es where "es = map (\<lambda>n. if n \<in> set ([0..<48] @ [49, 50]) then \<lparr>offset_low = ucast (isr_address ?c n AND 0xFFFF),
      selector = 0x08, zero = 0, type_attr = 0x8E, offset_high = ucast (drop_bit 16 (isr_address ?c n) AND 0xFFFF)\<rparr> else idt ?c ! n) [0..<256]"
  have c: "?c = s\<lparr>idt := replicate 256 \<lparr>offset_low = 0, selector = 0, zero = 0, type_attr = 0, offset_high = 0\<rparr>\<rparr>"
    by (rule idt_clear_eq [OF assms])
  have "set ([0..<48] @ [49, 50]) \<subseteq> {..<256 :: nat}" "length (idt ?c) = 256" by (auto simp: c)
  from set_gates [OF this] have eq: "idt_init s = s\<lparr>idt := es, idtp := \<lparr>limit = 2047, base = idt_address s\<rparr>, idtr := \<lparr>limit = 2047, base = idt_address s\<rparr>\<rparr>"
    unfolding idt_init_def Let_def es_def [symmetric] by (simp add: c IDT_ENTRIES_def)
  have set: "n \<in> set ([0..<48] @ [49, 50]) \<longleftrightarrow> n \<in> gates" for n by (auto simp: gates_def)
  have "n \<in> gates \<Longrightarrow> es ! n = \<lparr>offset_low = ucast (isr_address s n AND 0xFFFF), selector = 0x08, zero = 0, type_attr = 0x8E,
      offset_high = ucast (drop_bit 16 (isr_address s n) AND 0xFFFF)\<rparr>" for n
    using gates_256 [of n] by (simp add: es_def set c del: set_append set_upt)
  then have "idt_ready (idt_init s)" by (simp add: eq idt_ready_def gate_roundtrip)
  moreover have "\<forall>n < 256. n \<notin> gates \<longrightarrow> type_attr (es ! n) = 0"
    by (auto simp: es_def set c simp del: set_append set_upt)
  ultimately show ?thesis using eq by (intro exI [of _ es]) (simp add: es_def)
qed

section \<open>Register frames\<close>

lemma push_words_append:
  "push_words sp (xs @ ys) m = (let (sp', m') = push_words sp xs m in push_words sp' ys m')"
  by (induction xs arbitrary: sp m) simp_all

lemma push_eq:
  "push vs (c, s) = (c\<lparr>ESP := fst (push_words (ESP c) vs (mem s))\<rparr>, s\<lparr>mem := snd (push_words (ESP c) vs (mem s))\<rparr>)"
  by (simp add: push_def case_prod_beta)

lemma push_words_sp: "fst (push_words sp vs m) = sp - 4 * of_nat (length vs)"
proof (induction vs arbitrary: sp m)
  case (Cons v vs)
  show ?case by (simp add: Cons.IH)
qed simp

text \<open>A register frame at \<open>p\<close>: what \<^verbatim>\<open>popa\<close>, \<^verbatim>\<open>add esp, 8\<close> and \<^verbatim>\<open>iretd\<close> load from there.\<close>

definition frame_at :: "nat \<Rightarrow> cpu \<Rightarrow> u32 \<Rightarrow> memory \<Rightarrow> bool" where
  "frame_at p c f m \<longleftrightarrow> ESP c = of_nat (p + 52) \<and>
     load32 m (of_nat p) = EDI c \<and> load32 m (of_nat (p + 4)) = ESI c \<and> load32 m (of_nat (p + 8)) = EBP c \<and>
     load32 m (of_nat (p + 16)) = EBX c \<and> load32 m (of_nat (p + 20)) = EDX c \<and> load32 m (of_nat (p + 24)) = ECX c \<and>
     load32 m (of_nat (p + 28)) = EAX c \<and> load32 m (of_nat (p + 40)) = EIP c \<and> load32 m (of_nat (p + 44)) = CS c \<and>
     load32 m (of_nat (p + 48)) = f"

text \<open>The end of \<^verbatim>\<open>isr_common\<close>, from \<^verbatim>\<open>mov esp, eax\<close> on.\<close>

definition resume :: "cpu \<Rightarrow> u32 \<Rightarrow> 'a machine_scheme \<Rightarrow> (cpu \<times> 'a machine_scheme) option" where
  "resume c p s = (let c = popa (c\<lparr>ESP := p\<rparr>) (mem s) in iretd (c\<lparr>ESP := ESP c + 8\<rparr>) s)"

lemma resume_frame:
  assumes "frame_at p c f (mem s)" "CS c AND 3 = 0"
  shows "resume c0 (of_nat p) s = Some (c, s\<lparr>eflags := f\<rparr>)"
  using assms by (cases c; cases c0) (simp add: resume_def popa_def iretd_def Let_def frame_at_def ac_simps)

lemma frame_changes:
  assumes "frame_at p c f m" "changes_only S m m'" "{p..<p + 52} \<inter> S = {}" "p + 52 \<le> 2 ^ 32"
  shows "frame_at p c f m'"
proof -
  have "load32 m' (of_nat (p + k)) = load32 m (of_nat (p + k))" if "k + 4 \<le> 52" for k
  proof (rule changes_only_load32 [OF assms(2)])
    have "{p + k..<p + k + 4} \<subseteq> {p..<p + 52}" using that by auto
    then show "{p + k..<p + k + 4} \<inter> S = {}" using assms(3) by blast
  qed (use assms(4) that in auto)
  from this [of 0] this [of 4] this [of 8] this [of 16] this [of 20] this [of 24] this [of 28] this [of 40] this [of 44] this [of 48]
  show ?thesis using assms(1) by (simp add: frame_at_def del: of_nat_add)
qed

section \<open>Entering and leaving\<close>

text \<open>The error codes on the stack: the processor's and the stub's.\<close>

definition error_codes :: "nat \<Rightarrow> u32 \<Rightarrow> u32 list" where
  "error_codes vec err = (if pushes_error_code vec then [err] else []) @ (if isr_error vec then [] else [0])"

text \<open>All that is pushed before the handler runs.\<close>

definition entry_words :: "nat \<Rightarrow> u32 \<Rightarrow> cpu \<Rightarrow> 'a intr_scheme \<Rightarrow> u32 list" where
  "entry_words vec err c s =
     (let es = error_codes vec err; k = of_nat (length es)
      in [eflags s, CS c, EIP c] @ es @ [of_nat vec, EAX c, ECX c, EDX c, EBX c, ESP c - 16 - 4 * k, EBP c, ESI c, EDI c,
          ESP c - 48 - 4 * k, isr_return_address s])"

lemma interrupt_entry:
  assumes "idt_ready s" "vec \<in> gates"
  shows "\<exists>c0. interrupt vec err c s =
    interrupt_handler (ESP c - 48 - 4 * of_nat (length (error_codes vec err)))
      (s\<lparr>eflags := eflags s AND NOT 0x34300, mem := snd (push_words (ESP c) (entry_words vec err c s) (mem s))\<rparr>) \<bind> (\<lambda>(p, s'). resume c0 p s')"
proof -
  have g: "base (idtr s) = idt_address s" "8 * vec + 7 \<le> unat (limit (idtr s))" "type_attr (idt s ! vec) = 0x8E"
    "gate_offset (idt s ! vec) = isr_address s vec"
    using assms(1,2) gates_256 [OF assms(2)] by (auto simp: idt_ready_def)
  show ?thesis
    by (rule exI [of _ "c\<lparr>EIP := isr_address s vec, CS := ucast (selector (idt s ! vec))\<rparr>"]) (simp add: interrupt_def deliver_def g push_eq isr_stub_def isr_common_def pusha_def Let_def
      entry_words_def error_codes_def push_words_append push_words_sp case_prod_beta resume_def)
qed

lemma entry_frame:
  assumes code: "pushes_error_code vec = isr_error vec" and sp: "ESP c = of_nat a" "60 \<le> a" "a \<le> 2 ^ 31"
    and m_def: "m = snd (push_words (ESP c) (entry_words vec err c s) (mem s))"
  shows "changes_only {a - 60..<a} (mem s) m" "frame_at (a - 52) c (eflags s) m" "r_int_no (registers_at m (of_nat (a - 52))) = of_nat vec"
proof -
  let ?e = "if isr_error vec then err else 0" and ?vs = "entry_words vec err c s"
  have vs: "?vs = [eflags s, CS c, EIP c, ?e, of_nat vec, EAX c, ECX c, EDX c, EBX c, ESP c - 20, EBP c, ESI c, EDI c, ESP c - 52, isr_return_address s]"
    using code by (simp add: entry_words_def error_codes_def Let_def)
  have len: "length ?vs = 15" by (simp add: vs)
  from push_words_spec [of ?vs a "mem s"] sp(2,3) have "changes_only {a - 60..<a} (mem s) m" and
    w: "\<And>j. j < 15 \<Longrightarrow> load32 m (of_nat (a - 4 * Suc j)) = ?vs ! j"
    unfolding len by (auto simp: m_def sp(1) len)
  then show "changes_only {a - 60..<a} (mem s) m" by blast
  have p: "load32 m (of_nat (a - 52 + 4 * k)) = ?vs ! (12 - k)" if "k \<le> 12" for k
  proof -
    have "a - 52 + 4 * k = a - 4 * Suc (12 - k)" using that sp(2) by simp
    then show ?thesis using w [of "12 - k"] by simp
  qed
  show "frame_at (a - 52) c (eflags s) m"
    using p [of 0] p [of 1] p [of 2] p [of 4] p [of 5] p [of 6] p [of 7] p [of 10] p [of 11] p [of 12] sp(1,2)
    by (simp add: frame_at_def vs del: of_nat_add)
  have "(of_nat (a - 52) :: u32) + 32 = of_nat (a - 52 + 4 * 8)" by simp
  then show "r_int_no (registers_at m (of_nat (a - 52))) = of_nat vec"
    using p [of 8] by (simp add: registers_at_def vs del: of_nat_add)
qed

text \<open>A processor whose next instruction may be interrupted: it runs in the kernel's code segment with room on its stack.\<close>

definition interruptible :: "cpu \<Rightarrow> bool" where
  "interruptible c \<longleftrightarrow> CS c = 8 \<and> 60 \<le> unat (ESP c) \<and> unat (ESP c) \<le> 2 ^ 31"

lemma interrupt_enters:
  assumes "idt_ready s" "vec \<in> gates" "vec \<noteq> 29" "interruptible c"
  shows "\<exists>c0 m. changes_only {unat (ESP c) - 60..<unat (ESP c)} (mem s) m \<and> frame_at (unat (ESP c) - 52) c (eflags s) m \<and>
    r_int_no (registers_at m (ESP c - 52)) = of_nat vec \<and>
    interrupt vec err c s = interrupt_handler (ESP c - 52) (s\<lparr>eflags := eflags s AND NOT 0x34300, mem := m\<rparr>) \<bind> (\<lambda>(p, s'). resume c0 p s')"
proof -
  have code: "pushes_error_code vec = isr_error vec" using assms(3) by (auto simp: pushes_error_code_def isr_error_def)
  have sp: "ESP c = of_nat (unat (ESP c))" "60 \<le> unat (ESP c)" "unat (ESP c) \<le> 2 ^ 31" using assms(4) by (simp_all add: interruptible_def)
  have "ESP c - 52 = of_nat (unat (ESP c) - 52)" using sp(2) by (simp add: of_nat_diff)
  moreover have "ESP c - 48 - 4 * of_nat (length (error_codes vec err)) = ESP c - 52"
    using code by (simp add: error_codes_def)
  ultimately show ?thesis
    using interrupt_entry [OF assms(1,2), of err c] entry_frame [OF code sp refl, where s = s and err = err] by metis
qed

section \<open>Interrupts that return to the interrupted task\<close>

lemma kbd_rest_eoi [simp]: "kbd_rest (pic_send_eoi i s) = kbd_rest s" "vga_inv (pic_send_eoi i t) = vga_inv t"
  by (simp_all add: pic_send_eoi_def Let_def outb_def)

lemma interrupt_handler_keeps:
  assumes "vga_inv s" "r_int_no (registers_at (mem s) regs) = n" "n \<notin> {32, 49, 50}"
  shows "\<exists>s'. interrupt_handler regs s = Some (regs, s') \<and> vga_inv s' \<and> kbd_rest s' = kbd_rest s"
proof -
  have w: "\<exists>s'. (do { t \<leftarrow> vga_write msg s; Some (regs, t) }) = Some (regs, s') \<and> vga_inv s' \<and> kbd_rest s' = kbd_rest s" for msg
    using vga_write_shown [OF assms(1), of msg] kbd_rest_vga by (auto simp: vga_shown_def)
  obtain t where t: "keyboard_handler s = Some t" "vga_inv t" "kbd_rest t = kbd_rest s"
    using keyboard_handler_spec [OF assms(1)] by (auto simp: served_def)
  show ?thesis
  proof (cases "map_of exception_messages n")
    case None
    with w [of "''UNKNOWN INTERRUPT'' @ [CHR 0x0A]"] assms t show ?thesis by (simp add: interrupt_handler_def Let_def)
  next
    case (Some msg)
    with w [of "msg @ [CHR 0x0A]"] assms(2) show ?thesis by (simp add: interrupt_handler_def Let_def)
  qed
qed

lemma kbd_rest_machine:
  "kbd_rest (s\<lparr>eflags := f\<rparr>) = (kbd_rest s)\<lparr>eflags := f\<rparr>" "kbd_rest (s\<lparr>mem := m\<rparr>) = (kbd_rest s)\<lparr>mem := m\<rparr>"
  "mem (kbd_rest s) = mem s" "eflags (kbd_rest s) = eflags s"
  by (simp_all add: kbd_rest_def vga_rest_def)

lemma interrupt_returns:
  assumes "idt_ready s" "vec \<in> gates" "vec \<notin> {29, 32, 49, 50}" "interruptible c" "vga_inv s"
  shows "\<exists>s'. interrupt vec err c s = Some (c, s') \<and> vga_inv s' \<and> kbd_rest (s'\<lparr>mem := mem s\<rparr>) = kbd_rest s \<and>
    changes_only {unat (ESP c) - 60..<unat (ESP c)} (mem s) (mem s')"
proof -
  obtain c0 m where m: "changes_only {unat (ESP c) - 60..<unat (ESP c)} (mem s) m" "frame_at (unat (ESP c) - 52) c (eflags s) m"
    "r_int_no (registers_at m (ESP c - 52)) = of_nat vec"
    "interrupt vec err c s = interrupt_handler (ESP c - 52) (s\<lparr>eflags := eflags s AND NOT 0x34300, mem := m\<rparr>) \<bind> (\<lambda>(p, s'). resume c0 p s')"
    using interrupt_enters [OF assms(1,2) _ assms(4)] assms(3) by blast
  let ?s = "s\<lparr>eflags := eflags s AND NOT 0x34300, mem := m\<rparr>"
  have ne: "(of_nat vec :: u32) \<notin> {32, 49, 50}"
    using of_nat_eq_small [of vec 32, where 'a = 32] of_nat_eq_small [of vec 49, where 'a = 32] of_nat_eq_small [of vec 50, where 'a = 32]
      gates_256 [OF assms(2)] assms(3) by auto
  obtain t where t: "interrupt_handler (ESP c - 52) ?s = Some (ESP c - 52, t)" "vga_inv t" "kbd_rest t = kbd_rest ?s"
    using interrupt_handler_keeps [of ?s "ESP c - 52", OF _ _ ne] assms(5) m(3) by auto
  have mem: "mem t = m" using arg_cong [OF t(3), of mem] by (simp add: kbd_rest_machine)
  have "ESP c - 52 = of_nat (unat (ESP c) - 52)" using assms(4) by (simp add: interruptible_def of_nat_diff)
  then have "resume c0 (ESP c - 52) t = Some (c, t\<lparr>eflags := eflags s\<rparr>)"
    using resume_frame [of "unat (ESP c) - 52" c "eflags s" t c0] m(2) assms(4) by (simp add: mem interruptible_def)
  then have "interrupt vec err c s = Some (c, t\<lparr>eflags := eflags s\<rparr>)" unfolding m(4) t(1) by simp
  moreover have "kbd_rest (t\<lparr>eflags := eflags s, mem := mem s\<rparr>) = kbd_rest (s\<lparr>eflags := eflags s, mem := mem s\<rparr>)"
    by (simp add: kbd_rest_machine t(3))
  ultimately show ?thesis using t(2) m(1) by (intro exI [of _ "t\<lparr>eflags := eflags s\<rparr>"]) (simp add: mem)
qed

text \<open>On vector 29 the processor pushes an error code that the stub does not expect: the task would be resumed at the
  error code, with the old instruction pointer as its code segment.\<close>

lemma vector_29_misaligned:
  assumes "idt_ready s" "interruptible c" "64 \<le> unat (ESP c)" "vga_inv s" "EIP c AND 3 = 0"
  shows "\<exists>c' s'. interrupt 29 err c s = Some (c', s') \<and> EIP c' = err \<and> CS c' = EIP c \<and> eflags s' = CS c"
proof -
  let ?vs = "entry_words 29 err c s" and ?a = "unat (ESP c)"
  define m where "m = snd (push_words (ESP c) ?vs (mem s))"
  let ?s = "s\<lparr>eflags := eflags s AND NOT 0x34300, mem := m\<rparr>"
  have codes: "error_codes 29 err = [err, 0]" by (simp add: error_codes_def pushes_error_code_def isr_error_def)
  have vs: "?vs = [eflags s, CS c, EIP c, err, 0, 29, EAX c, ECX c, EDX c, EBX c, ESP c - 24, EBP c, ESI c, EDI c, ESP c - 56, isr_return_address s]"
    by (simp add: entry_words_def codes Let_def)
  have len: "length ?vs = 16" by (simp add: vs)
  have p: "ESP c - 56 = of_nat (?a - 56)" using assms(3) by (simp add: of_nat_diff)
  from push_words_spec [of ?vs ?a "mem s"] assms(2,3) have w: "\<And>j. j < 16 \<Longrightarrow> load32 m (of_nat (?a - 4 * Suc j)) = ?vs ! j"
    unfolding len by (auto simp: m_def len interruptible_def)
  have f: "load32 m (ESP c - 56 + 4 * of_nat k) = ?vs ! (13 - k)" if "k \<le> 13" for k
  proof -
    have "?a - 4 * Suc (13 - k) = ?a - 56 + 4 * k" using that assms(3) by simp
    with w [of "13 - k"] show ?thesis by (simp add: p)
  qed
  obtain c0 where c0: "interrupt 29 err c s = interrupt_handler (ESP c - 56) ?s \<bind> (\<lambda>(p, s'). resume c0 p s')"
    using interrupt_entry [OF assms(1), of 29 err c] by (auto simp: gates_def codes m_def)
  have "r_int_no (registers_at (mem ?s) (ESP c - 56)) = 29" using f [of 8] by (simp add: registers_at_def vs)
  then obtain t where t: "interrupt_handler (ESP c - 56) ?s = Some (ESP c - 56, t)" "kbd_rest t = kbd_rest ?s"
    using interrupt_handler_keeps [of ?s "ESP c - 56" 29] assms(4) by auto
  have mem: "mem t = m" using arg_cong [OF t(2), of mem] by (simp add: kbd_rest_machine)
  show ?thesis
    unfolding c0 t(1) using f [of 10] f [of 11] f [of 12] assms(5) by (simp add: resume_def popa_def iretd_def Let_def mem vs)
qed

section \<open>Stacks and saved contexts\<close>

text \<open>The kernel's first stack ends where \<^verbatim>\<open>main.asm\<close> puts the stack pointer; \<open>lo\<close> is how far down it may reach.\<close>

definition KERNEL_STACK_TOP :: nat where "KERNEL_STACK_TOP = 0x9E000"

fun stack_area :: "nat \<Rightarrow> 'a sched_scheme \<Rightarrow> task_ref \<Rightarrow> nat set" where
  "stack_area lo s (Task i) = (if i = 0 then {lo..<KERNEL_STACK_TOP} else own_stack (Task i) s)"
| "stack_area lo s IdleTask = own_stack IdleTask s"

definition stacks_apart :: "nat \<Rightarrow> 'a sched_scheme \<Rightarrow> bool" where
  "stacks_apart lo s \<longleftrightarrow> sched_links s \<and> 0 < lo \<and>
     (unat (taskStacks s) + 15 * 4096 \<le> lo \<or> KERNEL_STACK_TOP \<le> unat (taskStacks s)) \<and>
     (unat (idleStack s) + 4096 \<le> lo \<or> KERNEL_STACK_TOP \<le> unat (idleStack s))"

fun is_task :: "task_ref \<Rightarrow> bool" where
  "is_task (Task i) = (i < 16)"
| "is_task IdleTask = True"

lemma task_areas_apart:
  assumes "1 \<le> i" "i < j"
  shows "{b + (i - 1) * 4096..<b + i * 4096} \<inter> {b + (j - 1) * 4096..<b + j * 4096 :: nat} = {}"
proof -
  have "i * 4096 \<le> (j - 1) * 4096" using assms by (intro mult_le_mono1) simp
  then show ?thesis by auto
qed

lemma task_area_within:
  assumes "1 \<le> i" "i < 16"
  shows "{b + (i - 1) * 4096..<b + i * 4096} \<subseteq> {b..<b + 15 * 4096 :: nat}"
proof -
  have "i * 4096 \<le> 15 * 4096" using assms by (intro mult_le_mono1) simp
  then show ?thesis by auto
qed

lemma areas_apart:
  assumes "stacks_apart lo s" "is_task t" "is_task u" "t \<noteq> u"
  shows "stack_area lo s t \<inter> stack_area lo s u = {}"
proof -
  define k i b where "k = {lo..<KERNEL_STACK_TOP}" and "i = {unat (idleStack s)..<unat (idleStack s) + 4096}"
    and "b = {unat (taskStacks s)..<unat (taskStacks s) + 15 * 4096}"
  have k: "k \<inter> i = {}" "k \<inter> b = {}" "i \<inter> b = {}"
    using assms(1) unfolding k_def i_def b_def stacks_apart_def sched_links_def by auto
  have area: "stack_area lo s (Task 0) = k" "stack_area lo s IdleTask = i" "n \<noteq> 0 \<Longrightarrow> stack_area lo s (Task n) = own_stack (Task n) s" for n
    by (simp_all add: k_def i_def)
  have w: "own_stack (Task n) s \<subseteq> b" if "n \<noteq> 0" "n < 16" for n
    using task_area_within [of n "unat (taskStacks s)"] that by (simp add: b_def)
  have d: "own_stack (Task n) s \<inter> own_stack (Task n') s = {}" if "n \<noteq> 0" "n' \<noteq> 0" "n \<noteq> n'" for n n'
    using that task_areas_apart [of n n' "unat (taskStacks s)"] task_areas_apart [of n' n "unat (taskStacks s)"]
    by (cases "n < n'") (auto simp: Int_commute)
  consider "t = Task 0 \<or> u = Task 0" | "t = IdleTask \<or> u = IdleTask" "t \<noteq> Task 0" "u \<noteq> Task 0"
    | n n' where "t = Task n" "u = Task n'" "n \<noteq> 0" "n' \<noteq> 0" by (metis is_task.cases)
  then show ?thesis
  proof cases
    case 1
    have "stack_area lo s v \<inter> k = {}" if "is_task v" "v \<noteq> Task 0" for v
      using that k(1,2) w area by (cases v) (simp, blast)+
    with 1 assms(2-4) area(1) show ?thesis by (metis Int_commute)
  next
    case 2
    have "stack_area lo s v \<inter> i = {}" if "is_task v" "v \<noteq> Task 0" "v \<noteq> IdleTask" for v
      using that k(3) w area by (cases v) (simp, blast, simp)
    with 2 assms(2-4) area(2) show ?thesis by (metis Int_commute)
  next
    case 3
    with d [of n n'] assms(4) area(3) show ?thesis by simp
  qed
qed

lemma area_own: "stacks_apart lo s \<Longrightarrow> is_task t \<Longrightarrow> stack_area lo s t \<subseteq> own_stack t s \<inter> {..<2 ^ 31}"
  using task_area_within [of _ "unat (taskStacks s)"]
  by (cases t) (auto simp: stacks_apart_def sched_links_def KERNEL_STACK_TOP_def split: if_splits)

text \<open>The contexts of the tasks that wait: registers and flags in a frame on the task's own stack.\<close>

type_synonym contexts = "task_ref \<Rightarrow> cpu \<times> u32"

fun waiting :: "'a sched_scheme \<Rightarrow> task_ref \<Rightarrow> bool" where
  "waiting s (Task i) \<longleftrightarrow> i < 16 \<and> curTask s \<noteq> Some (Task i) \<and> (slot_state s i = TASK_READY \<or> slot_state s i = TASK_BLOCKED)"
| "waiting s IdleTask \<longleftrightarrow> curTask s \<noteq> Some IdleTask"

definition holds_frame :: "nat \<Rightarrow> 'a sched_scheme \<Rightarrow> task_ref \<Rightarrow> u32 \<Rightarrow> cpu \<times> u32 \<Rightarrow> bool" where
  "holds_frame lo s t p cf \<longleftrightarrow> frame_at (unat p) (fst cf) (snd cf) (mem s) \<and> {unat p..<unat p + 52} \<subseteq> stack_area lo s t \<and> CS (fst cf) = 8"

definition contexts_ok :: "nat \<Rightarrow> contexts \<Rightarrow> 'a sched_scheme \<Rightarrow> bool" where
  "contexts_ok lo K s \<longleftrightarrow> (\<forall>t. waiting s t \<longrightarrow> holds_frame lo s t (esp (deref t s)) (K t))"

lemma waiting_task: "waiting s t \<Longrightarrow> is_task t"
  by (cases t) simp_all

lemma current_not_waiting: "curTask s = Some t \<Longrightarrow> \<not> waiting s t"
  by (cases t) simp_all

text \<open>States that agree on what the scheduler looks at.\<close>

definition same_sched :: "'a sched_scheme \<Rightarrow> 'b sched_scheme \<Rightarrow> bool" where
  "same_sched s t \<longleftrightarrow> tasks s = tasks t \<and> idleTask s = idleTask t \<and> curTask s = curTask t \<and> nextTaskID s = nextTaskID t \<and>
     schedulerTicks s = schedulerTicks t \<and> taskStacks s = taskStacks t \<and> idleStack s = idleStack t"

lemma same_sched:
  assumes "same_sched s t"
  shows "own_stack r s = own_stack r t" "sched_inv s = sched_inv t" "switchable cur s = switchable cur t" "chosen cur s r = chosen cur t r"
    "stack_area lo s r = stack_area lo t r" "stacks_apart lo s = stacks_apart lo t" "waiting s r = waiting t r" "deref r s = deref r t"
proof -
  have f: "tasks s = tasks t" "idleTask s = idleTask t" "curTask s = curTask t" "nextTaskID s = nextTaskID t"
    "schedulerTicks s = schedulerTicks t" "taskStacks s = taskStacks t" "idleStack s = idleStack t"
    using assms by (simp_all add: same_sched_def)
  show own: "own_stack r s = own_stack r t" for r by (cases r) (simp_all add: f)
  have v: "valid_cur r s = valid_cur r t" for r by (cases r) (simp_all add: f)
  have l: "sched_links s = sched_links t" "ids_ok s = ids_ok t" "saved_ok s c = saved_ok t c" for c
    by (simp_all add: sched_links_def ids_ok_def saved_ok_def f own del: own_stack.simps)
  show "sched_inv s = sched_inv t" "switchable cur s = switchable cur t" by (simp_all add: sched_inv_def switchable_def l v f)
  show "chosen cur s r = chosen cur t r" by (cases r) (simp_all add: runnable_def f)
  show "stack_area lo s r = stack_area lo t r" by (cases r) (simp_all add: own del: own_stack.simps)
  show "stacks_apart lo s = stacks_apart lo t" by (simp add: stacks_apart_def l f)
  show "waiting s r = waiting t r" "deref r s = deref r t" by (cases r; simp add: f)+
qed

lemma same_contexts: "same_sched s t \<Longrightarrow> mem s = mem t \<Longrightarrow> contexts_ok lo K s = contexts_ok lo K t"
  by (simp add: contexts_ok_def holds_frame_def same_sched [of s t])

text \<open>Writing elsewhere leaves the contexts alone; in particular what a task does on its own stack does not concern the
  others.\<close>

lemma contexts_outside:
  assumes "contexts_ok lo K s" "stacks_apart lo s" "changes_only S (mem s) (mem t)" "\<And>u. waiting s u \<Longrightarrow> stack_area lo s u \<inter> S = {}" "same_sched s t"
  shows "contexts_ok lo K t"
  unfolding contexts_ok_def
proof (intro allI impI)
  fix u assume u: "waiting t u"
  then have w: "waiting s u" using same_sched(7) [OF assms(5)] by blast
  from w have h: "holds_frame lo s u (esp (deref u s)) (K u)" using assms(1) by (simp add: contexts_ok_def)
  have "unat (esp (deref u s)) + 52 \<le> 2 ^ 32"
    using h area_own [OF assms(2) waiting_task [OF w]] by (fastforce simp: holds_frame_def)
  then have "frame_at (unat (esp (deref u s))) (fst (K u)) (snd (K u)) (mem t)"
    using h assms(4) [OF w] by (intro frame_changes [OF _ assms(3)]) (auto simp: holds_frame_def)
  with h show "holds_frame lo t u (esp (deref u t)) (K u)"
    by (simp add: holds_frame_def same_sched(5,8) [OF assms(5), symmetric])
qed

lemma contexts_other_stack:
  assumes "contexts_ok lo K s" "stacks_apart lo s" "\<not> waiting s v" "is_task v"
    "changes_only S (mem s) (mem t)" "S \<subseteq> stack_area lo s v" "same_sched s t"
  shows "contexts_ok lo K t"
proof (rule contexts_outside [OF assms(1,2,5) _ assms(7)])
  fix u assume w: "waiting s u"
  then have "u \<noteq> v" using assms(3) by blast
  from areas_apart [OF assms(2) waiting_task [OF w] assms(4) this] assms(6) show "stack_area lo s u \<inter> S = {}" by blast
qed

section \<open>Context switches\<close>

lemma sched_restD:
  assumes "sched_rest s = sched_rest t"
  shows "mem s = mem t" "taskStacks s = taskStacks t" "idleStack s = idleStack t" "sched.more s = sched.more t" "eflags s = eflags t"
proof -
  have r: "mem (sched_rest u) = mem u" "taskStacks (sched_rest u) = taskStacks u" "idleStack (sched_rest u) = idleStack u"
    "sched.more (sched_rest u) = sched.more u" "eflags (sched_rest u) = eflags u" for u :: "'a sched_scheme"
    by (simp_all add: sched_rest_def)
  show "mem s = mem t" "taskStacks s = taskStacks t" "idleStack s = idleStack t" "sched.more s = sched.more t" "eflags s = eflags t"
    using r [of s] r [of t] by (simp_all add: assms)
qed

lemma area_links:
  assumes "taskStacks s = taskStacks t" "idleStack s = idleStack t"
  shows "stack_area lo s r = stack_area lo t r"
proof -
  have "own_stack r s = own_stack r t" for r by (cases r) (simp_all add: assms)
  then show ?thesis by (cases r) (simp_all del: own_stack.simps)
qed

lemma chosen_waits:
  assumes "switchable cur s" "chosen cur s t" "t \<noteq> cur"
  shows "waiting s t"
proof -
  have run: "slot_state s i = TASK_RUNNING \<Longrightarrow> i < 16 \<Longrightarrow> cur = Task i" and cur: "curTask s = Some cur" for i
    using assms(1) unfolding switchable_def by (elim conjE, blast)+
  show ?thesis
  proof (cases t)
    case (Task j)
    then have "j < 16" "slot_state s j = TASK_READY \<or> slot_state s j = TASK_RUNNING" "slot_state s j \<noteq> TASK_RUNNING"
      using assms(2,3) run [of j] by (simp_all add: runnable_def, metis)
    then show ?thesis using Task cur assms(3) by simp
  qed (use cur assms(3) in simp)
qed

lemma frame_own:
  assumes "stacks_apart lo s" "is_task t" "holds_frame lo s t p cf"
  shows "unat p \<in> own_stack t s"
proof -
  have "unat p \<in> {unat p..<unat p + 52}" by simp
  then show ?thesis using assms(3) area_own [OF assms(1,2)] unfolding holds_frame_def by blast
qed

text \<open>A switch records the context of the task that stops and returns the frame of the one that continues.\<close>

lemma schedule_contexts:
  assumes sw: "switchable cur s" and apart: "stacks_apart lo s" and ctx: "contexts_ok lo K s" and own: "holds_frame lo s cur regs cf"
  shows "\<exists>t p s'. scheduler_schedule regs s = (p, s') \<and> chosen cur s t \<and> curTask s' = Some t \<and> sched_inv s' \<and>
    sched_rest s' = sched_rest s \<and> holds_frame lo s' t p ((K(cur := cf)) t) \<and> contexts_ok lo (K(cur := cf)) s'"
proof -
  have b: "\<And>i. cur = Task i \<Longrightarrow> i < 16" and cur: "curTask s = Some cur"
    using sw unfolding switchable_def by (elim conjE, blast)+
  then have task: "is_task cur" by (cases cur) simp_all
  have regs: "unat regs \<in> own_stack cur s" by (rule frame_own [OF apart task own])
  obtain t s' where t: "chosen cur s t" "scheduler_schedule regs s = (if t = cur then regs else esp (deref t s), s')"
    "curTask s' = Some t" "t \<noteq> cur \<longrightarrow> deref cur s' = (deref cur s)\<lparr>esp := regs,
       tstate := (if tstate (deref cur s) = TASK_RUNNING then TASK_READY else tstate (deref cur s))\<rparr>"
    "\<forall>r. r \<noteq> cur \<and> r \<noteq> t \<longrightarrow> deref r s' = deref r s" "sched_inv s'"
    using schedule_effect [OF sw regs] by blast
  have rest: "sched_rest s' = sched_rest s" using sched_rest_schedule [of regs s] t(2) by simp
  note f = sched_restD [OF rest]
  have hold: "holds_frame lo s' r = holds_frame lo s r" for r
    by (simp add: fun_eq_iff holds_frame_def f(1) area_links [OF f(2,3)])
  have "holds_frame lo s t (if t = cur then regs else esp (deref t s)) ((K(cur := cf)) t)"
    using own ctx chosen_waits [OF sw t(1)] by (auto simp: contexts_ok_def)
  moreover have "holds_frame lo s u (esp (deref u s')) ((K(cur := cf)) u)" if u: "waiting s' u" for u
  proof (cases "u = cur")
    case True
    with u t(3) have "t \<noteq> cur" by (cases cur) auto
    with True t(4) own show ?thesis by simp
  next
    case False
    moreover have "u \<noteq> t" using u t(3) by (cases u) auto
    ultimately have d: "deref u s' = deref u s" using t(5) by blast
    with u False cur have "waiting s u" by (cases u) auto
    with ctx False d show ?thesis by (simp add: contexts_ok_def)
  qed
  ultimately show ?thesis
    using t(1,2,3,6) rest by (intro exI [of _ t] exI [of _ "if t = cur then regs else esp (deref t s)"] exI [of _ s']) (simp add: hold contexts_ok_def)
qed

text \<open>The three handlers of the scheduler, alike: somebody continues, with a context that is recorded.\<close>

definition switched_to :: "nat \<Rightarrow> contexts \<Rightarrow> 'a sched_scheme \<Rightarrow> u32 \<times> 'a sched_scheme \<Rightarrow> task_ref \<Rightarrow> bool" where
  "switched_to lo K s r t \<longleftrightarrow> curTask (snd r) = Some t \<and> sched_inv (snd r) \<and> sched_rest (snd r) = sched_rest s \<and>
     holds_frame lo (snd r) t (fst r) (K t) \<and> contexts_ok lo K (snd r)"

lemma schedule_switched:
  assumes "switchable cur s" "stacks_apart lo s" "contexts_ok lo K s" "holds_frame lo s cur regs cf"
  shows "\<exists>t. switched_to lo (K(cur := cf)) s (scheduler_schedule regs s) t \<and> chosen cur s t"
  using schedule_contexts [OF assms] by (auto simp: switched_to_def simp del: fun_upd_apply)

lemma tick_switched:
  assumes "sched_inv s" "curTask s = Some cur" "stacks_apart lo s" "contexts_ok lo K s" "holds_frame lo s cur regs cf"
  shows "\<exists>t. switched_to lo (K(cur := cf)) s (scheduler_tick regs s) t"
proof -
  let ?s = "\<lambda>n. s\<lparr>schedulerTicks := n\<rparr>"
  have area: "stack_area lo (?s n) r = stack_area lo s r" for n r by (rule area_links) simp_all
  have h: "holds_frame lo (?s n) r p = holds_frame lo s r p" for n r p by (simp add: fun_eq_iff holds_frame_def area)
  have w: "waiting (?s n) r = waiting s r" "deref r (?s n) = deref r s" for n r by (cases r; simp)+
  have c: "contexts_ok lo K' (?s n) = contexts_ok lo K' s" for K' n by (simp add: contexts_ok_def h w)
  have "\<exists>t. switched_to lo (K(cur := cf)) (?s 0) (scheduler_schedule regs (?s 0)) t"
    using schedule_switched [of cur "?s 0" lo K regs cf] assms ticks_inv [OF assms(1), of 0] sched_inv_switchable [of "?s 0" cur]
    by (auto simp: TIME_SLICE_MS_def c h stacks_apart_def)
  moreover have "\<not> waiting s cur" by (rule current_not_waiting [OF assms(2)])
  then have "contexts_ok lo (K(cur := cf)) s" using assms(4) by (auto simp: contexts_ok_def)
  then have "switched_to lo (K(cur := cf)) s (regs, ?s (schedulerTicks s + 1)) cur" if "schedulerTicks s + 1 < TIME_SLICE_MS"
    using that assms(2,5) ticks_inv [OF assms(1)] by (simp add: switched_to_def c h)
  ultimately show ?thesis
    using tick_cases [OF assms(1), of regs] by (auto simp: switched_to_def simp del: fun_upd_apply)
qed

lemma exit_switched:
  assumes "sched_inv s" "curTask s = Some (Task i)" "stacks_apart lo s" "contexts_ok lo K s" "holds_frame lo s (Task i) regs cf"
  shows "\<exists>t. switched_to lo (K(Task i := cf)) s (scheduler_exit regs s) t \<and> t \<noteq> Task i"
proof -
  let ?u = "update_task (Task i) (\<lambda>t. t\<lparr>tstate := TASK_TERMINATED\<rparr>) s"
  have i: "i < 16" and len: "length (tasks s) = 16" using assms(1,2) by (auto simp: sched_inv_def ids_ok_def)
  have nz: "regs \<noteq> 0"
    using own_stack_nonzero [OF _ frame_own [OF assms(3) _ assms(5)]] assms(3) i by (simp add: stacks_apart_def)
  have rest: "sched_rest ?u = sched_rest s" by (rule sched_rest_update(1))
  have area: "stack_area lo ?u r = stack_area lo s r" for r by (rule area_links) simp_all
  have "mem ?u = mem s" by simp
  with area have h: "holds_frame lo ?u r p = holds_frame lo s r p" for r p
    by (intro ext) (simp add: holds_frame_def del: update_task.simps)
  have w: "waiting s r \<and> deref r ?u = deref r s" if "waiting ?u r" for r
    using that assms(2) len by (cases r) (auto simp: slot_update split: if_splits)
  then have c: "contexts_ok lo K ?u" using assms(4) by (auto simp: contexts_ok_def h simp del: update_task.simps)
  have apart: "stacks_apart lo ?u" using assms(3) by (simp add: stacks_apart_def sched_links_def)
  have eq: "scheduler_exit regs s = scheduler_schedule regs ?u" using assms(2) nz by (simp add: scheduler_exit_def)
  have "\<exists>t. switched_to lo (K(Task i := cf)) ?u (scheduler_schedule regs ?u) t \<and> chosen (Task i) ?u t"
    by (rule schedule_switched [OF exit_switchable [OF assms(1,2)] apart c]) (simp add: h assms(5) del: update_task.simps)
  then obtain t where t: "switched_to lo (K(Task i := cf)) ?u (scheduler_schedule regs ?u) t" "chosen (Task i) ?u t" by blast
  have "t \<noteq> Task i" using t(2) i len by (auto simp: runnable_def)
  with t(1) show ?thesis unfolding eq switched_to_def rest by blast
qed

text \<open>From the interrupted instruction to the handler: the context of the interrupted task is on its own stack.\<close>

definition running :: "nat \<Rightarrow> contexts \<Rightarrow> task_ref \<Rightarrow> cpu \<Rightarrow> 'a intr_scheme \<Rightarrow> bool" where
  "running lo K cur c s \<longleftrightarrow> idt_ready s \<and> sched_inv s \<and> curTask s = Some cur \<and> stacks_apart lo s \<and> contexts_ok lo K s \<and>
     interruptible c \<and> {unat (ESP c) - 60..<unat (ESP c)} \<subseteq> stack_area lo s cur"

lemma enter_contexts:
  assumes "running lo K cur c s" "vec \<in> gates" "vec \<noteq> 29"
  shows "\<exists>c0 s1. interrupt vec err c s = interrupt_handler (ESP c - 52) s1 \<bind> (\<lambda>(p, s'). resume c0 p s') \<and>
    s1 = s\<lparr>eflags := eflags s1, mem := mem s1\<rparr> \<and> r_int_no (registers_at (mem s1) (ESP c - 52)) = of_nat vec \<and>
    same_sched s s1 \<and> contexts_ok lo K s1 \<and> holds_frame lo s1 cur (ESP c - 52) (c, eflags s)"
proof -
  have r: "idt_ready s" "sched_inv s" "curTask s = Some cur" "stacks_apart lo s" "contexts_ok lo K s" "interruptible c"
    "{unat (ESP c) - 60..<unat (ESP c)} \<subseteq> stack_area lo s cur" using assms(1) by (simp_all add: running_def)
  obtain c0 m where m: "changes_only {unat (ESP c) - 60..<unat (ESP c)} (mem s) m" "frame_at (unat (ESP c) - 52) c (eflags s) m"
    "r_int_no (registers_at m (ESP c - 52)) = of_nat vec"
    "interrupt vec err c s = interrupt_handler (ESP c - 52) (s\<lparr>eflags := eflags s AND NOT 0x34300, mem := m\<rparr>) \<bind> (\<lambda>(p, s'). resume c0 p s')"
    using interrupt_enters [OF r(1) assms(2,3) r(6)] by blast
  let ?s = "s\<lparr>eflags := eflags s AND NOT 0x34300, mem := m\<rparr>"
  have same: "same_sched s ?s" by (simp add: same_sched_def)
  have task: "is_task cur" using r(2,3) by (cases cur) (auto simp: sched_inv_def)
  have ctx: "contexts_ok lo K ?s" by (rule contexts_other_stack [OF r(5,4) current_not_waiting [OF r(3)] task _ r(7) same]) (simp add: m(1))
  have p: "unat (ESP c - 52) = unat (ESP c) - 52" using r(6) by (simp add: interruptible_def unat_minus_small)
  have "{unat (ESP c) - 52..<unat (ESP c) - 52 + 52} \<subseteq> {unat (ESP c) - 60..<unat (ESP c)}" using r(6) by (auto simp: interruptible_def)
  then have "holds_frame lo ?s cur (ESP c - 52) (c, eflags s)"
    using m(2) r(6,7) same_sched(5) [OF same, of lo cur] by (auto simp: holds_frame_def p interruptible_def)
  with m same ctx show ?thesis by (intro exI [of _ c0] exI [of _ ?s]) simp
qed

lemma resume_holds: "holds_frame lo s t p cf \<Longrightarrow> resume c0 p s = Some (fst cf, s\<lparr>eflags := snd cf\<rparr>)"
  using resume_frame [of "unat p" "fst cf" "snd cf" s c0] by (simp add: holds_frame_def)

text \<open>Leaving: the state after the \<^verbatim>\<open>iretd\<close>.\<close>

definition switches :: "nat \<Rightarrow> contexts \<Rightarrow> 'a intr_scheme \<Rightarrow> (cpu \<times> 'a intr_scheme) option \<Rightarrow> task_ref \<Rightarrow> bool" where
  "switches lo K s r t \<longleftrightarrow> (\<exists>s'. r = Some (fst (K t), s') \<and> eflags s' = snd (K t) \<and> curTask s' = Some t \<and> sched_inv s' \<and>
     contexts_ok lo K s' \<and> stacks_apart lo s' \<and> idt_ready s' \<and> vga_inv s' = vga_inv s)"

lemma leave_contexts:
  assumes "switched_to lo K s1 r t" "stacks_apart lo s1" "idt_ready s1" "vga_inv s1 = vga_inv s"
  shows "switches lo K s (resume c0 (fst r) (snd r)) t"
proof -
  let ?s = "(snd r)\<lparr>eflags := snd (K t)\<rparr>"
  have r: "curTask (snd r) = Some t" "sched_inv (snd r)" "sched_rest (snd r) = sched_rest s1" "holds_frame lo (snd r) t (fst r) (K t)"
    "contexts_ok lo K (snd r)" using assms(1) by (simp_all add: switched_to_def)
  have same: "same_sched ?s (snd r)" by (simp add: same_sched_def)
  have i: "idt_ready (sched_rest u) = idt_ready u" "vga_inv (sched_rest u) = vga_inv u" for u :: "'a intr_scheme"
    by (simp_all add: idt_ready_def sched_rest_def vga_inv_def screen_shows_window_def max_viewport_def)
  have "stacks_apart lo ?s" "idt_ready ?s" "vga_inv ?s = vga_inv s"
    using assms(2-4) sched_restD(2,3) [OF r(3)] i [of "snd r"] i [of s1] r(3)
    by (simp_all add: stacks_apart_def sched_links_def idt_ready_def)
  moreover have "resume c0 (fst r) (snd r) = Some (fst (K t), ?s)" by (rule resume_holds [OF r(4)])
  moreover have "contexts_ok lo K ?s" using same_contexts [OF same, of lo K] r(5) by simp
  moreover have "sched_inv ?s" using same_sched(2) [OF same] r(2) by simp
  ultimately show ?thesis using r(1) by (simp add: switches_def)
qed

lemma handler_cases:
  assumes "r_int_no (registers_at (mem s) regs) = of_nat vec"
  shows "vec = 32 \<Longrightarrow> interrupt_handler regs s = Some (scheduler_tick regs (pic_send_eoi 0 (pit_tick s)))"
    "vec = 49 \<Longrightarrow> interrupt_handler regs s = Some (scheduler_schedule regs s)"
    "vec = 50 \<Longrightarrow> interrupt_handler regs s = Some (scheduler_exit regs s)"
  using assms by (simp_all add: interrupt_handler_def exception_messages_def Let_def)

lemma interrupt_switches:
  assumes run: "running lo K cur c s" and vec: "vec \<in> {32, 49, 50}" and idle: "vec = 50 \<longrightarrow> cur \<noteq> IdleTask"
  shows "\<exists>t. switches lo (K(cur := (c, eflags s))) s (interrupt vec err c s) t \<and> (vec = 49 \<longrightarrow> chosen cur s t) \<and> (vec = 50 \<longrightarrow> t \<noteq> cur)"
proof -
  let ?K = "K(cur := (c, eflags s))" and ?p = "ESP c - 52"
  have "vec \<in> gates" "vec \<noteq> 29" using vec by (auto simp: gates_def)
  from enter_contexts [OF run this, of err] obtain c0 s1 where s1: "interrupt vec err c s = interrupt_handler ?p s1 \<bind> (\<lambda>(p, s'). resume c0 p s')"
    "s1 = s\<lparr>eflags := eflags s1, mem := mem s1\<rparr>" "r_int_no (registers_at (mem s1) ?p) = of_nat vec" "same_sched s s1"
    "contexts_ok lo K s1" "holds_frame lo s1 cur ?p (c, eflags s)" by blast
  have inv: "sched_inv s1" "curTask s1 = Some cur" "stacks_apart lo s1"
    using run same_sched(2,6) [OF s1(4)] s1(4) by (auto simp: running_def same_sched_def)
  have i: "idt_ready s1" "vga_inv s1 = vga_inv s" using run by (subst s1(2), simp add: running_def idt_ready_def)+
  have leave: "switches lo ?K s (interrupt vec err c s) t"
    if "interrupt_handler ?p s1 = Some r" "switched_to lo ?K s2 r t" "stacks_apart lo s2" "idt_ready s2" "vga_inv s2 = vga_inv s" for r t s2
    using leave_contexts [OF that(2-5), of c0] by (simp add: s1(1) that(1) case_prod_beta)
  from vec consider "vec = 32" | "vec = 49" | "vec = 50" by blast
  then show ?thesis
  proof cases
    case 1
    let ?s = "pic_send_eoi 0 (pit_tick s1)"
    have same: "same_sched s1 ?s" by (simp add: same_sched_def pit_tick_def pic_send_eoi_def outb_def Let_def)
    have m: "mem ?s = mem s1" "idt_ready ?s = idt_ready s1" "vga_inv ?s = vga_inv s1"
      by (simp_all add: pit_tick_def pic_send_eoi_def outb_def Let_def idt_ready_def vga_inv_def screen_shows_window_def max_viewport_def)
    have "\<exists>t. switched_to lo ?K ?s (scheduler_tick ?p ?s) t"
      using inv s1(5,6) same_sched(2,5,6) [OF same] same_contexts [OF same, of lo K] same
      by (intro tick_switched) (auto simp: m same_sched_def holds_frame_def)
    then obtain t where t: "switched_to lo ?K ?s (scheduler_tick ?p ?s) t" by blast
    have "switches lo ?K s (interrupt vec err c s) t"
      by (rule leave [OF handler_cases(1) [OF s1(3) 1] t]) (use i inv(3) same_sched(6) [OF same] m in simp_all)
    with 1 show ?thesis by auto
  next
    case 2
    have "\<exists>t. switched_to lo ?K s1 (scheduler_schedule ?p s1) t \<and> chosen cur s1 t"
      by (rule schedule_switched [OF sched_inv_switchable [OF inv(1,2)] inv(3) s1(5,6)])
    then show ?thesis using leave [OF handler_cases(2) [OF s1(3) 2]] i inv(3) same_sched(4) [OF s1(4)] 2 by auto
  next
    case 3
    then obtain j where j: "cur = Task j" using idle by (cases cur) auto
    have "\<exists>t. switched_to lo ?K s1 (scheduler_exit ?p s1) t \<and> t \<noteq> cur"
      unfolding j by (rule exit_switched) (use inv s1(5,6) j in simp_all)
    then show ?thesis using leave [OF handler_cases(3) [OF s1(3) 3]] i inv(3) 3 by auto
  qed
qed

section \<open>Fresh tasks\<close>

text \<open>The context a new task starts with: all registers zero, interrupts enabled, at its entry point, and the address of
  \<^verbatim>\<open>task_exit\<close> as the return address on the stack.\<close>

definition fresh_context :: "nat \<Rightarrow> u32 \<Rightarrow> cpu \<times> u32" where
  "fresh_context sp ep = (\<lparr>EAX = 0, ECX = 0, EDX = 0, EBX = 0, ESP = of_nat (sp + 52), EBP = 0, ESI = 0, EDI = 0, EIP = ep, CS = 8\<rparr>, 0x202)"

lemma fresh_frame_context:
  "fresh_frame sp ep ret m \<Longrightarrow> frame_at sp (fst (fresh_context sp ep)) (snd (fresh_context sp ep)) m"
proof -
  assume f: "fresh_frame sp ep ret m"
  have z: "load32 m (of_nat (sp + 4 * j)) = 0" if "j < 8" for j using f that unfolding fresh_frame_def by blast
  show ?thesis
    using z [of 0] z [of 1] z [of 2] z [of 4] z [of 5] z [of 6] z [of 7] f
    by (simp add: frame_at_def fresh_context_def fresh_frame_def del: of_nat_add)
qed

lemma create_contexts:
  assumes inv: "sched_inv s" and apart: "stacks_apart lo s" and ctx: "contexts_ok lo K s" and new: "ep \<noteq> 0" "free_slot s = Some i"
  shows "\<exists>s'. task_create ep s = (int i, s') \<and> sched_inv s' \<and> waiting s' (Task i) \<and>
    contexts_ok lo (K(Task i := fresh_context (stack_base s i + 4040) ep)) s' \<and>
    load32 (mem s') (of_nat (stack_base s i + 4092)) = task_exit_address s"
proof -
  have ids: "ids_ok s" and len: "length (tasks s) = 16" and links: "sched_links s" using inv by (simp_all add: sched_inv_def ids_ok_def)
  note f = free_slot_id [OF ids new(2)]
  let ?b = "stack_base s i" and ?t = "(tasks s ! i)\<lparr>tid := of_nat i, esp := of_nat (stack_base s i + 4040), tstate := TASK_READY\<rparr>"
  obtain m' where m': "task_create ep s = (int i, s\<lparr>mem := m', tasks := (tasks s)[i := ?t], nextTaskID := of_nat (max (unat (nextTaskID s)) (Suc i))\<rparr>)"
    "changes_only {?b + 4040..<?b + 4096} (mem s) m'" "fresh_frame (?b + 4040) ep (task_exit_address s) m'"
    using task_create_spec [OF inv new(1)] new(2) by (simp only: option.case) (elim exE conjE)
  let ?s = "s\<lparr>mem := m', tasks := (tasks s)[i := ?t], nextTaskID := of_nat (max (unat (nextTaskID s)) (Suc i))\<rparr>"
  have "i * 4096 = (i - 1) * 4096 + 4096" using f(1) by (cases i) simp_all
  then have sub: "{?b + 4040..<?b + 4096} \<subseteq> stack_area lo s (Task i)" using f(1) by (auto simp: stack_base_def)
  have nw: "\<not> waiting s (Task i)" using f(3) by simp
  have "contexts_ok lo K (s\<lparr>mem := m'\<rparr>)"
    by (rule contexts_other_stack [OF ctx apart nw _ _ sub]) (use f(2) m'(2) in \<open>simp_all add: same_sched_def\<close>)
  then have other: "holds_frame lo (s\<lparr>mem := m'\<rparr>) u (esp (deref u (s\<lparr>mem := m'\<rparr>))) (K u)" if "waiting s u" for u
    using that same_sched(7) [of s "s\<lparr>mem := m'\<rparr>" u] by (simp add: contexts_ok_def same_sched_def)
  have area: "stack_area lo ?s u = stack_area lo s u" "stack_area lo (s\<lparr>mem := m'\<rparr>) u = stack_area lo s u" for u by (rule area_links; simp)+
  have "curTask s \<noteq> Some (Task i)" using inv f(3) by (auto simp: sched_inv_def)
  then have wi: "waiting ?s (Task i)" using f(2) len by simp
  have small: "unat (of_nat (?b + 4040) :: u32) = ?b + 4040"
    by (rule unat_of_nat_small) (use links f(1,2) in \<open>auto simp: stack_base_def sched_links_def\<close>)
  have new_ok: "holds_frame lo ?s (Task i) (of_nat (?b + 4040)) (fresh_context (?b + 4040) ep)"
    using fresh_frame_context [OF m'(3)] sub unfolding holds_frame_def area small by (auto simp: fresh_context_def)
  have "holds_frame lo ?s u (esp (deref u ?s)) ((K(Task i := fresh_context (?b + 4040) ep)) u)" if u: "waiting ?s u" for u
  proof (cases "u = Task i")
    case True
    with new_ok f(2) len show ?thesis by simp
  next
    case False
    then have "waiting s u" "deref u ?s = deref u (s\<lparr>mem := m'\<rparr>)" using u len by (cases u; auto simp: slot_update)+
    with other [of u] False show ?thesis by (simp add: holds_frame_def area del: of_nat_add)
  qed
  moreover have "sched_inv ?s" using create_inv [OF inv, of ep] m'(1) by simp
  moreover have "?b + 4040 + 52 = ?b + 4092" by simp
  then have "load32 m' (of_nat (?b + 4092)) = task_exit_address s" using m'(3) unfolding fresh_frame_def by metis
  ultimately show ?thesis using m'(1) wi by (intro exI [of _ ?s]) (simp add: contexts_ok_def)
qed

text \<open>After \<^verbatim>\<open>scheduler_init\<close> only the idle task waits.\<close>

lemma init_contexts:
  assumes "stacks_apart lo s" "length (tasks s) = MAX_TASKS"
  shows "contexts_ok lo (\<lambda>_. fresh_context (unat (idleStack s) + 4040) (idle_entry_address s)) (scheduler_init s)"
proof -
  have links: "sched_links s" using assms(1) by (simp add: stacks_apart_def)
  obtain m' where m': "scheduler_init s = s\<lparr>mem := m',
      tasks := \<lparr>tid = 0, esp = 0, tstate = TASK_RUNNING, tnext = 0\<rparr> # replicate 15 \<lparr>tid = 0, esp = 0, tstate = TASK_TERMINATED, tnext = 0\<rparr>,
      idleTask := (idleTask s)\<lparr>tid := - 1, esp := of_nat (unat (idleStack s) + 4040), tstate := TASK_READY, tnext := 0\<rparr>,
      curTask := Some (Task 0), nextTaskID := 1, schedulerTicks := 0\<rparr>"
    "fresh_frame (unat (idleStack s) + 4040) (idle_entry_address s) (task_exit_address s) m'"
    using scheduler_init_spec [OF links assms(2)] by (elim exE conjE)
  have w: "u = IdleTask" if "waiting (scheduler_init s) u" for u
    using that by (cases u) (auto simp: m'(1) nth_Cons' split: if_splits)
  have small: "unat (of_nat (unat (idleStack s) + 4040) :: u32) = unat (idleStack s) + 4040"
    by (rule unat_of_nat_small) (use links in \<open>simp add: sched_links_def\<close>)
  have "holds_frame lo (scheduler_init s) IdleTask (of_nat (unat (idleStack s) + 4040)) (fresh_context (unat (idleStack s) + 4040) (idle_entry_address s))"
    using fresh_frame_context [OF m'(2)] unfolding holds_frame_def small by (auto simp: m'(1) fresh_context_def)
  moreover have "esp (deref IdleTask (scheduler_init s)) = of_nat (unat (idleStack s) + 4040)" by (simp add: m'(1))
  ultimately show ?thesis using w unfolding contexts_ok_def by metis
qed

section \<open>Properties\<close>

text \<open>The variables as the kernel image loads them, with stubs 16 bytes apart; then the table and the scheduler set up, and the
  first task running with its stack pointer at 9D000h.\<close>

definition intr_loaded :: intr where
  "intr_loaded = kbd.extend kbd_loaded (intr.fields
     (replicate 256 \<lparr>offset_low = 0, selector = 0, zero = 0, type_attr = 0, offset_high = 0\<rparr>)
     \<lparr>limit = 0, base = 0\<rparr> \<lparr>limit = 0, base = 0\<rparr> 0x7000 (\<lambda>n. 0x12340 + 16 * of_nat n) 0x6000)"

definition intr_started :: intr where
  "intr_started = idt_init (scheduler_init (vga_init intr_loaded))"

definition cpu_started :: cpu where
  "cpu_started = \<lparr>EAX = 1, ECX = 2, EDX = 3, EBX = 4, ESP = 0x9D000, EBP = 5, ESI = 6, EDI = 7, EIP = 0x4000, CS = 8\<rparr>"

lemma intr_loaded:
  "length (idt intr_loaded) = 256" "sched_links intr_loaded" "length (tasks intr_loaded) = MAX_TASKS" "taskStacks intr_loaded = 0x20000"
  "idleStack intr_loaded = 0x30000" "idle_entry_address intr_loaded = 0x9000" "task_exit_address intr_loaded = 0x8000" "eflags intr_loaded = 0"
  using sched_loaded
  by (simp_all add: intr_loaded_def kbd_loaded_def intr.defs kbd.defs timer.defs sched.defs sched_loaded_def pg.defs pg_loaded_def sched_links_def MAX_TASKS_def)

lemma intr_started:
  "idt_ready intr_started" "vga_inv intr_started" "sched_inv intr_started" "curTask intr_started = Some (Task 0)"
  "stacks_apart 0x90000 intr_started" "contexts_ok 0x90000 (\<lambda>_. fresh_context 0x30FC8 0x9000) intr_started" "free_slot intr_started = Some 1"
  "stack_base intr_started 1 = 0x20000" "task_exit_address intr_started = 0x8000" "eflags intr_started = 0"
proof -
  let ?v = "vga_init intr_loaded" and ?s = "scheduler_init (vga_init intr_loaded)"
  have v: "length (idt ?v) = 256" "sched_links ?v" "length (tasks ?v) = MAX_TASKS" "taskStacks ?v = 0x20000" "idleStack ?v = 0x30000"
    "idle_entry_address ?v = 0x9000" "task_exit_address ?v = 0x8000" "eflags ?v = 0"
    using intr_loaded by (simp_all add: vga_init_def vga_clear_def sched_links_def)
  have apart: "stacks_apart 0x90000 ?v" by (simp add: stacks_apart_def v KERNEL_STACK_TOP_def)
  obtain m' where m': "?s = ?v\<lparr>mem := m',
      tasks := \<lparr>tid = 0, esp = 0, tstate = TASK_RUNNING, tnext = 0\<rparr> # replicate 15 \<lparr>tid = 0, esp = 0, tstate = TASK_TERMINATED, tnext = 0\<rparr>,
      idleTask := (idleTask ?v)\<lparr>tid := - 1, esp := of_nat (unat (idleStack ?v) + 4040), tstate := TASK_READY, tnext := 0\<rparr>,
      curTask := Some (Task 0), nextTaskID := 1, schedulerTicks := 0\<rparr>"
    using scheduler_init_spec [OF v(2,3)] by (elim exE conjE)
  have "length (idt ?s) = IDT_ENTRIES" by (simp add: m' v IDT_ENTRIES_def)
  from idt_init_spec [OF this] obtain es where es: "intr_started = ?s\<lparr>idt := es, idtp := \<lparr>limit = 2047, base = idt_address ?s\<rparr>,
      idtr := \<lparr>limit = 2047, base = idt_address ?s\<rparr>\<rparr>" "idt_ready intr_started"
    unfolding intr_started_def by blast
  have same: "same_sched ?s intr_started" "mem ?s = mem intr_started" by (simp_all add: es(1) same_sched_def)
  show "idt_ready intr_started" by (rule es(2))
  have inv: "sched_inv ?s" by (rule init_inv [OF v(2,3)])
  then show "sched_inv intr_started" using same_sched(2) [OF same(1)] by simp
  show "curTask intr_started = Some (Task 0)" "stack_base intr_started 1 = 0x20000" "task_exit_address intr_started = 0x8000"
    by (simp_all add: es(1) m' stack_base_def v)
  have "stacks_apart 0x90000 ?s" using apart by (simp add: m' stacks_apart_def sched_links_def)
  then show "stacks_apart 0x90000 intr_started" using same_sched(6) [OF same(1)] by simp
  show "contexts_ok 0x90000 (\<lambda>_. fresh_context 0x30FC8 0x9000) intr_started"
    using init_contexts [OF apart v(3)] same_contexts [OF same] by (simp add: v)
  show "free_slot intr_started = Some 1" unfolding free_slot_def find_upt_Some by (simp add: es(1) m' MAX_TASKS_def)
  have "vga_inv ?v" by (simp add: vga_init_def vga_clear_shown)
  then show "vga_inv intr_started" by (simp add: es(1) m' vga_inv_def screen_shows_window_def max_viewport_def)
  show "eflags intr_started = 0" by (simp add: es(1) m' v)
qed

lemma cpu_started: "interruptible cpu_started" "ESP cpu_started = 0x9D000"
  "{unat (ESP cpu_started) - 60..<unat (ESP cpu_started)} \<subseteq> stack_area 0x90000 intr_started (Task 0)"
  by (simp_all add: cpu_started_def interruptible_def KERNEL_STACK_TOP_def)



text \<open>C1. Context switching is correct. Let every waiting task \<open>t\<close> have the context \<open>K t\<close> (its registers and flags) in a frame on its own
  stack. When the timer ticks, or the running task yields or exits, the interrupt ends in the context recorded for
  the task that is now current, to the last register; the context of the interrupted task has been recorded for it;
  every other waiting task still has its context; and the scheduler's invariant holds again. A yield continues with
  the task that round robin chooses, an exit never with the exiting task.\<close>

theorem interrupt_switches_context:
  assumes "running lo K cur c s" "vec \<in> {32, 49, 50}" "vec = 50 \<longrightarrow> cur \<noteq> IdleTask"
  shows "\<exists>t s'. interrupt vec err c s = Some (fst ((K(cur := (c, eflags s))) t), s') \<and> eflags s' = snd ((K(cur := (c, eflags s))) t) \<and>
    curTask s' = Some t \<and> sched_inv s' \<and> contexts_ok lo (K(cur := (c, eflags s))) s' \<and> stacks_apart lo s' \<and> idt_ready s' \<and>
    vga_inv s' = vga_inv s \<and> (vec = 49 \<longrightarrow> chosen cur s t) \<and> (vec = 50 \<longrightarrow> t \<noteq> cur)"
  using interrupt_switches [OF assms, of err] unfolding switches_def by blast

theorem interrupt_switches_context_witness:
  "\<exists>s'. interrupt 50 0 cpu_started intr_started = Some (fst (fresh_context 0x30FC8 0x9000), s') \<and> eflags s' = 0x202 \<and>
     curTask s' \<noteq> Some (Task 0) \<and> sched_inv s'"
proof -
  have "running 0x90000 (\<lambda>_. fresh_context 0x30FC8 0x9000) (Task 0) cpu_started intr_started"
    unfolding running_def using intr_started cpu_started by blast
  from interrupt_switches_context [OF this, of 50 0] show ?thesis by (auto simp: fresh_context_def split: if_splits)
qed

text \<open>C16. A created task starts properly. If a slot is free, \<^verbatim>\<open>task_create\<close> leaves the new task waiting with a context of its own: it will
  start at its entry point with interrupts enabled and zeroed registers, and its first return address is \<^verbatim>\<open>task_exit\<close>; the
  contexts of all other waiting tasks are untouched.\<close>

theorem task_create_starts:
  assumes "sched_inv s" "stacks_apart lo s" "contexts_ok lo K s" "ep \<noteq> 0" "free_slot s = Some i"
  shows "\<exists>s'. task_create ep s = (int i, s') \<and> sched_inv s' \<and> waiting s' (Task i) \<and>
    contexts_ok lo (K(Task i := fresh_context (stack_base s i + 4040) ep)) s' \<and>
    load32 (mem s') (of_nat (stack_base s i + 4092)) = task_exit_address s"
  by (rule create_contexts [OF assms])

theorem task_create_starts_witness:
  "\<exists>s'. task_create 0x5000 intr_started = (1, s') \<and> waiting s' (Task 1) \<and> load32 (mem s') 0x20FFC = 0x8000"
  using task_create_starts [OF intr_started(3,5,6) _ intr_started(7), of "0x5000", unfolded intr_started(8,9)] by auto

end
