(* ===== verification/Kernel.thy ===== *)
theory Kernel
  imports Interrupts
begin

text \<open>
  \<^verbatim>\<open>kernel.c\<close>: the kernel's main function, which initialises every component in turn, reports on the screen and enables
  interrupts; after that it halts for ever and all work is done by interrupts. The theorem at the end puts the
  components together: in the state in which the kernel waits for interrupts all their invariants hold at once.
\<close>

section \<open>The code\<close>

definition say :: "string \<Rightarrow> 'a vga_scheme \<Rightarrow> 'a vga_scheme option" where
  "say msg s = map_option snd (fvga_write (msg @ [CHR 0x0A]) [] s)"

text \<open>Everything before the endless loop of \<^verbatim>\<open>hlt\<close>. The end of the kernel image is the linker's symbol.\<close>

definition kmain :: "u32 \<Rightarrow> 'a intr_scheme \<Rightarrow> 'a intr_scheme option" where
  "kmain kernel_end s =
     do { let s = vga_init s;
          s \<leftarrow> say ''Hello, from neilOS!'' s;
          s \<leftarrow> physical_init kernel_end s;
          s \<leftarrow> say ''Physical memory initialized!'' s;
          let s = kmalloc_init s;
          let s = idt_init s;
          s \<leftarrow> say ''IDT initialized!'' s;
          let s = pic_init s;
          s \<leftarrow> say ''PIC initialized!'' s;
          s \<leftarrow> pit_init PIT_FREQUENCY s;
          s \<leftarrow> say ''PIT initialized!'' s;
          let s = keyboard_init s;
          s \<leftarrow> say ''Keyboard initialized!'' s;
          let s = scheduler_init s;
          s \<leftarrow> say ''Scheduler initialized!'' s;
          s \<leftarrow> say ''Interrupts enabled!'' s;
          s \<leftarrow> say ''Tasks created!'' s;
          s \<leftarrow> paging_init s;
          s \<leftarrow> say ''Paging created!'' s;
          Some (s\<lparr>eflags := eflags s OR IF_BIT\<rparr>) }"

section \<open>The linked image\<close>

text \<open>What the linker script and the loader guarantee: the static objects that the model places in memory lie inside the
  image, between 9000h and its end, without overlap; the image ends below the stack; paging is off.\<close>

definition KERNEL_STACK_LOW :: nat where "KERNEL_STACK_LOW = 0x98000"

definition placed :: "u32 \<Rightarrow> (u32 \<times> nat) list \<Rightarrow> bool" where
  "placed kernel_end objs \<longleftrightarrow> (\<forall>(a, n) \<in> set objs. 0x9000 \<le> unat a \<and> unat a + n \<le> unat kernel_end) \<and>
     sorted_wrt (\<lambda>(a, n) (b, k). unat a + n \<le> unat b \<or> unat b + k \<le> unat a) objs"

definition linked :: "u32 \<Rightarrow> 'a intr_scheme \<Rightarrow> bool" where
  "linked kernel_end s \<longleftrightarrow> kernel_end \<le> kernel_end_limit \<and>
     placed kernel_end [(taskStacks s, 15 * 4096), (idleStack s, 4096), (pageDirectory s, 4096), (firstPageTable s, 4096)] \<and>
     4096 dvd unat (pageDirectory s) \<and> 4096 dvd unat (firstPageTable s) \<and>
     length (pageBitMap s) = unat BITMAP_WORD_COUNT \<and> length (idt s) = IDT_ENTRIES \<and> length (tasks s) = MAX_TASKS \<and> cr0 s AND PG_BIT = 0"

definition table_area :: "'a pg_scheme \<Rightarrow> nat set" where
  "table_area s = {4096 * frame (pageDirectory s)..<4096 * frame (pageDirectory s) + 4096} \<union>
     {4096 * frame (firstPageTable s)..<4096 * frame (firstPageTable s) + 4096}"

lemma linked_facts:
  assumes "linked ke s"
  shows "stacks_apart KERNEL_STACK_LOW s" "frame (pageDirectory s) < 256" "frame (firstPageTable s) < 256" "pageDirectory s \<noteq> firstPageTable s"
    "length (pageBitMap s) = 512" "unat (idleStack s) + 4096 \<le> 0x98000" "sched_links s"
    "{unat (idleStack s)..<unat (idleStack s) + 4096} \<inter> table_area s = {}"
    "{unat (taskStacks s)..<unat (taskStacks s) + 15 * 4096} \<inter> table_area s = {}" "table_area s \<subseteq> {..<0x98000}"
proof -
  have ke: "unat ke \<le> 0x98000" using assms by (intro kernel_end_small) (simp add: linked_def)
  have p: "0x9000 \<le> unat (taskStacks s)" "unat (taskStacks s) + 15 * 4096 \<le> unat ke" "0x9000 \<le> unat (idleStack s)"
    "unat (idleStack s) + 4096 \<le> unat ke" "unat (pageDirectory s) + 4096 \<le> unat ke" "unat (firstPageTable s) + 4096 \<le> unat ke"
    and d: "unat (taskStacks s) + 15 * 4096 \<le> unat (idleStack s) \<or> unat (idleStack s) + 4096 \<le> unat (taskStacks s)"
    "unat (idleStack s) + 4096 \<le> unat (pageDirectory s) \<or> unat (pageDirectory s) + 4096 \<le> unat (idleStack s)"
    "unat (idleStack s) + 4096 \<le> unat (firstPageTable s) \<or> unat (firstPageTable s) + 4096 \<le> unat (idleStack s)"
    "unat (pageDirectory s) + 4096 \<le> unat (firstPageTable s) \<or> unat (firstPageTable s) + 4096 \<le> unat (pageDirectory s)"
    "unat (taskStacks s) + 15 * 4096 \<le> unat (pageDirectory s) \<or> unat (pageDirectory s) + 4096 \<le> unat (taskStacks s)"
    "unat (taskStacks s) + 15 * 4096 \<le> unat (firstPageTable s) \<or> unat (firstPageTable s) + 4096 \<le> unat (taskStacks s)"
    using assms by (simp_all add: linked_def placed_def)
  have al: "4096 * frame (pageDirectory s) = unat (pageDirectory s)" "4096 * frame (firstPageTable s) = unat (firstPageTable s)"
    using assms by (simp_all add: linked_def frame_def)
  show links: "sched_links s" using p(1-4) d(1) ke unfolding sched_links_def by auto
  then show "stacks_apart KERNEL_STACK_LOW s" using p(2,4) ke by (simp add: stacks_apart_def KERNEL_STACK_LOW_def)
  show "frame (pageDirectory s) < 256" "frame (firstPageTable s) < 256" using al p(5,6) ke by linarith+
  show "pageDirectory s \<noteq> firstPageTable s" using d(4) by auto
  show "length (pageBitMap s) = 512" using assms by (simp add: linked_def physical_consts)
  show "unat (idleStack s) + 4096 \<le> 0x98000" using p(4) ke by linarith
  show "{unat (idleStack s)..<unat (idleStack s) + 4096} \<inter> table_area s = {}" unfolding table_area_def al using d(2,3) by auto
  show "{unat (taskStacks s)..<unat (taskStacks s) + 15 * 4096} \<inter> table_area s = {}" unfolding table_area_def al using d(5,6) by auto
  show "table_area s \<subseteq> {..<0x98000}" unfolding table_area_def al using p(5,6) ke by auto
qed

section \<open>Printing between the steps\<close>

lemma plain_text: "CHR ''%'' \<notin> set fmt \<Longrightarrow> fmt_text pre fmt args = Some fmt"
  by (induction fmt) auto

text \<open>What has been written so far since the screen was cleared.\<close>

definition wrote :: "string \<Rightarrow> 'a vga_scheme \<Rightarrow> 'b vga_scheme \<Rightarrow> bool" where
  "wrote msgs v s \<longleftrightarrow> vga_inv v \<and> vga_inv s \<and> (\<exists>t. vga_write msgs v = Some t \<and> terminal_text t = terminal_text s)"

lemma say_step:
  assumes "wrote msgs v s" "CHR ''%'' \<notin> set msg"
  shows "\<exists>s'. say msg s = Some s' \<and> wrote (msgs @ msg @ [CHR 0x0A]) v s' \<and> vga_rest s' = vga_rest s"
proof -
  let ?m = "msg @ [CHR 0x0A]"
  obtain t where t: "vga_write msgs v = Some t" "terminal_text t = terminal_text s" and inv: "vga_inv v" "vga_inv s"
    using assms(1) by (auto simp: wrote_def)
  have it: "vga_inv t" using vga_write_shown [OF inv(1), of msgs] t(1) by (auto simp: vga_shown_def)
  obtain s' where s': "vga_write ?m s = Some s'" "vga_shown s'" "vga_rest s' = vga_rest s" using vga_write_shown [OF inv(2)] by blast
  obtain u where u: "vga_write ?m t = Some u" using vga_write_shown [OF it] by blast
  obtain w where w: "vga_write (msgs @ ?m) v = Some w" "terminal_text w = terminal_text u"
    using vga_write_append_text [OF inv(1) t(1) u] by blast
  have "terminal_text u = terminal_text s'" by (rule vga_write_text [OF it inv(2) t(2) u s'(1)])
  moreover have "say msg s = Some s'"
    using plain_text [of ?m] assms(2) s'(1) by (simp add: say_def fvga_write_text)
  ultimately show ?thesis using w s' inv(1) by (simp add: wrote_def vga_shown_def)
qed

section \<open>The stages of initialisation\<close>

text \<open>What the interrupt controllers have been told: vectors 32 to 47, and the keyboard's line open.\<close>

definition pics_ready :: "bool \<Rightarrow> 'a machine_scheme \<Rightarrow> bool" where
  "pics_ready keyboard s \<longleftrightarrow> (\<forall>c. expects (pic_state PIC1 c s) = 0 \<and> offset (pic_state PIC1 c s) = 32 \<and>
     expects (pic_state PIC2 c s) = 0 \<and> offset (pic_state PIC2 c s) = 40 \<and> imr (pic_state PIC2 c s) = 0xFF \<and>
     (keyboard \<longrightarrow> \<not> bit (imr (pic_state PIC1 c s)) 1))"

definition idle_context :: "'a sched_scheme \<Rightarrow> contexts" where
  "idle_context s = (\<lambda>_. fresh_context (unat (idleStack s) + 4040) (idle_entry_address s))"

definition tasks_ready :: "'a sched_scheme \<Rightarrow> bool" where
  "tasks_ready s \<longleftrightarrow> sched_inv s \<and> curTask s = Some (Task 0) \<and> contexts_ok KERNEL_STACK_LOW (idle_context s) s"

text \<open>Stage by stage: page allocator, heap, descriptor table, interrupt controllers, keyboard, scheduler.\<close>

definition stage :: "nat \<Rightarrow> u32 \<Rightarrow> 'a intr_scheme \<Rightarrow> bool" where
  "stage n ke s \<longleftrightarrow> linked ke s \<and> (1 \<le> n \<longrightarrow> phys_inv s \<and> used_pages s = {..<512}) \<and>
     (2 \<le> n \<longrightarrow> heap_inv [(0x100000 - 16, True)] s) \<and> (3 \<le> n \<longrightarrow> idt_ready s) \<and> (4 \<le> n \<longrightarrow> pics_ready (5 \<le> n) s) \<and>
     (6 \<le> n \<longrightarrow> tasks_ready s)"

lemma pages_cong: "pageBitMap s = pageBitMap t \<Longrightarrow> used_pages s = used_pages t" "pageBitMap s = pageBitMap t \<Longrightarrow> free_pages s = free_pages t"
  by (simp_all add: used_pages_def free_pages_def page_used_def)

lemma vga_rest_cong:
  fixes s :: "'a intr_scheme"
  shows "linked ke (vga_rest s) = linked ke s" "phys_inv (vga_rest s) = phys_inv s" "used_pages (vga_rest s) = used_pages s"
    "heap_inv bs (vga_rest s) = heap_inv bs s" "idt_ready (vga_rest s) = idt_ready s" "pics_ready b (vga_rest s) = pics_ready b s"
    "tasks_ready (vga_rest s) = tasks_ready s"
proof -
  have same: "same_sched (vga_rest s) s" "mem (vga_rest s) = mem s" by (simp_all add: same_sched_def vga_rest_def)
  have "pageBitMap (vga_rest s) = pageBitMap s" by (simp add: vga_rest_def)
  note pg = pages_cong [OF this]
  show "linked ke (vga_rest s) = linked ke s" by (simp add: linked_def vga_rest_def)
  show "used_pages (vga_rest s) = used_pages s" "phys_inv (vga_rest s) = phys_inv s"
    using pg by (simp_all add: phys_inv_def) (simp add: vga_rest_def)
  show "heap_inv bs (vga_rest s) = heap_inv bs s" by (simp add: heap_inv_def vga_rest_def)
  show "idt_ready (vga_rest s) = idt_ready s" by (simp add: idt_ready_def vga_rest_def)
  show "pics_ready b (vga_rest s) = pics_ready b s" by (simp add: pics_ready_def pic_state_def vga_rest_def)
  show "tasks_ready (vga_rest s) = tasks_ready s"
    using same_sched(2) [OF same(1)] same_contexts [OF same] by (simp add: tasks_ready_def) (simp add: vga_rest_def idle_context_def)
qed

lemma stage_rest: "stage n ke (vga_rest s) = stage n ke s"
  by (simp add: stage_def vga_rest_cong)

lemma say_stage:
  assumes "stage n ke s" "wrote msgs v s" "CHR ''%'' \<notin> set msg"
  shows "\<exists>s'. say msg s = Some s' \<and> stage n ke s' \<and> wrote (msgs @ msg @ [CHR 0x0A]) v s'"
  using say_step [OF assms(2,3)] assms(1) stage_rest by metis

lemma wrote_cong: "wrote msgs v s \<Longrightarrow> vga_inv s' = vga_inv s \<Longrightarrow> terminal_text s' = terminal_text s \<Longrightarrow> wrote msgs v s'"
  by (simp add: wrote_def)

lemma physical_stage:
  assumes "stage 0 ke s" "wrote msgs v s"
  shows "\<exists>s'. physical_init ke s = Some s' \<and> stage 1 ke s' \<and> wrote msgs v s'"
proof -
  have l: "linked ke s" using assms(1) by (simp add: stage_def)
  obtain s' where s': "physical_init ke s = Some s'" "phys_inv s'" "phys_rest s' = phys_rest s" "used_pages s' = {..<512}"
    using physical_init_inv [OF linked_facts(5) [OF l], of ke] l by (auto simp: linked_def)
  have r: "taskStacks (phys_rest t) = taskStacks t" "idleStack (phys_rest t) = idleStack t" "pageDirectory (phys_rest t) = pageDirectory t"
    "firstPageTable (phys_rest t) = firstPageTable t" "length (idt (phys_rest t)) = length (idt t)" "length (tasks (phys_rest t)) = length (tasks t)"
    "cr0 (phys_rest t) = cr0 t" "vga_inv (phys_rest t) = vga_inv t" "terminal_text (phys_rest t) = terminal_text t" for t :: "'a intr_scheme"
    by (simp_all add: phys_rest_def vga_inv_def screen_shows_window_def max_viewport_def terminal_text_def)
  have "linked ke s'"
    using l r(1-7) [of s'] r(1-7) [of s] s'(2,3) by (simp add: linked_def phys_inv_def physical_consts)
  moreover have "wrote msgs v s'"
    by (rule wrote_cong [OF assms(2)]) (use r(8,9) [of s'] r(8,9) [of s] s'(3) in simp_all)
  ultimately show ?thesis using s' by (simp add: stage_def)
qed

lemma kmalloc_stage:
  assumes "stage 1 ke s" "wrote msgs v s"
  shows "stage 2 ke (kmalloc_init s) \<and> wrote msgs v (kmalloc_init s)"
proof -
  obtain m where m: "kmalloc_init s = s\<lparr>head := heap_start, mem := m\<rparr>" by (simp add: kmalloc_init_def)
  have "pageBitMap (kmalloc_init s) = pageBitMap s" by (simp add: m)
  note pg = pages_cong [OF this]
  have "linked ke (kmalloc_init s)" using assms(1) by (simp add: m stage_def linked_def)
  moreover have "phys_inv (kmalloc_init s)" using assms(1) pg by (simp add: stage_def phys_inv_def) (simp add: m)
  moreover have "wrote msgs v (kmalloc_init s)"
    by (rule wrote_cong [OF assms(2)]) (simp_all add: m vga_inv_def screen_shows_window_def max_viewport_def terminal_text_def)
  ultimately show ?thesis using assms(1) pg kmalloc_init_inv [of s] by (simp add: stage_def)
qed

lemma idt_stage:
  assumes "stage 2 ke s" "wrote msgs v s"
  shows "stage 3 ke (idt_init s) \<and> wrote msgs v (idt_init s)"
proof -
  have "length (idt s) = IDT_ENTRIES" using assms(1) by (simp add: stage_def linked_def)
  from idt_init_spec [OF this] obtain es where es: "idt_init s = s\<lparr>idt := es, idtp := \<lparr>limit = 2047, base = idt_address s\<rparr>, idtr := \<lparr>limit = 2047, base = idt_address s\<rparr>\<rparr>"
    "length es = 256" "idt_ready (idt_init s)" by blast
  have "pageBitMap (idt_init s) = pageBitMap s" by (simp add: es(1))
  note pg = pages_cong [OF this]
  have "linked ke (idt_init s)" "heap_inv bs (idt_init s) = heap_inv bs s" for bs
    using assms(1) es(2) by (simp_all add: es(1) stage_def linked_def heap_inv_def IDT_ENTRIES_def)
  moreover have "phys_inv (idt_init s)" using assms(1) pg by (simp add: stage_def phys_inv_def) (simp add: es(1))
  moreover have "wrote msgs v (idt_init s)"
    by (rule wrote_cong [OF assms(2)]) (simp_all add: es(1) vga_inv_def screen_shows_window_def max_viewport_def terminal_text_def)
  ultimately show ?thesis using assms(1) pg es(3) by (simp add: stage_def)
qed

text \<open>Port traffic concerns the interrupt controllers only.\<close>

lemma ports_stage:
  assumes "stage n ke s" "wrote msgs v s" "4 \<le> n' \<longrightarrow> pics_ready (5 \<le> n') (s\<lparr>in_count := i, out_trace := w\<rparr>)" "n' < 6" "min n' 3 \<le> n"
  shows "stage n' ke (s\<lparr>in_count := i, out_trace := w\<rparr>) \<and> wrote msgs v (s\<lparr>in_count := i, out_trace := w\<rparr>)"
proof -
  let ?s = "s\<lparr>in_count := i, out_trace := w\<rparr>"
  have "pageBitMap ?s = pageBitMap s" by simp
  note pg = pages_cong [OF this]
  have "linked ke ?s = linked ke s" "heap_inv bs ?s = heap_inv bs s" "idt_ready ?s = idt_ready s" "phys_inv ?s = phys_inv s" for bs
    using pg by (simp_all add: linked_def heap_inv_def idt_ready_def phys_inv_def)
  then have "stage n' ke ?s" using assms(1,3-5) pg by (auto simp: stage_def)
  moreover have "wrote msgs v ?s" by (rule wrote_cong [OF assms(2)]) simp_all
  ultimately show ?thesis by simp
qed

lemma pic_stage:
  assumes "stage 3 ke s" "wrote msgs v s"
  shows "stage 4 ke (pic_init s) \<and> wrote msgs v (pic_init s)"
proof -
  have eq: "pic_init s = s\<lparr>in_count := in_count s, out_trace := out_trace (pic_init s)\<rparr>" by (simp add: pic_init_def Let_def outb_def)
  have "pics_ready False (pic_init s)" by (simp add: pics_ready_def pic_init_state)
  then show ?thesis
    using ports_stage [OF assms, where n' = 4 and i = "in_count s" and w = "out_trace (pic_init s)", folded eq] by simp
qed

lemma pit_stage:
  assumes "stage 4 ke s" "wrote msgs v s"
  shows "\<exists>s'. pit_init PIT_FREQUENCY s = Some s' \<and> stage 4 ke s' \<and> wrote msgs v s'"
proof -
  obtain lo hi where p: "pit_init PIT_FREQUENCY s = Some (s\<lparr>out_trace := out_trace s @ [(0x43, 0x36), (0x40, lo), (0x40, hi)]\<rparr>)"
    using pit_init_count [of PIT_FREQUENCY s] by (auto simp: PIT_FREQUENCY_def)
  let ?w = "out_trace s @ [(0x43, 0x36), (0x40, lo), (0x40, hi)]"
  let ?s = "s\<lparr>in_count := in_count s, out_trace := ?w\<rparr>"
  have "pic_state PIC1 c ?s = pic_state PIC1 c s" "pic_state PIC2 c ?s = pic_state PIC2 c s" for c
    by (simp_all add: pic_state_def pic_write_def PIC1_def PIC2_def)
  moreover have "pics_ready False s" using assms(1) by (simp add: stage_def)
  ultimately have "pics_ready False ?s" unfolding pics_ready_def by metis
  then have "stage 4 ke ?s \<and> wrote msgs v ?s" by (intro ports_stage [OF assms]) simp_all
  moreover have "?s = s\<lparr>out_trace := ?w\<rparr>" by simp
  ultimately show ?thesis unfolding p by metis
qed

lemma keyboard_stage:
  assumes "stage 4 ke s" "wrote msgs v s"
  shows "stage 5 ke (keyboard_init s) \<and> wrote msgs v (keyboard_init s)"
proof -
  let ?m = "port_in s (in_count s) PIC1_DATA AND NOT 2"
  have eq: "keyboard_init s = s\<lparr>in_count := Suc (in_count s), out_trace := out_trace s @ [(0x21, ?m)]\<rparr>"
    by (simp add: keyboard_init_def inb_def outb_def PIC1_DATA_def PIC1_def)
  have "\<not> bit ?m 1" by (simp add: bit_simps)
  then have "pics_ready True (keyboard_init s)"
    using assms(1) by (auto simp: eq stage_def pics_ready_def pic_state_def pic_write_def PIC1_def PIC2_def)
  then show ?thesis using ports_stage [OF assms, where n' = 5 and i = "Suc (in_count s)"] by (simp add: eq)
qed

text \<open>Memory that is written outside the heap leaves the heap alone.\<close>

lemma heap_outside:
  assumes "heap_inv bs s" "changes_only S (mem s) (mem t)" "S \<subseteq> {..<0x98000}" "head t = head s"
  shows "heap_inv bs t"
proof -
  have e: "extent bs = 0x100000" "chain (mem s) HEAP_BASE bs" using assms(1) by (simp_all add: heap_inv_def)
  have "chain (mem t) HEAP_BASE bs"
    by (rule chain_cong [OF e(2) assms(2)]) (use assms(3) in \<open>auto simp: e(1) HEAP_BASE_def\<close>)
  with assms(1,4) show ?thesis by (simp add: heap_inv_def)
qed

lemma scheduler_stage:
  assumes "stage 5 ke s" "wrote msgs v s"
  shows "stage 6 ke (scheduler_init s) \<and> wrote msgs v (scheduler_init s)"
proof -
  let ?s = "scheduler_init s"
  have l: "linked ke s" using assms(1) by (simp add: stage_def)
  note f = linked_facts [OF l]
  have len: "length (tasks s) = MAX_TASKS" using l by (simp add: linked_def)
  obtain m' where m': "?s = s\<lparr>mem := m',
      tasks := \<lparr>tid = 0, esp = 0, tstate = TASK_RUNNING, tnext = 0\<rparr> # replicate 15 \<lparr>tid = 0, esp = 0, tstate = TASK_TERMINATED, tnext = 0\<rparr>,
      idleTask := (idleTask s)\<lparr>tid := - 1, esp := of_nat (unat (idleStack s) + 4040), tstate := TASK_READY, tnext := 0\<rparr>,
      curTask := Some (Task 0), nextTaskID := 1, schedulerTicks := 0\<rparr>"
    "changes_only {unat (idleStack s) + 4040..<unat (idleStack s) + 4096} (mem s) m'"
    using scheduler_init_spec [OF f(7) len] by (elim exE conjE)
  have sel: "pageBitMap ?s = pageBitMap s" "freePages ?s = freePages s" "mem ?s = m'" "head ?s = head s" "idleStack ?s = idleStack s"
    "idle_entry_address ?s = idle_entry_address s" "curTask ?s = Some (Task 0)" "out_trace ?s = out_trace s" by (simp_all add: m'(1))
  note pg = pages_cong [OF sel(1)]
  have "linked ke ?s" using l by (simp add: m'(1) linked_def MAX_TASKS_def)
  moreover have "phys_inv ?s = phys_inv s" using pg by (simp add: phys_inv_def sel)
  moreover have "heap_inv [(0x100000 - 16, True)] ?s"
  proof (rule heap_outside)
    show "heap_inv [(0x100000 - 16, True)] s" using assms(1) by (simp add: stage_def)
    show "changes_only {unat (idleStack s) + 4040..<unat (idleStack s) + 4096} (mem s) (mem ?s)" using m'(2) by (simp add: sel)
  qed (use f(6) sel(4) in auto)
  moreover have "idt_ready ?s = idt_ready s" by (simp add: m'(1) idt_ready_def)
  moreover have "pics_ready True ?s = pics_ready True s" by (simp add: pics_ready_def pic_state_def sel)
  moreover have "tasks_ready ?s"
    using init_inv [OF f(7) len] init_contexts [OF f(1) len] by (simp add: tasks_ready_def idle_context_def sel)
  moreover have "wrote msgs v ?s"
    by (rule wrote_cong [OF assms(2)]) (simp_all add: m'(1) vga_inv_def screen_shows_window_def max_viewport_def terminal_text_def)
  ultimately show ?thesis using assms(1) pg by (simp add: stage_def)
qed

lemma stacks_outside_tables:
  assumes "linked ke s" "waiting s u"
  shows "stack_area KERNEL_STACK_LOW s u \<inter> table_area s = {}"
proof -
  note f = linked_facts [OF assms(1)]
  show ?thesis
  proof (cases u)
    case (Task i)
    show ?thesis
    proof (cases "i = 0")
      case True
      with Task f(10) show ?thesis by (auto simp: KERNEL_STACK_LOW_def)
    next
      case False
      then have "stack_area KERNEL_STACK_LOW s u \<subseteq> {unat (taskStacks s)..<unat (taskStacks s) + 15 * 4096}"
        using Task assms(2) task_area_within [of i "unat (taskStacks s)"] by simp
      with f(9) show ?thesis by blast
    qed
  qed (use f(8) in simp)
qed

text \<open>With paging on, everything is in place.\<close>

definition booted :: "'a intr_scheme \<Rightarrow> bool" where
  "booted s \<longleftrightarrow> pg_inv s \<and> address_space s = (\<lambda>p. if p < 1024 then Some (entry p) else None) \<and> used_pages s = {..<512} \<and>
     heap_inv [(0x100000 - 16, True)] s \<and> idt_ready s \<and> pics_ready True s \<and> tasks_ready s \<and> stacks_apart KERNEL_STACK_LOW s"

lemma paging_stage:
  assumes "stage 6 ke s" "wrote msgs v s"
  shows "\<exists>s'. paging_init s = Some s' \<and> booted s' \<and> wrote msgs v s'"
proof -
  have st: "linked ke s" "phys_inv s" "used_pages s = {..<512}" "heap_inv [(0x100000 - 16, True)] s" "idt_ready s" "pics_ready True s" "tasks_ready s"
    using assms(1) by (simp_all add: stage_def)
  note f = linked_facts [OF st(1)]
  obtain m' where m': "paging_init s = Some (paging_enable (paging_load_cr3 (pageDirectory s) (s\<lparr>mem := m'\<rparr>)))"
    "pg_inv (paging_enable (paging_load_cr3 (pageDirectory s) (s\<lparr>mem := m'\<rparr>)))"
    "leaf m' (frame (pageDirectory s)) = (\<lambda>p. if p < 1024 then Some (entry p) else None)" "changes_only (table_area s) (mem s) m'"
    unfolding table_area_def using paging_init_spec [of s] f(2-4) st(1-3) by (auto simp: linked_def)
  let ?s = "paging_enable (paging_load_cr3 (pageDirectory s) (s\<lparr>mem := m'\<rparr>))"
  have eq: "?s = s\<lparr>mem := m', cr3 := pageDirectory s, cr0 := cr0 s OR 0x80000000, tlb := Map.empty\<rparr>"
    by (simp add: paging_enable_def paging_load_cr3_def)
  have same: "same_sched s ?s" "mem ?s = m'" "pageBitMap ?s = pageBitMap s" "head ?s = head s" "idle_context ?s = idle_context s"
    unfolding eq by (simp_all add: same_sched_def idle_context_def)
  have "address_space ?s = (\<lambda>p. if p < 1024 then Some (entry p) else None)"
    using m'(3) by (simp add: address_space_def eq)
  moreover have "heap_inv [(0x100000 - 16, True)] ?s" using heap_outside [OF st(4) _ f(10)] m'(4) same(2,4) by metis
  moreover have "contexts_ok KERNEL_STACK_LOW (idle_context ?s) ?s"
    by (rule contexts_outside [OF _ f(1) _ stacks_outside_tables [OF st(1)] same(1)])
      (use st(7) m'(4) in \<open>simp_all add: same tasks_ready_def\<close>)
  then have "tasks_ready ?s" using st(7) same_sched(2) [OF same(1)] same(1) by (simp add: tasks_ready_def same_sched_def)
  moreover have "idt_ready ?s" "pics_ready True ?s" using st(5,6) by (simp_all add: eq idt_ready_def pics_ready_def pic_state_def)
  moreover have "stacks_apart KERNEL_STACK_LOW ?s" using f(1) same_sched(6) [OF same(1)] by simp
  moreover have "wrote msgs v ?s"
    by (rule wrote_cong [OF assms(2)]) (simp_all add: eq vga_inv_def screen_shows_window_def max_viewport_def terminal_text_def)
  ultimately show ?thesis using m'(1,2) st(3) pages_cong(1) [OF same(3)] by (simp add: booted_def)
qed

lemma booted_rest:
  assumes "vga_rest s' = vga_rest s"
  shows "booted s' = booted s"
proof -
  have "taskStacks (vga_rest t) = taskStacks t" "idleStack (vga_rest t) = idleStack t" for t :: "'a intr_scheme" by (simp_all add: vga_rest_def)
  from this [of s] this [of s'] have "stacks_apart KERNEL_STACK_LOW s' = stacks_apart KERNEL_STACK_LOW s"
    by (simp add: stacks_apart_def sched_links_def assms)
  moreover have "heap_inv bs s' = heap_inv bs s" "idt_ready s' = idt_ready s" "pics_ready b s' = pics_ready b s" "tasks_ready s' = tasks_ready s" for bs b
    using vga_rest_cong(4-7) assms by metis+
  ultimately show ?thesis using pg_inv_vga(1-3) [OF assms] by (simp add: booted_def)
qed

lemma booted_sti: "booted (s\<lparr>eflags := f\<rparr>) = booted s"
proof -
  have same: "same_sched (s\<lparr>eflags := f\<rparr>) s" "mem (s\<lparr>eflags := f\<rparr>) = mem s" by (simp_all add: same_sched_def)
  have "pageBitMap (s\<lparr>eflags := f\<rparr>) = pageBitMap s" by simp
  note pg = pages_cong [OF this]
  have "tasks_ready (s\<lparr>eflags := f\<rparr>) = tasks_ready s"
    using same_sched(2) [OF same(1)] same_contexts [OF same] by (simp add: tasks_ready_def idle_context_def)
  moreover have "stacks_apart KERNEL_STACK_LOW (s\<lparr>eflags := f\<rparr>) = stacks_apart KERNEL_STACK_LOW s" by (rule same_sched(6) [OF same(1)])
  ultimately show ?thesis
    using pg by (simp add: booted_def pg_inv_def pg_core_def phys_inv_def address_space_def tlb_coherent_def heap_inv_def idt_ready_def
      pics_ready_def pic_state_def)
qed

text \<open>The messages, one line each.\<close>

definition banner :: "string list" where
  "banner = [''Hello, from neilOS!'', ''Physical memory initialized!'', ''IDT initialized!'', ''PIC initialized!'', ''PIT initialized!'',
     ''Keyboard initialized!'', ''Scheduler initialized!'', ''Interrupts enabled!'', ''Tasks created!'', ''Paging created!'']"

definition lines_text :: "string list \<Rightarrow> string" where
  "lines_text ls = concat (map (\<lambda>l. l @ [CHR 0x0A]) ls)"

lemma lines_text_snoc: "lines_text ls @ l @ [CHR 0x0A] = lines_text (ls @ [l])"
  by (simp add: lines_text_def)

lemma say_line:
  assumes "stage n ke s" "wrote (lines_text ls) v s" "CHR ''%'' \<notin> set l"
  shows "\<exists>s'. say l s = Some s' \<and> stage n ke s' \<and> wrote (lines_text (ls @ [l])) v s'"
  using say_stage [OF assms] by (simp only: lines_text_snoc)

lemma kmain_stages:
  assumes "linked ke s"
  shows "\<exists>s'. kmain ke s = Some s' \<and> booted s' \<and> wrote (lines_text banner) (vga_init s) s' \<and> interrupts_enabled s'"
proof -
  let ?v = "vga_init s"
  have "linked ke ?v = linked ke s" by (simp add: linked_def vga_init_def vga_clear_def)
  then have s0: "stage 0 ke ?v" using assms by (simp add: stage_def)
  have "vga_inv ?v" by (simp add: vga_init_def vga_clear_shown)
  moreover obtain t where t: "vga_write [] ?v = Some t" using vga_write_shown [OF \<open>vga_inv ?v\<close>] by blast
  ultimately have w0: "wrote (lines_text []) ?v ?v" using vga_write_Nil_text [OF t] by (simp add: wrote_def lines_text_def)
  obtain s1 where s1: "say ''Hello, from neilOS!'' ?v = Some s1" "stage 0 ke s1" "wrote (lines_text (take 1 banner)) ?v s1"
    using say_line [OF s0 w0, of "''Hello, from neilOS!''"] by (auto simp: banner_def)
  obtain s2 where s2: "physical_init ke s1 = Some s2" "stage 1 ke s2" "wrote (lines_text (take 1 banner)) ?v s2"
    using physical_stage [OF s1(2,3)] by blast
  obtain s3 where s3: "say ''Physical memory initialized!'' s2 = Some s3" "stage 1 ke s3" "wrote (lines_text (take 2 banner)) ?v s3"
    using say_line [OF s2(2,3), of "''Physical memory initialized!''"] by (auto simp: banner_def)
  have s4: "stage 3 ke (idt_init (kmalloc_init s3))" "wrote (lines_text (take 2 banner)) ?v (idt_init (kmalloc_init s3))"
    using kmalloc_stage [OF s3(2,3)] idt_stage [of ke "kmalloc_init s3"] by blast+
  obtain s5 where s5: "say ''IDT initialized!'' (idt_init (kmalloc_init s3)) = Some s5" "stage 3 ke s5" "wrote (lines_text (take 3 banner)) ?v s5"
    using say_line [OF s4, of "''IDT initialized!''"] by (auto simp: banner_def)
  obtain s6 where s6: "say ''PIC initialized!'' (pic_init s5) = Some s6" "stage 4 ke s6" "wrote (lines_text (take 4 banner)) ?v s6"
    using say_line [of 4 ke "pic_init s5" "take 3 banner" ?v "''PIC initialized!''"] pic_stage [OF s5(2,3)] by (auto simp: banner_def)
  obtain s7 where s7: "pit_init PIT_FREQUENCY s6 = Some s7" "stage 4 ke s7" "wrote (lines_text (take 4 banner)) ?v s7"
    using pit_stage [OF s6(2,3)] by blast
  obtain s8 where s8: "say ''PIT initialized!'' s7 = Some s8" "stage 4 ke s8" "wrote (lines_text (take 5 banner)) ?v s8"
    using say_line [OF s7(2,3), of "''PIT initialized!''"] by (auto simp: banner_def)
  obtain s9 where s9: "say ''Keyboard initialized!'' (keyboard_init s8) = Some s9" "stage 5 ke s9" "wrote (lines_text (take 6 banner)) ?v s9"
    using say_line [of 5 ke "keyboard_init s8" "take 5 banner" ?v "''Keyboard initialized!''"] keyboard_stage [OF s8(2,3)] by (auto simp: banner_def)
  obtain s10 where s10: "say ''Scheduler initialized!'' (scheduler_init s9) = Some s10" "stage 6 ke s10" "wrote (lines_text (take 7 banner)) ?v s10"
    using say_line [of 6 ke "scheduler_init s9" "take 6 banner" ?v "''Scheduler initialized!''"] scheduler_stage [OF s9(2,3)] by (auto simp: banner_def)
  obtain s11 where s11: "say ''Interrupts enabled!'' s10 = Some s11" "stage 6 ke s11" "wrote (lines_text (take 8 banner)) ?v s11"
    using say_line [OF s10(2,3), of "''Interrupts enabled!''"] by (auto simp: banner_def)
  obtain s12 where s12: "say ''Tasks created!'' s11 = Some s12" "stage 6 ke s12" "wrote (lines_text (take 9 banner)) ?v s12"
    using say_line [OF s11(2,3), of "''Tasks created!''"] by (auto simp: banner_def)
  obtain s13 where s13: "paging_init s12 = Some s13" "booted s13" "wrote (lines_text (take 9 banner)) ?v s13"
    using paging_stage [OF s12(2,3)] by blast
  obtain s14 where s14: "say ''Paging created!'' s13 = Some s14" "wrote (lines_text (take 9 banner) @ ''Paging created!'' @ [CHR 0x0A]) ?v s14" "vga_rest s14 = vga_rest s13"
    using say_step [OF s13(3), of "''Paging created!''"] by auto
  let ?s = "s14\<lparr>eflags := eflags s14 OR IF_BIT\<rparr>"
  have "kmain ke s = Some ?s"
    by (simp add: kmain_def s1(1) s2(1) s3(1) s5(1) s6(1) s7(1) s8(1) s9(1) s10(1) s11(1) s12(1) s13(1) s14(1))
  moreover have "booted ?s" using s13(2) booted_rest [OF s14(3)] by (simp add: booted_sti)
  moreover have "wrote (lines_text banner) ?v ?s"
    using s14(2) by (simp only: lines_text_snoc) (simp add: banner_def wrote_def)
  moreover have "interrupts_enabled ?s"
  proof -
    have "bit ((eflags s14 OR IF_BIT) AND IF_BIT) 9" by (simp add: IF_BIT_def bit_simps)
    then show ?thesis by (auto simp: interrupts_enabled_def)
  qed
  ultimately show ?thesis by blast
qed

end
