(* ===== verification/Segments.thy ===== *)
theory Segments
  imports Interrupts
begin

text \<open>
  \<^verbatim>\<open>kernel/arch/x86/gdt.asm\<close> and \<^verbatim>\<open>gdt.h\<close>: the kernel's descriptor table and the routine that makes the processor use it. A
  segment register can only be loaded with a selector whose descriptor the processor accepts; anything else is a
  protection fault, that is \<open>None\<close>. The theory shows that the table describes the flat segments its comments describe,
  that loading them cannot fault, and that the routine returns with all segment registers reloaded. The accessed bit,
  which the processor sets in a descriptor it has loaded, has no effect on any of this and is left out.
\<close>

section \<open>Descriptors\<close>

record gdt_ptr =
  gdt_limit :: u16
  gdt_base :: u32

record segments =
  DS :: u16
  ES :: u16
  FS :: u16
  GS :: u16
  SS :: u16
  GDTR :: gdt_ptr

definition load16 :: "memory \<Rightarrow> u32 \<Rightarrow> u16" where
  "load16 m a = ucast (m a) OR push_bit 8 (ucast (m (a + 1)))"

definition load64 :: "memory \<Rightarrow> u32 \<Rightarrow> u64" where
  "load64 m a = ucast (load32 m a) OR push_bit 32 (ucast (load32 m (a + 4)))"

definition descriptor_base :: "u64 \<Rightarrow> u32" where
  "descriptor_base d = ucast (drop_bit 16 d AND 0xFFFFFF) OR push_bit 24 (ucast (drop_bit 56 d))"

definition descriptor_limit :: "u64 \<Rightarrow> nat" where
  "descriptor_limit d =
     (let l = unat (d AND 0xFFFF) + 65536 * unat (drop_bit 48 d AND 0xF) in if bit d 55 then 4096 * l + 4095 else l)"

definition descriptor_dpl :: "u64 \<Rightarrow> nat" where
  "descriptor_dpl d = unat (drop_bit 45 d AND 3)"

text \<open>Present code or data segment: bits 47 and 44. Code is bit 43; bit 42 makes it conforming, and makes data grow down;
  bit 41 makes code readable and data writable; bit 54 makes it a 32-bit segment.\<close>

definition is_code :: "u64 \<Rightarrow> bool" where
  "is_code d \<longleftrightarrow> bit d 47 \<and> bit d 44 \<and> bit d 43"

definition is_data :: "u64 \<Rightarrow> bool" where
  "is_data d \<longleftrightarrow> bit d 47 \<and> bit d 44 \<and> \<not> bit d 43"

definition flat :: "u64 \<Rightarrow> bool" where
  "flat d \<longleftrightarrow> descriptor_base d = 0 \<and> descriptor_limit d = 0xFFFFFFFF \<and> bit d 54 \<and> \<not> bit d 42"

section \<open>Loading segment registers\<close>

text \<open>The descriptor a selector leads to: bits 3 to 15 are the index; bit 2 set means the local table, which is not used.\<close>

definition descriptor :: "memory \<Rightarrow> gdt_ptr \<Rightarrow> u16 \<Rightarrow> u64 option" where
  "descriptor m g sel =
     (let i = unat (drop_bit 3 sel)
      in if i \<noteq> 0 \<and> \<not> bit sel 2 \<and> 8 * i + 7 \<le> unat (gdt_limit g) then Some (load64 m (gdt_base g + of_nat (8 * i))) else None)"

definition rpl :: "u16 \<Rightarrow> nat" where
  "rpl sel = unat (sel AND 3)"

definition data_loadable :: "memory \<Rightarrow> gdt_ptr \<Rightarrow> nat \<Rightarrow> u16 \<Rightarrow> bool" where
  "data_loadable m g cpl sel =
     (case descriptor m g sel of
        None \<Rightarrow> drop_bit 3 sel = 0 \<and> \<not> bit sel 2
      | Some d \<Rightarrow> (is_data d \<or> is_code d \<and> bit d 41) \<and> (is_code d \<and> bit d 42 \<or> max cpl (rpl sel) \<le> descriptor_dpl d))"

definition stack_loadable :: "memory \<Rightarrow> gdt_ptr \<Rightarrow> nat \<Rightarrow> u16 \<Rightarrow> bool" where
  "stack_loadable m g cpl sel =
     (case descriptor m g sel of None \<Rightarrow> False | Some d \<Rightarrow> is_data d \<and> bit d 41 \<and> rpl sel = cpl \<and> descriptor_dpl d = cpl)"

definition code_loadable :: "memory \<Rightarrow> gdt_ptr \<Rightarrow> nat \<Rightarrow> u16 \<Rightarrow> bool" where
  "code_loadable m g cpl sel =
     (case descriptor m g sel of
        None \<Rightarrow> False
      | Some d \<Rightarrow> is_code d \<and> (if bit d 42 then descriptor_dpl d \<le> cpl else rpl sel \<le> cpl \<and> descriptor_dpl d = cpl))"

text \<open>\<^verbatim>\<open>mov ds, ax\<close> and so on to \<^verbatim>\<open>mov ss, ax\<close>, in ring 0.\<close>

definition load_data_segments :: "u16 \<Rightarrow> memory \<Rightarrow> segments \<Rightarrow> segments option" where
  "load_data_segments ax m g =
     do { guard (data_loadable m (GDTR g) 0 ax); let g = g\<lparr>DS := ax\<rparr>;
          guard (data_loadable m (GDTR g) 0 ax); let g = g\<lparr>ES := ax\<rparr>;
          guard (data_loadable m (GDTR g) 0 ax); let g = g\<lparr>FS := ax\<rparr>;
          guard (data_loadable m (GDTR g) 0 ax); let g = g\<lparr>GS := ax\<rparr>;
          guard (stack_loadable m (GDTR g) 0 ax); Some (g\<lparr>SS := ax\<rparr>) }"

definition lgdt :: "memory \<Rightarrow> u32 \<Rightarrow> segments \<Rightarrow> segments" where
  "lgdt m a g = g\<lparr>GDTR := \<lparr>gdt_limit = load16 m a, gdt_base = load32 m (a + 2)\<rparr>\<rparr>"

section \<open>The code\<close>

definition GDT_KERNEL_CODE :: u16 where "GDT_KERNEL_CODE = 0x08"
definition GDT_KERNEL_DATA :: u16 where "GDT_KERNEL_DATA = 0x10"
definition GDT_USER_CODE :: u16 where "GDT_USER_CODE = 0x1B"
definition GDT_USER_DATA :: u16 where "GDT_USER_DATA = 0x23"

definition kernel_gdt :: "u64 list" where
  "kernel_gdt = [0x0000000000000000, 0x00CF9A000000FFFF, 0x00CF92000000FFFF, 0x00CFFA000000FFFF, 0x00CFF2000000FFFF]"

text \<open>The pseudo-descriptor in memory: the offset of the table's last byte and its address.\<close>

definition gdt_image :: "u64 list \<Rightarrow> u32 \<Rightarrow> u32 \<Rightarrow> memory \<Rightarrow> bool" where
  "gdt_image ds table ptr m \<longleftrightarrow> (\<forall>i < length ds. load64 m (table + of_nat (8 * i)) = ds ! i) \<and>
     load16 m ptr = of_nat (8 * length ds - 1) \<and> load32 m (ptr + 2) = table"

definition gdt_flush :: "cpu \<times> segments \<times> 'a machine_scheme \<Rightarrow> (cpu \<times> segments \<times> 'a machine_scheme) option" where
  "gdt_flush = (\<lambda>(c, g, s).
     do { let eax = load32 (mem s) (ESP c + 4);
          let g = lgdt (mem s) eax g;
          let c = c\<lparr>EAX := (eax AND 0xFFFF0000) OR 0x10\<rparr>;
          g \<leftarrow> load_data_segments (ucast (EAX c)) (mem s) g;
          guard (code_loadable (mem s) (GDTR g) 0 0x08);
          let c = c\<lparr>CS := 0x08\<rparr>;
          Some (c\<lparr>EIP := load32 (mem s) (ESP c), ESP := ESP c + 4\<rparr>, g, s) })"

section \<open>The table\<close>

lemma kernel_gdt_flat:
  "flat (kernel_gdt ! 1)" "flat (kernel_gdt ! 2)" "flat (kernel_gdt ! 3)" "flat (kernel_gdt ! 4)"
  by (simp_all add: kernel_gdt_def flat_def descriptor_base_def descriptor_limit_def Let_def)

lemma kernel_gdt_kinds:
  "is_code (kernel_gdt ! 1)" "is_data (kernel_gdt ! 2)" "is_code (kernel_gdt ! 3)" "is_data (kernel_gdt ! 4)"
  "descriptor_dpl (kernel_gdt ! 1) = 0" "descriptor_dpl (kernel_gdt ! 2) = 0" "descriptor_dpl (kernel_gdt ! 3) = 3" "descriptor_dpl (kernel_gdt ! 4) = 3"
  by (simp_all add: kernel_gdt_def is_code_def is_data_def descriptor_dpl_def)

text \<open>The selectors of \<^verbatim>\<open>gdt.h\<close> lead to the descriptors of their kind and ask for no more privilege than they have.\<close>

definition selector_index :: "u16 \<Rightarrow> nat" where
  "selector_index sel = unat (drop_bit 3 sel)"

lemma gdt_selectors:
  "selector_index GDT_KERNEL_CODE = 1" "selector_index GDT_KERNEL_DATA = 2" "selector_index GDT_USER_CODE = 3" "selector_index GDT_USER_DATA = 4"
  "sel \<in> {GDT_KERNEL_CODE, GDT_KERNEL_DATA, GDT_USER_CODE, GDT_USER_DATA} \<Longrightarrow> rpl sel = descriptor_dpl (kernel_gdt ! selector_index sel)"
  by (auto simp: selector_index_def rpl_def GDT_KERNEL_CODE_def GDT_KERNEL_DATA_def GDT_USER_CODE_def GDT_USER_DATA_def
      kernel_gdt_def descriptor_dpl_def)

section \<open>Flat segments\<close>

text \<open>A table that starts like the kernel's, which is what both loaders use.\<close>

definition flat_table :: "u64 list \<Rightarrow> bool" where
  "flat_table ents \<longleftrightarrow> 3 \<le> length ents \<and> length ents \<le> 8192 \<and> ents ! 1 = kernel_gdt ! 1 \<and> ents ! 2 = kernel_gdt ! 2"

lemma flat_table_kernel: "flat_table kernel_gdt"
  by (simp add: flat_table_def kernel_gdt_def)

text \<open>All segments are flat, in ring 0.\<close>

definition flat_segments :: "memory \<Rightarrow> cpu \<Rightarrow> segments \<Rightarrow> bool" where
  "flat_segments m c g \<longleftrightarrow> DS g = GDT_KERNEL_DATA \<and> ES g = GDT_KERNEL_DATA \<and> FS g = GDT_KERNEL_DATA \<and> GS g = GDT_KERNEL_DATA \<and>
     SS g = GDT_KERNEL_DATA \<and> CS c = ucast GDT_KERNEL_CODE \<and>
     (\<exists>d. descriptor m (GDTR g) GDT_KERNEL_CODE = Some d \<and> is_code d \<and> flat d \<and> descriptor_dpl d = 0) \<and>
     (\<exists>d. descriptor m (GDTR g) GDT_KERNEL_DATA = Some d \<and> is_data d \<and> bit d 41 \<and> flat d \<and> descriptor_dpl d = 0)"

lemma descriptor_image:
  assumes "gdt_image ents table ptr m" "flat_table ents"
  shows "descriptor m \<lparr>gdt_limit = load16 m ptr, gdt_base = load32 m (ptr + 2)\<rparr> 0x08 = Some (kernel_gdt ! 1)"
    "descriptor m \<lparr>gdt_limit = load16 m ptr, gdt_base = load32 m (ptr + 2)\<rparr> 0x10 = Some (kernel_gdt ! 2)"
proof -
  have l: "unat (load16 m ptr) = 8 * length ents - 1"
  proof -
    have "unat (of_nat (8 * length ents - 1) :: u16) = 8 * length ents - 1"
      by (rule unat_of_nat_small) (use assms(2) in \<open>auto simp: flat_table_def\<close>)
    then show ?thesis using assms(1) by (simp only: gdt_image_def)
  qed
  have t: "load32 m (ptr + 2) = table" and n: "3 \<le> length ents" using assms by (simp_all add: gdt_image_def flat_table_def)
  have "load64 m (table + 8) = kernel_gdt ! 1" "load64 m (table + 16) = kernel_gdt ! 2"
    using assms by (auto simp: gdt_image_def flat_table_def dest: spec [of _ 1] spec [of _ 2])
  then show "descriptor m \<lparr>gdt_limit = load16 m ptr, gdt_base = load32 m (ptr + 2)\<rparr> 0x08 = Some (kernel_gdt ! 1)"
    "descriptor m \<lparr>gdt_limit = load16 m ptr, gdt_base = load32 m (ptr + 2)\<rparr> 0x10 = Some (kernel_gdt ! 2)"
    using t n by (simp_all add: descriptor_def Let_def l)
qed

lemma kernel_data_writable: "bit (kernel_gdt ! 2) 41"
  by (simp add: kernel_gdt_def)

lemma image_loadable:
  assumes "gdt_image ents table ptr m" "flat_table ents" "GDTR g = \<lparr>gdt_limit = load16 m ptr, gdt_base = load32 m (ptr + 2)\<rparr>"
  shows "load_data_segments 0x10 m g = Some (g\<lparr>DS := 0x10, ES := 0x10, FS := 0x10, GS := 0x10, SS := 0x10\<rparr>)"
    "code_loadable m (GDTR g) 0 0x08"
proof -
  note d = descriptor_image [OF assms(1,2)]
  have r: "rpl 0x10 = 0" "rpl 0x08 = 0" by (simp_all add: rpl_def)
  have "data_loadable m (GDTR g) 0 0x10" "stack_loadable m (GDTR g) 0 0x10"
    using kernel_gdt_kinds kernel_data_writable by (simp_all add: data_loadable_def stack_loadable_def assms(3) d r)
  then show "load_data_segments 0x10 m g = Some (g\<lparr>DS := 0x10, ES := 0x10, FS := 0x10, GS := 0x10, SS := 0x10\<rparr>)"
    by (simp add: load_data_segments_def)
  show "code_loadable m (GDTR g) 0 0x08"
    using kernel_gdt_kinds by (simp add: code_loadable_def assms(3) d r kernel_gdt_def)
qed

lemma image_flat:
  assumes "gdt_image ents table ptr m" "flat_table ents" "GDTR g = \<lparr>gdt_limit = load16 m ptr, gdt_base = load32 m (ptr + 2)\<rparr>"
    "CS c = 0x08" "DS g = 0x10" "ES g = 0x10" "FS g = 0x10" "GS g = 0x10" "SS g = 0x10"
  shows "flat_segments m c g"
  using assms kernel_gdt_kinds kernel_gdt_flat kernel_data_writable descriptor_image [OF assms(1,2)]
  by (simp add: flat_segments_def GDT_KERNEL_DATA_def GDT_KERNEL_CODE_def)

lemma gdt_flush_loads:
  assumes "gdt_image ents table ptr (mem s)" "flat_table ents" "load32 (mem s) (ESP c + 4) = ptr"
  shows "gdt_flush (c, g, s) = Some (c\<lparr>EAX := (ptr AND 0xFFFF0000) OR 0x10, CS := 0x08, EIP := load32 (mem s) (ESP c), ESP := ESP c + 4\<rparr>,
    \<lparr>DS = 0x10, ES = 0x10, FS = 0x10, GS = 0x10, SS = 0x10, GDTR = \<lparr>gdt_limit = load16 (mem s) ptr, gdt_base = load32 (mem s) (ptr + 2)\<rparr>\<rparr>, s)"
proof -
  let ?g = "lgdt (mem s) ptr g"
  have g: "GDTR ?g = \<lparr>gdt_limit = load16 (mem s) ptr, gdt_base = load32 (mem s) (ptr + 2)\<rparr>" by (simp add: lgdt_def)
  have ax: "ucast ((ptr AND 0xFFFF0000) OR 0x10) = (0x10 :: u16)"
  proof -
    have "ucast (0xFFFF0000 :: u32) = (0 :: u16)" by simp
    then show ?thesis by (simp only: unsigned_or_eq unsigned_and_eq) simp
  qed
  show ?thesis
    using image_loadable [OF assms(1,2) g] assms(3)
    by (simp add: gdt_flush_def ax Let_def) (simp add: lgdt_def)
qed

end
