(* ===== verification/Serial.thy ===== *)
theory Serial
  imports Machine
begin

text \<open>
  The serial port routines of \<^verbatim>\<open>kernel/main.asm\<close>, with which the kernel reports that it has been reached. The registers
  they save are restored before they return, so they are functions of the machine alone. Waiting for the transmitter
  may take for ever: the wait loop and the loop over the string are partial functions, and that they return when
  the transmitter does become ready is part of the theorem.
\<close>

section \<open>The code\<close>

definition COM1 :: u16 where "COM1 = 0x03F8"

definition serial_init :: "'a machine_scheme \<Rightarrow> 'a machine_scheme" where
  "serial_init s =
     (let s = outb (COM1 + 1) 0x00 s;
          s = outb (COM1 + 3) 0x80 s;
          s = outb (COM1 + 0) 0x0C s;
          s = outb (COM1 + 1) 0x00 s;
          s = outb (COM1 + 3) 3 s;
          s = outb (COM1 + 2) 0xC7 s
      in outb (COM1 + 4) 0x0B s)"

partial_function (option) serial_wait :: "'a machine_scheme \<Rightarrow> 'a machine_scheme option" where
  "serial_wait s = (let (al, s) = inb (COM1 + 5) s in if al AND 0x20 = 0 then serial_wait s else Some s)"

definition serial_putc :: "u8 \<Rightarrow> 'a machine_scheme \<Rightarrow> 'a machine_scheme option" where
  "serial_putc al s = map_option (outb COM1 al) (serial_wait s)"

partial_function (option) serial_puts :: "u32 \<Rightarrow> 'a machine_scheme \<Rightarrow> 'a machine_scheme option" where
  "serial_puts esi s =
     (let al = mem s esi
      in if al = 0 then Some s else do { s \<leftarrow> serial_putc al s; serial_puts (esi + 1) s })"

section \<open>Waiting\<close>

text \<open>However often the line status is read, a later reading shows the transmitter empty.\<close>

definition transmitter_lives :: "'a machine_scheme \<Rightarrow> bool" where
  "transmitter_lives s \<longleftrightarrow> (\<forall>n. \<exists>k. port_in s (n + k) (COM1 + 5) AND 0x20 \<noteq> 0)"

lemma serial_wait_ready:
  assumes "port_in s (in_count s + k) (COM1 + 5) AND 0x20 \<noteq> 0"
  shows "\<exists>n. serial_wait s = Some (s\<lparr>in_count := n\<rparr>)"
  using assms
proof (induction k arbitrary: s)
  case 0
  then show ?case by (simp add: serial_wait.simps [of s] inb_def) blast
next
  case (Suc k)
  show ?case
  proof (cases "port_in s (in_count s) (COM1 + 5) AND 0x20 = 0")
    case True
    with Suc.IH [of "s\<lparr>in_count := Suc (in_count s)\<rparr>"] Suc.prems show ?thesis by (simp add: serial_wait.simps [of s] inb_def)
  next
    case False
    then show ?thesis by (simp add: serial_wait.simps [of s] inb_def) blast
  qed
qed

lemma serial_putc_sends:
  assumes "transmitter_lives s"
  shows "\<exists>n. serial_putc b s = Some (s\<lparr>in_count := n, out_trace := out_trace s @ [(COM1, b)]\<rparr>)"
proof -
  obtain k where "port_in s (in_count s + k) (COM1 + 5) AND 0x20 \<noteq> 0" using assms unfolding transmitter_lives_def by blast
  from serial_wait_ready [OF this] show ?thesis by (auto simp: serial_putc_def outb_def)
qed

section \<open>Strings in memory\<close>

fun c_string :: "memory \<Rightarrow> u32 \<Rightarrow> u8 list \<Rightarrow> bool" where
  "c_string m p [] \<longleftrightarrow> m p = 0"
| "c_string m p (b # bs) \<longleftrightarrow> m p = b \<and> b \<noteq> 0 \<and> c_string m (p + 1) bs"

lemma serial_puts_sends:
  assumes "transmitter_lives s" "c_string (mem s) p bs"
  shows "\<exists>n. serial_puts p s = Some (s\<lparr>in_count := n, out_trace := out_trace s @ map (Pair COM1) bs\<rparr>)"
  using assms
proof (induction bs arbitrary: p s)
  case Nil
  then show ?case by (intro exI [of _ "in_count s"]) (simp add: serial_puts.simps [of p s])
next
  case (Cons b bs)
  from serial_putc_sends [OF Cons.prems(1)] obtain n where
    n: "serial_putc b s = Some (s\<lparr>in_count := n, out_trace := out_trace s @ [(COM1, b)]\<rparr>)" by blast
  let ?s = "s\<lparr>in_count := n, out_trace := out_trace s @ [(COM1, b)]\<rparr>"
  from Cons.prems have "transmitter_lives ?s" "c_string (mem ?s) (p + 1) bs" by (simp_all add: transmitter_lives_def)
  from Cons.IH [OF this] n Cons.prems(2) show ?case by (simp add: serial_puts.simps [of p s])
qed

text \<open>A string that is not terminated ends at the next zero byte, wherever that is.\<close>

definition string_upto :: "memory \<Rightarrow> u32 \<Rightarrow> nat \<Rightarrow> u8 list" where
  "string_upto m p k = takeWhile (\<lambda>b. b \<noteq> 0) (map (\<lambda>i. m (p + of_nat i)) [0..<k])"

lemma string_upto_c_string: "m (p + of_nat k) = 0 \<Longrightarrow> c_string m p (string_upto m p k)"
proof (induction k arbitrary: p)
  case 0
  then show ?case by (simp add: string_upto_def)
next
  case (Suc k)
  have "map (\<lambda>i. m (p + of_nat i)) [0..<Suc k] = m p # map (\<lambda>i. m (p + 1 + of_nat i)) [0..<k]"
    unfolding map_upt_Suc by (simp add: ac_simps)
  then have s: "string_upto m p (Suc k) = (if m p = 0 then [] else m p # string_upto m (p + 1) k)" by (simp add: string_upto_def)
  from Suc.IH [of "p + 1"] Suc.prems show ?case by (simp add: s ac_simps)
qed

section \<open>The port's view\<close>

text \<open>An 8250 UART: bit 7 of the line control register turns the first two ports into the divisor latch.\<close>

record uart =
  divisor_low :: u8
  divisor_high :: u8
  ier :: u8
  fcr :: u8
  lcr :: u8
  mcr :: u8
  sent :: "u8 list"

definition uart_write :: "u16 \<times> u8 \<Rightarrow> uart \<Rightarrow> uart" where
  "uart_write w u =
     (if fst w = COM1 then if bit (lcr u) 7 then u\<lparr>divisor_low := snd w\<rparr> else u\<lparr>sent := sent u @ [snd w]\<rparr>
      else if fst w = COM1 + 1 then if bit (lcr u) 7 then u\<lparr>divisor_high := snd w\<rparr> else u\<lparr>ier := snd w\<rparr>
      else if fst w = COM1 + 2 then u\<lparr>fcr := snd w\<rparr>
      else if fst w = COM1 + 3 then u\<lparr>lcr := snd w\<rparr>
      else if fst w = COM1 + 4 then u\<lparr>mcr := snd w\<rparr>
      else u)"

definition uart_state :: "uart \<Rightarrow> 'a machine_scheme \<Rightarrow> uart" where
  "uart_state u s = fold uart_write (out_trace s) u"

definition baud_rate :: "uart \<Rightarrow> nat" where
  "baud_rate u = 1843200 div (16 * (unat (divisor_low u) + 256 * unat (divisor_high u)))"

lemma uart_sends: "\<not> bit (lcr u) 7 \<Longrightarrow> fold uart_write (map (Pair COM1) bs) u = u\<lparr>sent := sent u @ bs\<rparr>"
  by (induction bs arbitrary: u) (simp_all add: uart_write_def)

text \<open>What the registers held before does not matter, except that a divisor latch left open by earlier code swallows the
  first byte, which was meant to disable interrupts.\<close>

lemma serial_init_state:
  "uart_state u (serial_init s) = (uart_state u s)\<lparr>divisor_low := 0x0C, divisor_high := 0,
     ier := (if bit (lcr (uart_state u s)) 7 then ier (uart_state u s) else 0), fcr := 0xC7, lcr := 3, mcr := 0x0B\<rparr>"
  by (simp add: uart_state_def serial_init_def outb_def uart_write_def COM1_def)

end
