(* ===== verification/Start.thy ===== *)
theory Start
  imports Kernel Segments Serial
begin

text \<open>
  The kernel's entry point, \<^verbatim>\<open>_start\<close> in \<^verbatim>\<open>kernel/main.asm\<close>. The addresses the linker assigns are a record of symbols; what the
  linker script promises about them, and the bytes of the image that the code reads, are one predicate. The stack
  matters only where \<^verbatim>\<open>gdt_flush\<close> reads its argument and its return address from it; the other calls are function
  application. General registers are not followed beyond that, as \<^verbatim>\<open>kmain\<close> takes no arguments. It does not return, so the
  loop behind it is never reached.
\<close>

section \<open>The code\<close>

record symbols =
  sym_gdt :: u32
  sym_gdtr :: u32
  sym_flushed :: u32
  sym_bss_start :: u32
  sym_bss_end :: u32
  sym_msg_kernel :: u32
  sym_kernel_end :: u32

definition DATA_SEL :: u16 where "DATA_SEL = 0x10"

definition msg_kernel :: "u8 list" where
  "msg_kernel = map of_char ''Kernel reached!'' @ [0x0D, 0x0A]"

definition rep_stosb :: "u32 \<Rightarrow> u32 \<Rightarrow> u8 \<Rightarrow> memory \<Rightarrow> memory" where
  "rep_stosb edi ecx al m = fold (\<lambda>i m. m(edi + of_nat i := al)) [0..<unat ecx] m"

definition start :: "symbols \<Rightarrow> cpu \<times> segments \<times> 'a intr_scheme \<Rightarrow> (cpu \<times> segments \<times> 'a intr_scheme) option" where
  "start syms = (\<lambda>(c, g, s).
     do { let s = s\<lparr>eflags := eflags s AND NOT IF_BIT\<rparr>;
          let (c, s) = push [sym_gdtr syms] (c, s);
          let (c, s) = push [sym_flushed syms] (c, s);
          (c, g, s) \<leftarrow> gdt_flush (c, g, s);
          let c = c\<lparr>ESP := ESP c + 4\<rparr>;
          g \<leftarrow> load_data_segments DATA_SEL (mem s) g;
          let c = c\<lparr>ESP := of_nat KERNEL_STACK_TOP\<rparr>;
          let s = s\<lparr>eflags := eflags s AND NOT 0x400\<rparr>;
          let s = s\<lparr>mem := rep_stosb (sym_bss_start syms) (sym_bss_end syms - sym_bss_start syms) 0 (mem s)\<rparr>;
          let s = serial_init s;
          s \<leftarrow> serial_puts (sym_msg_kernel syms) s;
          s \<leftarrow> kmain (sym_kernel_end syms) s;
          Some (c, g, s) })"

section \<open>The image\<close>

text \<open>The sections lie in the order of the linker script: what is read comes before the zero-initialised data, which is not
  empty and ends with the image.\<close>

definition kernel_image :: "symbols \<Rightarrow> memory \<Rightarrow> bool" where
  "kernel_image syms m \<longleftrightarrow>
     0x9000 \<le> unat (sym_gdt syms) \<and> unat (sym_gdt syms) + 8 * length kernel_gdt \<le> unat (sym_bss_start syms) \<and>
     0x9000 \<le> unat (sym_gdtr syms) \<and> unat (sym_gdtr syms) + 6 \<le> unat (sym_bss_start syms) \<and>
     0x9000 \<le> unat (sym_msg_kernel syms) \<and> unat (sym_msg_kernel syms) + length msg_kernel \<le> unat (sym_bss_start syms) \<and>
     unat (sym_bss_start syms) < unat (sym_bss_end syms) \<and> sym_bss_end syms \<le> sym_kernel_end syms \<and>
     gdt_image kernel_gdt (sym_gdt syms) (sym_gdtr syms) m \<and>
     (\<forall>i < length msg_kernel. m (sym_msg_kernel syms + of_nat i) = msg_kernel ! i)"

lemma rep_stosb_mem:
  assumes "unat edi + unat ecx \<le> 2 ^ 32"
  shows "rep_stosb edi ecx al m = (\<lambda>a. if unat edi \<le> unat a \<and> unat a < unat edi + unat ecx then al else m a)"
proof -
  have "fold (\<lambda>i m. m(edi + of_nat i := al)) [0..<k] m = (\<lambda>a. if unat edi \<le> unat a \<and> unat a < unat edi + k then al else m a)"
    if "unat edi + k \<le> 2 ^ 32" for k
    using that
  proof (induction k)
    case (Suc k)
    have "unat (edi + of_nat k) = unat edi + k" using Suc.prems by (simp add: unat_plus_small unat_of_nat_small)
    then show ?case using Suc by (auto simp: fun_eq_iff unat_inj)
  qed (auto simp: fun_eq_iff)
  from this [OF assms] show ?thesis by (simp add: rep_stosb_def)
qed

section \<open>What the processor reads survives\<close>

lemma load16_same: "m a = m' a \<Longrightarrow> m (a + 1) = m' (a + 1) \<Longrightarrow> load16 m a = load16 m' a"
  by (simp add: load16_def)

lemma load32_same:
  assumes "\<And>x. unat a \<le> unat x \<Longrightarrow> unat x < unat a + 4 \<Longrightarrow> m x = m' x" "unat a + 4 \<le> 2 ^ 32"
  shows "load32 m a = load32 m' a"
  by (rule load32_cong) (use assms in \<open>auto simp: footprint32_unat\<close>)

lemma load64_same:
  assumes "\<And>x. unat a \<le> unat x \<Longrightarrow> unat x < unat a + 8 \<Longrightarrow> m x = m' x" "unat a + 8 \<le> 2 ^ 32"
  shows "load64 m a = load64 m' a"
proof -
  have "unat (a + 4) = unat a + 4" using assms(2) by (simp add: unat_plus_small)
  then have "load32 m (a + 4) = load32 m' (a + 4)" "load32 m a = load32 m' a"
    using assms(2) by (auto intro!: load32_same assms(1))
  then show ?thesis by (simp add: load64_def)
qed

lemma gdt_image_same:
  assumes "gdt_image ents table ptr m" "unat table + 8 * length ents \<le> 2 ^ 32" "unat ptr + 6 \<le> 2 ^ 32"
    "\<And>x. unat table \<le> unat x \<Longrightarrow> unat x < unat table + 8 * length ents \<Longrightarrow> m' x = m x"
    "\<And>x. unat ptr \<le> unat x \<Longrightarrow> unat x < unat ptr + 6 \<Longrightarrow> m' x = m x"
  shows "gdt_image ents table ptr m'"
proof -
  have "load64 m' (table + of_nat (8 * i)) = load64 m (table + of_nat (8 * i))" if "i < length ents" for i
  proof -
    have "unat (table + of_nat (8 * i)) = unat table + 8 * i"
      using that assms(2) by (subst unat_plus_small) (simp_all add: unat_of_nat_small del: of_nat_mult)
    then show ?thesis using that assms(2) by (intro load64_same assms(4)) auto
  qed
  moreover have u: "unat (ptr + 1) = unat ptr + 1" "unat (ptr + 2) = unat ptr + 2" using assms(3) by (simp_all add: unat_plus_small)
  have "load16 m' ptr = load16 m ptr" by (rule load16_same) (auto intro!: assms(5) simp: u)
  moreover have "load32 m' (ptr + 2) = load32 m (ptr + 2)" by (rule load32_same) (use assms(3) in \<open>auto intro!: assms(5) simp: u\<close>)
  ultimately show ?thesis using assms(1) by (simp add: gdt_image_def)
qed

section \<open>From the entry point to kmain\<close>

lemma push_one: "push [v] (c, s) = (c\<lparr>ESP := ESP c - 4\<rparr>, s\<lparr>mem := store32 (mem s) (ESP c - 4) v\<rparr>)"
  by (simp add: push_def)

lemma linked_machine [simp]:
  "linked ke (s\<lparr>mem := m\<rparr>) = linked ke s" "linked ke (s\<lparr>eflags := f\<rparr>) = linked ke s"
  "linked ke (s\<lparr>in_count := n\<rparr>) = linked ke s" "linked ke (s\<lparr>out_trace := t\<rparr>) = linked ke s"
  by (simp_all add: linked_def)

text \<open>The two pushed words, on the loader's stack above the image.\<close>

lemma flush_arguments:
  assumes "0x98008 \<le> unat sp"
  shows "load32 (store32 (store32 m (sp - 4) a) (sp - 8) b) (sp - 4) = a" "load32 (store32 (store32 m (sp - 4) a) (sp - 8) b) (sp - 8) = b"
    "unat x < 0x98000 \<Longrightarrow> store32 (store32 m (sp - 4) a) (sp - 8) b x = m x"
proof -
  have u: "unat (sp - 4) = unat sp - 4" "unat (sp - 8) = unat sp - 8" using assms by (simp_all add: unat_minus_small)
  have "unat sp < 2 ^ 32" using unat_lt [of sp] by simp
  then have f: "footprint32 (sp - 4) = {x. unat sp - 4 \<le> unat x \<and> unat x < unat sp}" "footprint32 (sp - 8) = {x. unat sp - 8 \<le> unat x \<and> unat x < unat sp - 4}"
    using assms by (simp_all add: footprint32_unat u)
  have "footprint32 (sp - 8) \<inter> footprint32 (sp - 4) = {}" unfolding f by auto
  then show "load32 (store32 (store32 m (sp - 4) a) (sp - 8) b) (sp - 4) = a" by (simp add: load32_store32_disjoint)
  show "load32 (store32 (store32 m (sp - 4) a) (sp - 8) b) (sp - 8) = b" by simp
  assume "unat x < 0x98000"
  then have "x \<notin> footprint32 (sp - 4)" "x \<notin> footprint32 (sp - 8)" unfolding f using assms by auto
  then show "store32 (store32 m (sp - 4) a) (sp - 8) b x = m x" by (simp add: store32_outside)
qed

text \<open>The state in which \<^verbatim>\<open>kmain\<close> is called: the zero-initialised data is zero and the rest of the image is as loaded; the
  message and whatever follows it up to the next zero byte has been sent.\<close>

definition entered :: "symbols \<Rightarrow> uart \<Rightarrow> 'a machine_scheme \<Rightarrow> 'a machine_scheme \<Rightarrow> bool" where
  "entered syms u s s1 \<longleftrightarrow> \<not> interrupts_enabled s1 \<and>
     (\<forall>x. unat (sym_bss_start syms) \<le> unat x \<and> unat x < unat (sym_bss_end syms) \<longrightarrow> mem s1 x = 0) \<and>
     (\<forall>x. unat x < unat (sym_bss_start syms) \<longrightarrow> mem s1 x = mem s x) \<and>
     (\<exists>tail. sent (uart_state u s1) = sent (uart_state u s) @ msg_kernel @ tail) \<and>
     baud_rate (uart_state u s1) = 9600 \<and> lcr (uart_state u s1) = 3"

lemma image_room:
  assumes "linked (sym_kernel_end syms) s" "kernel_image syms m"
  shows "unat (sym_bss_start syms) < 0x98000" "unat (sym_bss_end syms) \<le> 0x98000"
    "unat (sym_bss_start syms) + unat (sym_bss_end syms - sym_bss_start syms) = unat (sym_bss_end syms)"
proof -
  have "unat (sym_kernel_end syms) \<le> 0x98000" using assms(1) by (intro kernel_end_small) (simp add: linked_def)
  moreover have b: "unat (sym_bss_start syms) < unat (sym_bss_end syms)" "unat (sym_bss_end syms) \<le> unat (sym_kernel_end syms)"
    using assms(2) by (simp_all add: kernel_image_def word_le_nat_alt)
  ultimately show "unat (sym_bss_start syms) < 0x98000" "unat (sym_bss_end syms) \<le> 0x98000" by simp_all
  show "unat (sym_bss_start syms) + unat (sym_bss_end syms - sym_bss_start syms) = unat (sym_bss_end syms)"
    using b(1) by (simp add: unat_minus_small)
qed

text \<open>The message is not terminated, but the loop over it stops at the zero-initialised data at the latest.\<close>

lemma message_sent:
  assumes im: "kernel_image syms m" and same: "\<And>x. unat x < unat (sym_bss_start syms) \<Longrightarrow> m' x = m x" and z: "m' (sym_bss_start syms) = 0"
  shows "\<exists>tail. c_string m' (sym_msg_kernel syms) (msg_kernel @ tail)"
proof -
  let ?p = "sym_msg_kernel syms" and ?k = "unat (sym_bss_start syms) - unat (sym_msg_kernel syms)"
  have le: "unat ?p + length msg_kernel \<le> unat (sym_bss_start syms)" and bytes: "\<And>i. i < length msg_kernel \<Longrightarrow> m (?p + of_nat i) = msg_kernel ! i"
    using im by (simp_all add: kernel_image_def)
  have u: "unat (?p + of_nat i) = unat ?p + i" if "i \<le> ?k" for i
    using that le unat_lt [of "sym_bss_start syms"] by (subst unat_plus_small) (simp_all add: unat_of_nat_small)
  have "?p + of_nat ?k = sym_bss_start syms" using u [of ?k] le by (simp add: unat_inj)
  then have c: "c_string m' ?p (string_upto m' ?p ?k)" by (intro string_upto_c_string) (simp add: z)
  have "[0..<?k] = [0..<length msg_kernel] @ [length msg_kernel..<?k]" using upt_add_eq_append [of 0 "length msg_kernel" "?k - length msg_kernel"] le by simp
  moreover have "map (\<lambda>i. m' (?p + of_nat i)) [0..<length msg_kernel] = msg_kernel"
    using le by (intro nth_equalityI) (auto simp: bytes same u)
  moreover have "\<forall>b \<in> set msg_kernel. b \<noteq> 0" by (simp add: msg_kernel_def)
  ultimately have "string_upto m' ?p ?k = msg_kernel @ takeWhile (\<lambda>b. b \<noteq> 0) (map (\<lambda>i. m' (?p + of_nat i)) [length msg_kernel..<?k])"
    by (simp add: string_upto_def)
  with c show ?thesis by metis
qed

lemma serial_reports:
  assumes "transmitter_lives s" "c_string (mem s) p bs"
  shows "\<exists>s'. serial_puts p (serial_init s) = Some s' \<and> (\<exists>n t. s' = s\<lparr>in_count := n, out_trace := t\<rparr>) \<and>
    sent (uart_state u s') = sent (uart_state u s) @ bs \<and> baud_rate (uart_state u s') = 9600 \<and> lcr (uart_state u s') = 3"
proof -
  let ?i = "serial_init s"
  obtain t where t: "?i = s\<lparr>out_trace := t\<rparr>" by (auto simp: serial_init_def outb_def)
  from assms have "transmitter_lives ?i" "c_string (mem ?i) p bs" by (simp_all add: t transmitter_lives_def)
  from serial_puts_sends [OF this] obtain n where n: "serial_puts p ?i = Some (?i\<lparr>in_count := n, out_trace := out_trace ?i @ map (Pair COM1) bs\<rparr>)" by blast
  let ?s = "?i\<lparr>in_count := n, out_trace := out_trace ?i @ map (Pair COM1) bs\<rparr>"
  have l: "lcr (uart_state u ?i) = 3" by (simp add: serial_init_state)
  have "uart_state u ?s = (uart_state u ?i)\<lparr>sent := sent (uart_state u ?i) @ bs\<rparr>"
    using uart_sends [of "uart_state u ?i" bs] l by (simp add: uart_state_def)
  moreover have "\<exists>n t. ?s = s\<lparr>in_count := n, out_trace := t\<rparr>" unfolding t by (intro exI) simp
  ultimately show ?thesis using n by (auto simp: serial_init_state baud_rate_def)
qed

lemma start_enters:
  fixes s :: "'a intr_scheme"
  assumes lk: "linked (sym_kernel_end syms) s" and im: "kernel_image syms (mem s)" and tx: "transmitter_lives s" and sp: "0x98008 \<le> unat (ESP c)"
  shows "\<exists>c' g' s1. start syms (c, g, s) = map_option (\<lambda>s'. (c', g', s')) (kmain (sym_kernel_end syms) s1) \<and>
    linked (sym_kernel_end syms) s1 \<and> unat (ESP c') = KERNEL_STACK_TOP \<and> flat_segments (mem s1) c' g' \<and> entered syms u s s1"
proof -
  note room = image_room [OF lk im]
  let ?m = "store32 (store32 (mem s) (ESP c - 4) (sym_gdtr syms)) (ESP c - 8) (sym_flushed syms)"
  let ?z = "rep_stosb (sym_bss_start syms) (sym_bss_end syms - sym_bss_start syms) 0 ?m"
  let ?f = "eflags s AND NOT IF_BIT"
  have z: "?z = (\<lambda>x. if unat (sym_bss_start syms) \<le> unat x \<and> unat x < unat (sym_bss_end syms) then 0 else ?m x)"
    using room by (subst rep_stosb_mem) simp_all
  have low: "?m x = mem s x" if "unat x < unat (sym_bss_start syms)" for x using that room by (intro flush_arguments(3) [OF sp]) simp
  have zlow: "?z x = mem s x" if "unat x < unat (sym_bss_start syms)" for x using that by (simp add: z low)
  have im': "unat (sym_gdt syms) + 8 * length kernel_gdt \<le> unat (sym_bss_start syms)" "unat (sym_gdtr syms) + 6 \<le> unat (sym_bss_start syms)"
    "gdt_image kernel_gdt (sym_gdt syms) (sym_gdtr syms) (mem s)" using im by (simp_all add: kernel_image_def)
  have gm: "gdt_image kernel_gdt (sym_gdt syms) (sym_gdtr syms) ?m" "gdt_image kernel_gdt (sym_gdt syms) (sym_gdtr syms) ?z"
    by (rule gdt_image_same [OF im'(3)]; use im'(1,2) room in \<open>simp add: low zlow\<close>)+
  let ?s2 = "s\<lparr>eflags := ?f, mem := ?m\<rparr>" and ?c2 = "c\<lparr>ESP := ESP c - 8\<rparr>"
  let ?c3 = "?c2\<lparr>EAX := (sym_gdtr syms AND 0xFFFF0000) OR 0x10, CS := 0x08, EIP := sym_flushed syms, ESP := ESP c - 4\<rparr>"
  let ?g3 = "\<lparr>DS = 0x10, ES = 0x10, FS = 0x10, GS = 0x10, SS = 0x10,
    GDTR = \<lparr>gdt_limit = load16 ?m (sym_gdtr syms), gdt_base = load32 ?m (sym_gdtr syms + 2)\<rparr>\<rparr>"
  have flush: "gdt_flush (?c2, g, ?s2) = Some (?c3, ?g3, ?s2)"
    using gdt_flush_loads [of kernel_gdt "sym_gdt syms" "sym_gdtr syms" ?s2 ?c2 g] gm(1) flat_table_kernel flush_arguments(1,2) [OF sp] by simp
  have again: "load_data_segments DATA_SEL ?m ?g3 = Some ?g3"
    using image_loadable(1) [OF gm(1) flat_table_kernel, of ?g3] by (simp add: DATA_SEL_def)
  let ?c4 = "?c3\<lparr>ESP := of_nat KERNEL_STACK_TOP\<rparr>" and ?s4 = "s\<lparr>eflags := ?f AND NOT 0x400, mem := ?z\<rparr>"
  have run: "start syms (c, g, s) = do { s \<leftarrow> serial_puts (sym_msg_kernel syms) (serial_init ?s4); s \<leftarrow> kmain (sym_kernel_end syms) s; Some (?c4, ?g3, s) }"
    using flush again by (simp add: start_def push_one Let_def)
  have "?z (sym_bss_start syms) = 0" using im by (simp add: z kernel_image_def)
  from message_sent [OF im zlow this] obtain tail where tail: "c_string (mem ?s4) (sym_msg_kernel syms) (msg_kernel @ tail)" by auto
  have "transmitter_lives ?s4" using tx by (simp add: transmitter_lives_def)
  from serial_reports [OF this tail, of u] obtain s1 n t where s1: "serial_puts (sym_msg_kernel syms) (serial_init ?s4) = Some s1"
    "s1 = ?s4\<lparr>in_count := n, out_trace := t\<rparr>" "sent (uart_state u s1) = sent (uart_state u ?s4) @ msg_kernel @ tail"
    "baud_rate (uart_state u s1) = 9600" "lcr (uart_state u s1) = 3" by blast
  have off: "(?f AND y) AND IF_BIT = 0" for y by (rule bit_word_eqI) (auto simp: bit_simps)
  have "entered syms u s s1"
    using s1(3-5) unfolding entered_def interrupts_enabled_def by (auto simp: s1(2) uart_state_def z low off)
  moreover have "load16 ?z (sym_gdtr syms) = load16 ?m (sym_gdtr syms)" "load32 ?z (sym_gdtr syms + 2) = load32 ?m (sym_gdtr syms + 2)"
    using gm by (simp_all add: gdt_image_def)
  then have "flat_segments (mem s1) ?c4 ?g3" by (simp add: image_flat [OF gm(2) flat_table_kernel] s1(2))
  ultimately show ?thesis
    using run s1(1) lk by (intro exI [of _ ?c4] exI [of _ ?g3] exI [of _ s1]) (simp add: s1(2) KERNEL_STACK_TOP_def map_option_case split: option.splits)
qed

text \<open>The image is what is in memory below the zero-initialised data.\<close>

lemma kernel_image_same:
  assumes "kernel_image syms m" "\<And>x. 0x9000 \<le> unat x \<Longrightarrow> unat x < unat (sym_bss_start syms) \<Longrightarrow> m' x = m x"
  shows "kernel_image syms m'"
proof -
  let ?b = "unat (sym_bss_start syms)" and ?p = "sym_msg_kernel syms"
  have i: "0x9000 \<le> unat (sym_gdt syms)" "unat (sym_gdt syms) + 8 * length kernel_gdt \<le> ?b" "0x9000 \<le> unat (sym_gdtr syms)"
    "unat (sym_gdtr syms) + 6 \<le> ?b" "0x9000 \<le> unat ?p" "unat ?p + length msg_kernel \<le> ?b" "?b < 2 ^ 32"
    "gdt_image kernel_gdt (sym_gdt syms) (sym_gdtr syms) m"
    using assms(1) unat_lt [of "sym_bss_start syms"] by (simp_all add: kernel_image_def)
  have "gdt_image kernel_gdt (sym_gdt syms) (sym_gdtr syms) m'"
    by (rule gdt_image_same [OF i(8)]) (use i(1-4,7) in \<open>auto intro!: assms(2)\<close>)
  moreover have "m' (?p + of_nat k) = m (?p + of_nat k)" if "k < length msg_kernel" for k
  proof -
    have "unat (?p + of_nat k) = unat ?p + k" using that i(6,7) by (subst unat_plus_small) (simp_all add: unat_of_nat_small)
    then show ?thesis using that i(5,6) by (intro assms(2)) simp_all
  qed
  ultimately show ?thesis using assms(1) by (simp add: kernel_image_def)
qed

lemma start_runs:
  assumes "linked (sym_kernel_end syms) s" "kernel_image syms (mem s)" "transmitter_lives s" "0x98008 \<le> unat (ESP c)"
  shows "\<exists>c' g' s1 s'. start syms (c, g, s) = Some (c', g', s') \<and> kmain (sym_kernel_end syms) s1 = Some s' \<and> unat (ESP c') = KERNEL_STACK_TOP \<and>
    flat_segments (mem s1) c' g' \<and> entered syms u s s1 \<and> booted s' \<and> interrupts_enabled s'"
proof -
  obtain c' g' s1 where s1: "start syms (c, g, s) = map_option (\<lambda>s'. (c', g', s')) (kmain (sym_kernel_end syms) s1)" "linked (sym_kernel_end syms) s1"
    "unat (ESP c') = KERNEL_STACK_TOP" "flat_segments (mem s1) c' g'" "entered syms u s s1" using start_enters [OF assms] by blast
  from kmain_stages [OF s1(2)] obtain s' where "kmain (sym_kernel_end syms) s1 = Some s'" "booted s'" "interrupts_enabled s'" by blast
  with s1 show ?thesis by (intro exI [of _ c'] exI [of _ g'] exI [of _ s1] exI [of _ s']) simp
qed

end
