(* ===== verification/Stage1.thy ===== *)
theory Stage1
  imports Bootlib
begin

text \<open>
  \<^verbatim>\<open>boot/stage1/boot.asm\<close>: the boot sector, which the BIOS loads at 7C00h and which loads the second stage. Its data segment is 0,
  so its variables are bytes of memory; the offsets of the messages and of the retry counter, which depend on the
  size of the assembled code, are arguments. Waiting for a key and jumping to FFFF:0 is the outcome \<open>Reboot\<close>.
  \<^verbatim>\<open>disk_read\<close> and \<^verbatim>\<open>disk_reset\<close> are there but not called by the code; they are modelled all the same.

  Shown: the boot sector reads exactly the sixteen sectors of the second stage, in one call that stays within a track,
  or reports the error and reboots.
\<close>

section \<open>The parameter block\<close>

definition dw :: "u16 \<Rightarrow> u8 list" where
  "dw w = [ucast w, ucast (drop_bit 8 w)]"

definition dd :: "u32 \<Rightarrow> u8 list" where
  "dd w = [ucast w, ucast (drop_bit 8 w), ucast (drop_bit 16 w), ucast (drop_bit 24 w)]"

definition db :: "string \<Rightarrow> u8 list" where
  "db str = map of_char str"

text \<open>The bytes from offset 3 of the sector on, behind the jump over them.\<close>

definition bios_parameter_block :: "u8 list" where
  "bios_parameter_block = db ''MSWIN4.1'' @ dw 512 @ [1] @ dw 1 @ [2] @ dw 224 @ dw 2880 @ [0xF0] @ dw 9 @ dw 18 @ dw 2 @
     dd 0 @ dd 0 @ [0] @ [0] @ [0x29] @ dd 0x1337C0DE @ db ''NEIL OS    '' @ db ''FAT12   ''"

definition SectorsPerTrack :: u16 where "SectorsPerTrack = 0x7C18"
definition HeadsPerCylinder :: u16 where "HeadsPerCylinder = 0x7C1A"
definition DriveNumber :: u16 where "DriveNumber = 0x7C24"

section \<open>The code\<close>

definition STAGE2_SEGMENT :: u16 where "STAGE2_SEGMENT = 0x0500"
definition STAGE2_FIRST_LBA :: u16 where "STAGE2_FIRST_LBA = 2864"
definition STAGE2_SECTORS :: u8 where "STAGE2_SECTORS = 16"

text \<open>The byte and the word at an offset in the data segment.\<close>

definition byte_ds :: "u16 \<Rightarrow> 'a boot_scheme \<Rightarrow> u8" where
  "byte_ds off s = bmem s (linear_address (ds s) off)"

definition word_ds :: "u16 \<Rightarrow> 'a boot_scheme \<Rightarrow> u16" where
  "word_ds off s = read_le16 (\<lambda>i. byte_ds (off + of_nat i) s)"

definition set_byte_ds :: "u16 \<Rightarrow> u8 \<Rightarrow> 'a boot_scheme \<Rightarrow> 'a boot_scheme" where
  "set_byte_ds off b s = s\<lparr>bmem := (bmem s)(linear_address (ds s) off := b)\<rparr>"

text \<open>A string without end is printed for ever.\<close>

partial_function (option) puts :: "u16 \<Rightarrow> u16 \<Rightarrow> 'a boot_scheme \<Rightarrow> 'a boot_scheme option" where
  "puts si bx s =
     (let al = byte_ds si s
      in if al = 0 then Some s
         else let ax = 0x0E00 OR ucast al; bx = bx AND 0x00FF
              in puts (si + 1) bx (s\<lparr>int10_trace := int10_trace s @ [(ax, bx)]\<rparr>))"

text \<open>CH, CL and DH. The quotient of the first division is divided again; both divisors come from the parameter block.\<close>

definition chs_of_lba :: "u16 \<Rightarrow> 'a boot_scheme \<Rightarrow> (u8 \<times> u8 \<times> u8) option" where
  "chs_of_lba ax s =
     (let spt = word_ds SectorsPerTrack s; heads = word_ds HeadsPerCylinder s
      in do { guard (spt \<noteq> 0);
              let dl = ucast (ax mod spt);
              let ax = ax div spt;
              let cl = dl + 1;
              guard (heads \<noteq> 0);
              let dl = ucast (ax mod heads);
              let ax = ax div heads;
              let dh = dl;
              let ch = ucast ax;
              let ah = push_bit 6 (ucast (drop_bit 8 ax));
              let cl = (cl AND 0x3F) OR ah;
              Some (ch, cl, dh) })"

text \<open>Interrupt 13h, function 2, for several sectors: they follow each other on the track and in memory.\<close>

definition int13_read_track :: "u8 \<Rightarrow> u8 \<Rightarrow> u8 \<Rightarrow> u8 \<Rightarrow> u8 \<Rightarrow> u16 \<Rightarrow> u16 \<Rightarrow> 'a boot_scheme \<Rightarrow> bool \<times> 'a boot_scheme" where
  "int13_read_track al ch cl dh dl es bx s =
     (let (carry, s) = int13 s
      in if carry then (True, s)
         else (False, s\<lparr>bmem := fold (\<lambda>i. copy_sector (linear_address es bx + of_nat (512 * i))
           (disk_image s dl (unat ch + 256 * unat (drop_bit 6 cl)) (unat dh) (unat (cl AND 0x3F) + i))) [0..<unat al] (bmem s)\<rparr>))"

datatype stage1_outcome = Reboot | EnterStage2 u8

definition disk_error :: "u16 \<Rightarrow> u16 \<Rightarrow> 'a boot_scheme \<Rightarrow> (stage1_outcome \<times> 'a boot_scheme) option" where
  "disk_error msg_error bx s = do { s \<leftarrow> puts msg_error bx s; Some (Reboot, s) }"

definition stage1_start :: "u16 \<Rightarrow> u16 \<Rightarrow> u8 \<Rightarrow> u16 \<Rightarrow> 'a boot_scheme \<Rightarrow> (stage1_outcome \<times> 'a boot_scheme) option" where
  "stage1_start msg_loading msg_error dl bx s =
     do { let s = s\<lparr>ds := 0\<rparr>;
          let s = set_byte_ds DriveNumber dl s;
          s \<leftarrow> puts msg_loading bx s;
          (ch, cl, dh) \<leftarrow> chs_of_lba STAGE2_FIRST_LBA s;
          let es = STAGE2_SEGMENT;
          let bx = 0;
          let (carry, s) = int13_read_track STAGE2_SECTORS ch cl dh (byte_ds DriveNumber s) es bx s;
          if carry then disk_error msg_error bx s
          else Some (EnterStage2 (byte_ds DriveNumber s), s) }"

definition disk_reset :: "'a boot_scheme \<Rightarrow> 'a boot_scheme" where
  "disk_reset s = snd (int13 s)"

text \<open>The result None is a return to the caller, Some the jump to \<^verbatim>\<open>disk_error\<close>.\<close>

partial_function (option) disk_read_retry ::
  "u16 \<Rightarrow> u16 \<Rightarrow> u16 \<Rightarrow> u16 \<Rightarrow> u16 \<Rightarrow> 'a boot_scheme \<Rightarrow> (stage1_outcome option \<times> 'a boot_scheme) option" where
  "disk_read_retry RetryCount msg_error ax es bx s =
     do { (ch, cl, dh) \<leftarrow> chs_of_lba ax s;
          let (carry, s) = int13_read ch cl dh (byte_ds DriveNumber s) es bx s;
          if \<not> carry then Some (None, s)
          else let s = disk_reset s;
                   n = byte_ds RetryCount s - 1;
                   s = set_byte_ds RetryCount n s
               in if n \<noteq> 0 then disk_read_retry RetryCount msg_error ax es bx s
                  else do { (out, s) \<leftarrow> disk_error msg_error bx s; Some (Some out, s) } }"

definition disk_read ::
  "u16 \<Rightarrow> u16 \<Rightarrow> u16 \<Rightarrow> u16 \<Rightarrow> u16 \<Rightarrow> 'a boot_scheme \<Rightarrow> (stage1_outcome option \<times> 'a boot_scheme) option" where
  "disk_read RetryCount msg_error ax es bx s = disk_read_retry RetryCount msg_error ax es bx (set_byte_ds RetryCount 3 s)"

section \<open>Printing\<close>

fun string_ds :: "'a boot_scheme \<Rightarrow> u16 \<Rightarrow> u8 list \<Rightarrow> bool" where
  "string_ds s si [] \<longleftrightarrow> byte_ds si s = 0"
| "string_ds s si (b # bs) \<longleftrightarrow> byte_ds si s = b \<and> b \<noteq> 0 \<and> string_ds s (si + 1) bs"

text \<open>The calls of interrupt 10h that print some bytes.\<close>

definition teletype :: "u16 \<Rightarrow> u8 list \<Rightarrow> (u16 \<times> u16) list" where
  "teletype bx bs = map (\<lambda>b. (0x0E00 OR ucast b, bx AND 0x00FF)) bs"

lemma string_ds_trace [simp]: "string_ds (s\<lparr>int10_trace := t\<rparr>) si bs = string_ds s si bs"
  by (induction bs arbitrary: si) (simp_all add: byte_ds_def)

lemma puts_prints:
  "string_ds s si bs \<Longrightarrow> puts si bx s = Some (s\<lparr>int10_trace := int10_trace s @ teletype bx bs\<rparr>)"
proof (induction bs arbitrary: si bx s)
  case Nil
  then show ?case by (simp add: puts.simps [of si bx s] teletype_def)
next
  case (Cons b bs)
  let ?s = "s\<lparr>int10_trace := int10_trace s @ [(0x0E00 OR ucast b, bx AND 0x00FF)]\<rparr>"
  have "puts (si + 1) (bx AND 0x00FF) ?s = Some (?s\<lparr>int10_trace := int10_trace ?s @ teletype (bx AND 0x00FF) bs\<rparr>)"
    using Cons.prems by (intro Cons.IH) simp
  moreover have "teletype (bx AND 0x00FF) bs = teletype bx bs" by (simp add: teletype_def and.assoc)
  ultimately show ?case using Cons.prems by (simp add: puts.simps [of si bx s] Let_def) (simp add: teletype_def)
qed

lemma string_ds_cong:
  "ds s' = ds s \<Longrightarrow> (\<And>i. i \<le> length bs \<Longrightarrow> byte_ds (si + of_nat i) s' = byte_ds (si + of_nat i) s) \<Longrightarrow> string_ds s' si bs = string_ds s si bs"
proof (induction bs arbitrary: si)
  case Nil
  from Nil.prems(2) [of 0] show ?case by simp
next
  case (Cons b bs)
  have "string_ds s' (si + 1) bs = string_ds s (si + 1) bs"
    by (rule Cons.IH [OF Cons.prems(1)]) (use Cons.prems(2) [of "Suc _"] in \<open>simp add: ac_simps\<close>)
  then show ?case using Cons.prems(2) [of 0] by simp
qed

lemma string_dsI:
  "(\<And>i. i < length bs \<Longrightarrow> byte_ds (si + of_nat i) s = bs ! i) \<Longrightarrow> byte_ds (si + of_nat (length bs)) s = 0 \<Longrightarrow> 0 \<notin> set bs \<Longrightarrow> string_ds s si bs"
proof (induction bs arbitrary: si)
  case (Cons b bs)
  have "string_ds s (si + 1) bs"
    by (rule Cons.IH) (use Cons.prems(1) [of "Suc _"] Cons.prems(2,3) in \<open>simp_all add: ac_simps\<close>)
  then show ?case using Cons.prems(1) [of 0] Cons.prems(3) by auto
qed simp

section \<open>Cylinder, head and sector\<close>

text \<open>The parameter block as the BIOS has loaded it, except for \<^verbatim>\<open>DriveNumber\<close>, which the code sets.\<close>

definition boot_sector_at :: "'a boot_scheme \<Rightarrow> bool" where
  "boot_sector_at s \<longleftrightarrow> (\<forall>i < length bios_parameter_block. i \<noteq> 33 \<longrightarrow> bmem s (of_nat (0x7C03 + i)) = bios_parameter_block ! i)"

lemma bpb_words:
  assumes "boot_sector_at s" "ds s = 0"
  shows "word_ds SectorsPerTrack s = 18" "word_ds HeadsPerCylinder s = 2"
proof -
  have *: "bmem s (of_nat (0x7C03 + i)) = bios_parameter_block ! i" if "i < 59" "i \<noteq> 33" for i
    using assms(1) that by (simp add: boot_sector_at_def bios_parameter_block_def db_def dw_def dd_def del: of_nat_add)
  have "bmem s 0x7C18 = 18" "bmem s 0x7C19 = 0" "bmem s 0x7C1A = 2" "bmem s 0x7C1B = 0"
    using * [of 21] * [of 22] * [of 23] * [of 24] by (simp_all add: bios_parameter_block_def db_def dw_def dd_def)
  then show "word_ds SectorsPerTrack s = 18" "word_ds HeadsPerCylinder s = 2"
    by (simp_all add: word_ds_def byte_ds_def read_le16_def linear_address_def SectorsPerTrack_def HeadsPerCylinder_def assms(2))
qed

lemma cl_fields:
  assumes "n < 64" "c < 1024"
  shows "unat (((of_nat n AND 0x3F) OR push_bit 6 (of_nat (c div 256)) :: u8) AND 0x3F) = n"
    "unat (drop_bit 6 ((of_nat n AND 0x3F) OR push_bit 6 (of_nat (c div 256)) :: u8)) = c div 256"
proof -
  have m: "(0x3F :: u8) = mask 6" by (simp add: mask_eq_exp_minus_1)
  have "(of_nat n AND 0x3F :: u8) = of_nat n" using assms(1) unfolding m by (simp add: unat_inj unat_and_mask unat_of_nat_small)
  moreover have c: "unat (of_nat (c div 256) :: u8) = c div 256" by (rule unat_of_nat_small) (use assms(2) in simp)
  ultimately have e: "unat ((of_nat n AND 0x3F) OR push_bit 6 (of_nat (c div 256)) :: u8) = n + 64 * (c div 256)"
    using or_push_disjoint [of "of_nat n :: u8" 6 "of_nat (c div 256)"] assms by (simp add: unat_of_nat_small)
  show "unat (((of_nat n AND 0x3F) OR push_bit 6 (of_nat (c div 256)) :: u8) AND 0x3F) = n"
    unfolding m using e assms(1) unfolding m by (simp add: unat_and_mask)
  show "unat (drop_bit 6 ((of_nat n AND 0x3F) OR push_bit 6 (of_nat (c div 256)) :: u8)) = c div 256"
    using e assms(1) by (simp add: unsigned_drop_bit_eq drop_bit_eq_div unat_div)
qed

lemma chs_of_lba_spec:
  assumes "boot_sector_at s" "ds s = 0" "unat ax < 1024 * 36"
  shows "\<exists>ch cl dh. chs_of_lba ax s = Some (ch, cl, dh) \<and> unat ch + 256 * unat (drop_bit 6 cl) = unat ax div 36 \<and>
    unat dh = unat ax div 18 mod 2 \<and> unat (cl AND 0x3F) = Suc (unat ax mod 18)"
proof -
  let ?c = "unat ax div 36"
  have c: "?c < 1024" using assms(3) by (simp add: less_mult_imp_div_less)
  have u: "unat (of_nat ?c :: u16) = ?c" by (rule unat_of_nat_small) (use c in simp)
  have q: "ax div 18 div 2 = of_nat ?c" unfolding unat_inj u by (simp add: unat_div div_mult2_eq [symmetric])
  have n: "ucast (ax mod 18) + 1 = (of_nat (Suc (unat ax mod 18)) :: u8)"
    by (simp add: word_arith_nat_mod ucast_of_nat_small)
  have lo: "ucast (of_nat ?c :: u16) = (of_nat ?c :: u8)" "ucast (drop_bit 8 (of_nat ?c :: u16)) = (of_nat (?c div 256) :: u8)"
  proof -
    show "ucast (of_nat ?c :: u16) = (of_nat ?c :: u8)" by (rule ucast_of_nat_small) (use c in simp)
    have "drop_bit 8 (of_nat ?c :: u16) = of_nat (?c div 256)"
      using c by (simp add: unat_inj unsigned_drop_bit_eq drop_bit_eq_div unat_div u unat_of_nat_small del: drop_bit_of_nat)
    then show "ucast (drop_bit 8 (of_nat ?c :: u16)) = (of_nat (?c div 256) :: u8)"
      using c by (simp only:) (rule ucast_of_nat_small, simp)
  qed
  let ?cl = "(of_nat (Suc (unat ax mod 18)) AND 0x3F) OR push_bit 6 (of_nat (?c div 256)) :: u8"
  have run: "chs_of_lba ax s = Some (of_nat ?c, ?cl, ucast (ax div 18 mod 2))"
    unfolding chs_of_lba_def bpb_words [OF assms(1,2)] Let_def n q by (simp add: q lo del: of_nat_Suc)
  have "Suc (unat ax mod 18) < 64" using mod_less_divisor [of 18 "unat ax"] by simp
  note f = cl_fields [OF this c]
  have "unat (of_nat ?c :: u8) = ?c mod 256" by (simp add: unat_of_nat)
  moreover have "unat (ucast (ax div 18 mod 2) :: u8) = unat ax div 18 mod 2"
    by (simp add: unsigned_ucast_eq take_bit_eq_mod unat_mod unat_div)
  ultimately show ?thesis using run f by (intro exI [of _ "of_nat ?c"] exI [of _ ?cl] exI [of _ "ucast (ax div 18 mod 2)"]) simp
qed

section \<open>Reading\<close>

lemma copy_track:
  assumes "unat b + 512 * n \<le> 2 ^ 32"
  shows "fold (\<lambda>i. copy_sector (b + of_nat (512 * i)) (d i)) [0..<n] m =
    (\<lambda>a. if unat b \<le> unat a \<and> unat a < unat b + 512 * n then d ((unat a - unat b) div 512) ((unat a - unat b) mod 512) else m a)"
  using assms
proof (induction n)
  case (Suc n)
  have u: "unat (b + of_nat (512 * n)) = unat b + 512 * n"
    using Suc.prems by (subst unat_plus_small) (simp_all add: unat_of_nat_small del: of_nat_mult)
  have c: "copy_sector (b + of_nat (512 * n)) (d n) m' a = (if unat b + 512 * n \<le> unat a \<and> unat a < unat b + 512 * n + 512
      then d n (unat a - (unat b + 512 * n)) else m' a)" for m' a
    by (rule copy_sector_unat [OF _ u]) (use Suc.prems in simp)
  have k: "(unat a - unat b) div 512 = n" "(unat a - unat b) mod 512 = unat a - (unat b + 512 * n)"
    if "unat b + 512 * n \<le> unat a" "unat a < unat b + 512 * n + 512" for a
  proof -
    define r where "r = unat a - (unat b + 512 * n)"
    have "unat a - unat b = 512 * n + r" "r < 512" using that by (simp_all add: r_def)
    then show "(unat a - unat b) div 512 = n" "(unat a - unat b) mod 512 = unat a - (unat b + 512 * n)" by (simp_all add: r_def)
  qed
  show ?case using Suc by (auto simp: fun_eq_iff c k simp del: of_nat_mult)
qed (auto simp: fun_eq_iff)

text \<open>The floppy's sectors, counted track by track.\<close>

definition floppy_sector :: "'a boot_scheme \<Rightarrow> u8 \<Rightarrow> nat \<Rightarrow> nat \<Rightarrow> u8" where
  "floppy_sector s dl lba = disk_image s dl (lba div 36) (lba div 18 mod 2) (Suc (lba mod 18))"

text \<open>Reading several sectors at once reads consecutive ones only as long as the track does not end.\<close>

lemma read_track_sectors:
  assumes "boot_sector_at s" "ds s = 0" "unat ax < 1024 * 36" "unat ax mod 18 + unat al \<le> 18" "16 * unat es + unat bx + 512 * unat al \<le> 2 ^ 32"
  shows "\<exists>ch cl dh. chs_of_lba ax s = Some (ch, cl, dh) \<and> int13_read_track al ch cl dh dl es bx s =
    (let s' = s\<lparr>int13_calls := Suc (int13_calls s)\<rparr>
     in if int13_fails s (int13_calls s) then (True, s')
        else (False, s'\<lparr>bmem := (\<lambda>a. if 16 * unat es + unat bx \<le> unat a \<and> unat a < 16 * unat es + unat bx + 512 * unat al
          then floppy_sector s dl (unat ax + (unat a - (16 * unat es + unat bx)) div 512) ((unat a - (16 * unat es + unat bx)) mod 512) else bmem s a)\<rparr>))"
proof -
  let ?b = "16 * unat es + unat bx"
  obtain ch cl dh where chs: "chs_of_lba ax s = Some (ch, cl, dh)" "unat ch + 256 * unat (drop_bit 6 cl) = unat ax div 36"
    "unat dh = unat ax div 18 mod 2" "unat (cl AND 0x3F) = Suc (unat ax mod 18)" using chs_of_lba_spec [OF assms(1-3)] by blast
  have b: "unat (linear_address es bx) = ?b" by (rule linear_address_unat)
  have sec: "disk_image s dl (unat ax div 36) (unat ax div 18 mod 2) (Suc (unat ax mod 18) + k) = floppy_sector s dl (unat ax + k)" if "k < unat al" for k
  proof -
    define q r where "q = unat ax div 18" and "r = unat ax mod 18"
    then have ax: "unat ax = 18 * q + r" by simp
    have r: "r + k < 18" using that assms(4) by (simp add: r_def)
    then have m: "(unat ax + k) mod 18 = r + k" "(unat ax + k) div 18 = q" unfolding ax by (simp_all add: add.assoc)
    have "(unat ax + k) div 36 = q div 2" "unat ax div 36 = q div 2"
      using m(2) q_def div_mult2_eq [of "unat ax + k" 18 2] div_mult2_eq [of "unat ax" 18 2] by simp_all
    then show ?thesis unfolding floppy_sector_def m by (simp add: q_def [symmetric] r_def [symmetric])
  qed
  let ?d = "\<lambda>k. disk_image s dl (unat ax div 36) (unat ax div 18 mod 2) (Suc (unat ax mod 18) + k)"
  have track: "fold (\<lambda>i. copy_sector (linear_address es bx + of_nat (512 * i)) (?d i)) [0..<unat al] (bmem s) =
    (\<lambda>a. if ?b \<le> unat a \<and> unat a < ?b + 512 * unat al then floppy_sector s dl (unat ax + (unat a - ?b) div 512) ((unat a - ?b) mod 512) else bmem s a)"
    (is "?l = ?r")
  proof
    fix a :: u32
    have "?l a = (if ?b \<le> unat a \<and> unat a < ?b + 512 * unat al then ?d ((unat a - ?b) div 512) ((unat a - ?b) mod 512) else bmem s a)"
      by (subst copy_track) (simp_all only: b assms(5))
    moreover have "(unat a - ?b) div 512 < unat al" if "?b \<le> unat a \<and> unat a < ?b + 512 * unat al"
      using that by (intro less_mult_imp_div_less) auto
    ultimately show "?l a = ?r a" using sec by simp
  qed
  show ?thesis
    unfolding chs(1) int13_read_track_def int13_def Let_def
    by (intro exI conjI, rule refl) (simp add: chs(2-4) track del: add_Suc of_nat_mult)
qed

text \<open>A string in the boot sector that does not overlap the drive number.\<close>

definition message_at :: "'a boot_scheme \<Rightarrow> u16 \<Rightarrow> string \<Rightarrow> bool" where
  "message_at s msg str \<longleftrightarrow> 0x7C3E \<le> unat msg \<and> unat msg + length str + 3 \<le> 0x7E00 \<and>
     string_ds (s\<lparr>ds := 0\<rparr>) msg (db (str @ [CHR 0x0D, CHR 0x0A]))"

lemma message_survives:
  assumes "message_at s msg str" "ds s' = 0" "\<And>a. 0x7C3E \<le> unat a \<Longrightarrow> unat a < 0x7E00 \<Longrightarrow> bmem s' a = bmem s a"
  shows "string_ds s' msg (db (str @ [CHR 0x0D, CHR 0x0A]))"
proof -
  let ?bs = "db (str @ [CHR 0x0D, CHR 0x0A])"
  have m: "0x7C3E \<le> unat msg" "unat msg + length str + 3 \<le> 0x7E00" using assms(1) by (simp_all add: message_at_def)
  have "string_ds s' msg ?bs = string_ds (s\<lparr>ds := 0\<rparr>) msg ?bs"
  proof (rule string_ds_cong)
    fix i assume i: "i \<le> length ?bs"
    then have "unat (msg + of_nat i) = unat msg + i" using m by (subst unat_plus_small) (simp_all add: unat_of_nat_small db_def)
    then have "unat (linear_address 0 (msg + of_nat i)) = unat msg + i" by (simp add: linear_address_unat)
    then show "byte_ds (msg + of_nat i) s' = byte_ds (msg + of_nat i) (s\<lparr>ds := 0\<rparr>)"
      using m i assms(2) by (simp add: byte_ds_def db_def assms(3))
  qed (simp add: assms(2))
  then show ?thesis using assms(1) by (simp add: message_at_def)
qed

definition stage1_says :: "u16 \<Rightarrow> string \<Rightarrow> (u16 \<times> u16) list" where
  "stage1_says bx str = teletype bx (db (str @ [CHR 0x0D, CHR 0x0A]))"

lemma stage1_spec:
  assumes bpb: "boot_sector_at s" and ml: "message_at s msg_loading ''Loading Stage 2...''" and me: "message_at s msg_error ''Disk Read Error''"
  shows "\<exists>out s'. stage1_start msg_loading msg_error dl bx s = Some (out, s') \<and>
    (if int13_fails s (int13_calls s)
     then out = Reboot \<and> int10_trace s' = int10_trace s @ stage1_says bx ''Loading Stage 2...'' @ stage1_says 0 ''Disk Read Error''
     else out = EnterStage2 dl \<and>
       s' = s\<lparr>ds := 0, int10_trace := int10_trace s @ stage1_says bx ''Loading Stage 2...'', int13_calls := Suc (int13_calls s),
         bmem := (\<lambda>a. if 0x5000 \<le> unat a \<and> unat a < 0x7000 then floppy_sector s dl (2864 + (unat a - 0x5000) div 512) ((unat a - 0x5000) mod 512)
           else if a = 0x7C24 then dl else bmem s a)\<rparr>)"
proof -
  let ?s1 = "s\<lparr>ds := 0, bmem := (bmem s)(0x7C24 := dl)\<rparr>"
  let ?s2 = "?s1\<lparr>int10_trace := int10_trace s @ stage1_says bx ''Loading Stage 2...''\<rparr>"
  have a: "linear_address 0 DriveNumber = 0x7C24" "linear_address STAGE2_SEGMENT 0 = 0x5000"
    by (simp_all add: linear_address_def DriveNumber_def STAGE2_SEGMENT_def)
  have one: "set_byte_ds DriveNumber dl (s\<lparr>ds := 0\<rparr>) = ?s1" by (simp add: set_byte_ds_def a)
  have "string_ds ?s1 msg_loading (db (''Loading Stage 2...'' @ [CHR 0x0D, CHR 0x0A]))" by (rule message_survives [OF ml]) auto
  from puts_prints [OF this, of bx] have two: "puts msg_loading bx ?s1 = Some ?s2" by (simp add: stage1_says_def)
  have dn: "byte_ds DriveNumber ?s2 = dl" by (simp add: byte_ds_def a)
  have "of_nat (0x7C03 + i) \<noteq> (0x7C24 :: u32)" if "i < 59" "i \<noteq> 33" for i
    using that unat_of_nat_small [of "0x7C03 + i", where 'a = 32] unfolding unat_inj by simp
  then have bpb2: "boot_sector_at ?s2" using bpb by (simp add: boot_sector_at_def bios_parameter_block_def db_def dw_def dd_def del: of_nat_add)
  have c: "unat STAGE2_FIRST_LBA = 2864" "unat STAGE2_SECTORS = 16" "unat STAGE2_SEGMENT = 0x500"
    by (simp_all add: STAGE2_FIRST_LBA_def STAGE2_SECTORS_def STAGE2_SEGMENT_def)
  have n: "16 * 0x500 + unat (0 :: u16) = 0x5000" "0x5000 + 512 * 16 = (0x7000 :: nat)" by simp_all
  obtain ch cl dh where r: "chs_of_lba STAGE2_FIRST_LBA ?s2 = Some (ch, cl, dh)"
    "int13_read_track STAGE2_SECTORS ch cl dh dl STAGE2_SEGMENT 0 ?s2 = (let s' = ?s2\<lparr>int13_calls := Suc (int13_calls ?s2)\<rparr>
      in if int13_fails ?s2 (int13_calls ?s2) then (True, s')
        else (False, s'\<lparr>bmem := (\<lambda>a. if 0x5000 \<le> unat a \<and> unat a < 0x7000
          then floppy_sector ?s2 dl (2864 + (unat a - 0x5000) div 512) ((unat a - 0x5000) mod 512) else bmem ?s2 a)\<rparr>))"
    using read_track_sectors [OF bpb2, of STAGE2_FIRST_LBA STAGE2_SECTORS STAGE2_SEGMENT 0 dl] unfolding c n by auto
  show ?thesis
  proof (cases "int13_fails s (int13_calls s)")
    case True
    let ?s3 = "?s2\<lparr>int13_calls := Suc (int13_calls s)\<rparr>"
    have "string_ds ?s3 msg_error (db (''Disk Read Error'' @ [CHR 0x0D, CHR 0x0A]))" by (rule message_survives [OF me]) auto
    from puts_prints [OF this, of 0] have "disk_error msg_error 0 ?s3 = Some (Reboot, ?s3\<lparr>int10_trace := int10_trace ?s3 @ stage1_says 0 ''Disk Read Error''\<rparr>)"
      by (simp add: disk_error_def stage1_says_def)
    then show ?thesis using True by (simp add: stage1_start_def one two r dn)
  next
    case False
    let ?m = "\<lambda>a. if 0x5000 \<le> unat a \<and> unat a < 0x7000 then floppy_sector s dl (2864 + (unat a - 0x5000) div 512) ((unat a - 0x5000) mod 512)
           else if a = 0x7C24 then dl else bmem s a"
    have f: "floppy_sector ?s2 dl = floppy_sector s dl" by (simp add: floppy_sector_def fun_eq_iff)
    have run: "int13_read_track STAGE2_SECTORS ch cl dh dl STAGE2_SEGMENT 0 ?s2 = (False, ?s2\<lparr>int13_calls := Suc (int13_calls s), bmem := ?m\<rparr>)"
      unfolding r(2) f using False by (simp add: fun_upd_def cong: if_cong)
    have "byte_ds DriveNumber (?s2\<lparr>int13_calls := Suc (int13_calls s), bmem := ?m\<rparr>) = dl" by (simp add: byte_ds_def a)
    then show ?thesis using False by (simp add: stage1_start_def one two r(1) dn run)
  qed
qed

text \<open>Reading one sector with up to three attempts. The retry counter lies in the boot sector behind the parameter block.\<close>

definition retry_room :: "u16 \<Rightarrow> u16 \<Rightarrow> 'a boot_scheme \<Rightarrow> bool" where
  "retry_room RetryCount msg_error s \<longleftrightarrow> boot_sector_at s \<and> ds s = 0 \<and> 0x7C3E \<le> unat RetryCount \<and> unat RetryCount < 0x7E00 \<and>
     (\<exists>bs. \<forall>n. string_ds (set_byte_ds RetryCount n s) msg_error bs)"

lemma retry_room_step:
  assumes "retry_room RetryCount msg_error s"
  shows "retry_room RetryCount msg_error (set_byte_ds RetryCount n (s\<lparr>int13_calls := k\<rparr>))"
proof -
  have r: "boot_sector_at s" "ds s = 0" "0x7C3E \<le> unat RetryCount" using assms by (simp_all add: retry_room_def)
  have "of_nat (0x7C03 + i) \<noteq> linear_address 0 RetryCount" if "i < 59" for i
    using that r(3) unat_of_nat_small [of "0x7C03 + i", where 'a = 32] unfolding unat_inj by (simp add: linear_address_unat)
  then have "boot_sector_at (set_byte_ds RetryCount n (s\<lparr>int13_calls := k\<rparr>))" using r(1,2)
    by (simp add: boot_sector_at_def set_byte_ds_def bios_parameter_block_def db_def dw_def dd_def del: of_nat_add)
  moreover have "string_ds (set_byte_ds RetryCount i (set_byte_ds RetryCount n (s\<lparr>int13_calls := k\<rparr>))) msg bs = string_ds (set_byte_ds RetryCount i s) msg bs" for i msg bs
    by (rule string_ds_cong) (simp_all add: set_byte_ds_def byte_ds_def)
  ultimately show ?thesis using assms by (simp add: retry_room_def) (simp add: set_byte_ds_def)
qed

lemma one_attempt:
  assumes "boot_sector_at s" "ds s = 0" "unat ax < 1024 * 36"
  shows "disk_read_retry RetryCount msg_error ax es bx s =
    (if \<not> int13_fails s (int13_calls s)
     then Some (None, s\<lparr>int13_calls := Suc (int13_calls s), bmem := copy_sector (linear_address es bx) (floppy_sector s (byte_ds DriveNumber s) (unat ax)) (bmem s)\<rparr>)
     else let s = s\<lparr>int13_calls := Suc (Suc (int13_calls s))\<rparr>; n = byte_ds RetryCount s - 1; s = set_byte_ds RetryCount n s
          in if n \<noteq> 0 then disk_read_retry RetryCount msg_error ax es bx s
             else do { (out, s) \<leftarrow> disk_error msg_error bx s; Some (Some out, s) })"
proof -
  obtain ch cl dh where chs: "chs_of_lba ax s = Some (ch, cl, dh)" "unat ch + 256 * unat (drop_bit 6 cl) = unat ax div 36"
    "unat dh = unat ax div 18 mod 2" "unat (cl AND 0x3F) = Suc (unat ax mod 18)" using chs_of_lba_spec [OF assms] by blast
  have "int13_read ch cl dh dl es bx s = (int13_fails s (int13_calls s), if int13_fails s (int13_calls s) then s\<lparr>int13_calls := Suc (int13_calls s)\<rparr>
    else s\<lparr>int13_calls := Suc (int13_calls s), bmem := copy_sector (linear_address es bx) (floppy_sector s dl (unat ax)) (bmem s)\<rparr>)" for dl
    by (simp add: int13_read_def int13_def chs(2-4) floppy_sector_def)
  then show ?thesis by (simp add: disk_read_retry.simps [of RetryCount msg_error ax es bx s] chs(1) disk_reset_def int13_def Let_def)
qed

lemma disk_read_retry_spec:
  assumes "retry_room RetryCount msg_error s" "byte_ds RetryCount s = of_nat (Suc n)" "n < 3" "unat ax < 1024 * 36"
  shows "\<exists>out s'. disk_read_retry RetryCount msg_error ax es bx s = Some (out, s') \<and>
    (if \<exists>k \<le> n. \<not> int13_fails s (int13_calls s + 2 * k)
     then out = None \<and> (\<forall>a. 16 * unat es + unat bx \<le> unat a \<and> unat a < 16 * unat es + unat bx + 512 \<longrightarrow>
       bmem s' a = floppy_sector s (byte_ds DriveNumber s) (unat ax) (unat a - (16 * unat es + unat bx)))
     else out = Some Reboot)"
  using assms
proof (induction n arbitrary: s)
  case (0 s)
  then have r: "boot_sector_at s" "ds s = 0" by (simp_all add: retry_room_def)
  let ?s = "set_byte_ds RetryCount 0 (s\<lparr>int13_calls := Suc (Suc (int13_calls s))\<rparr>)"
  obtain bs where "string_ds (set_byte_ds RetryCount 0 s) msg_error bs" using 0(1) unfolding retry_room_def by blast
  moreover have "string_ds ?s msg_error bs = string_ds (set_byte_ds RetryCount 0 s) msg_error bs"
    by (rule string_ds_cong) (simp_all add: set_byte_ds_def byte_ds_def)
  ultimately obtain s' where "disk_error msg_error bx ?s = Some (Reboot, s')" by (simp add: disk_error_def puts_prints)
  moreover have "byte_ds RetryCount (s\<lparr>int13_calls := k\<rparr>) - 1 = 0" for k using 0(2) by (simp add: byte_ds_def)
  moreover have "16 * unat es + unat bx + 512 \<le> 2 ^ 32" using unat_lt [of es] unat_lt [of bx] by simp
  ultimately show ?case unfolding one_attempt [OF r 0(4)] by (simp add: Let_def copy_sector_unat [OF _ linear_address_unat])
next
  case (Suc n s)
  have r: "boot_sector_at s" "ds s = 0" "0x7C3E \<le> unat RetryCount" using Suc.prems(1) by (simp_all add: retry_room_def)
  note run = one_attempt [OF r(1,2) Suc.prems(4), of RetryCount msg_error es bx]
  have b: "16 * unat es + unat bx + 512 \<le> 2 ^ 32" using unat_lt [of es] unat_lt [of bx] by simp
  show ?case
  proof (cases "int13_fails s (int13_calls s)")
    case False
    then have "\<exists>k \<le> Suc n. \<not> int13_fails s (int13_calls s + 2 * k)" by (intro exI [of _ 0]) simp
    with False show ?thesis unfolding run by (simp add: copy_sector_unat [OF b linear_address_unat])
  next
    case True
    let ?s = "set_byte_ds RetryCount (of_nat (Suc n)) (s\<lparr>int13_calls := Suc (Suc (int13_calls s))\<rparr>)"
    have nz: "of_nat (Suc n) \<noteq> (0 :: u8)" using Suc.prems(3) unat_of_nat_small [of "Suc n", where 'a = 8] by (auto simp del: of_nat_Suc)
    have "byte_ds RetryCount (s\<lparr>int13_calls := k\<rparr>) - 1 = of_nat (Suc n)" for k using Suc.prems(2) by (simp add: byte_ds_def)
    then have step: "disk_read_retry RetryCount msg_error ax es bx s = disk_read_retry RetryCount msg_error ax es bx ?s"
      unfolding run Let_def using True nz by (simp only: not_True_eq_False if_False if_True simp_thms)
    have "linear_address 0 DriveNumber \<noteq> linear_address 0 RetryCount"
      using r(3) by (auto simp: unat_inj linear_address_unat DriveNumber_def)
    then have f: "byte_ds DriveNumber ?s = byte_ds DriveNumber s" "int13_fails ?s = int13_fails s" "int13_calls ?s = Suc (Suc (int13_calls s))"
      "floppy_sector ?s = floppy_sector s" by (simp_all add: set_byte_ds_def byte_ds_def floppy_sector_def fun_eq_iff r(2))
    have "(\<exists>k \<le> Suc n. \<not> int13_fails s (int13_calls s + 2 * k)) \<longleftrightarrow> (\<exists>k \<le> n. \<not> int13_fails s (Suc (Suc (int13_calls s)) + 2 * k))"
    proof -
      have "(\<exists>k \<le> Suc n. P k) \<longleftrightarrow> P 0 \<or> (\<exists>k \<le> n. P (Suc k))" for P :: "nat \<Rightarrow> bool" by (metis Suc_le_mono le0 not0_implies_Suc)
      from this [of "\<lambda>k. \<not> int13_fails s (int13_calls s + 2 * k)"] True show ?thesis by simp
    qed
    moreover have "\<exists>out s'. disk_read_retry RetryCount msg_error ax es bx ?s = Some (out, s') \<and>
      (if \<exists>k \<le> n. \<not> int13_fails ?s (int13_calls ?s + 2 * k)
       then out = None \<and> (\<forall>a. 16 * unat es + unat bx \<le> unat a \<and> unat a < 16 * unat es + unat bx + 512 \<longrightarrow>
         bmem s' a = floppy_sector ?s (byte_ds DriveNumber ?s) (unat ax) (unat a - (16 * unat es + unat bx)))
       else out = Some Reboot)"
      by (rule Suc.IH) (use Suc.prems(3,4) in \<open>simp_all add: retry_room_step [OF Suc.prems(1)] del: of_nat_Suc, simp add: set_byte_ds_def byte_ds_def\<close>)
    ultimately show ?thesis unfolding step f by simp
  qed
qed

lemma disk_read_spec:
  assumes "retry_room RetryCount msg_error s" "unat ax < 1024 * 36"
  shows "\<exists>out s'. disk_read RetryCount msg_error ax es bx s = Some (out, s') \<and>
    (if \<exists>k < 3. \<not> int13_fails s (int13_calls s + 2 * k)
     then out = None \<and> (\<forall>a. 16 * unat es + unat bx \<le> unat a \<and> unat a < 16 * unat es + unat bx + 512 \<longrightarrow>
       bmem s' a = floppy_sector s (byte_ds DriveNumber s) (unat ax) (unat a - (16 * unat es + unat bx)))
     else out = Some Reboot)"
proof -
  let ?s = "set_byte_ds RetryCount 3 s"
  have r: "ds s = 0" "0x7C3E \<le> unat RetryCount" using assms(1) by (simp_all add: retry_room_def)
  have "linear_address 0 DriveNumber \<noteq> linear_address 0 RetryCount" using r(2) by (auto simp: unat_inj linear_address_unat DriveNumber_def)
  then have f: "byte_ds DriveNumber ?s = byte_ds DriveNumber s" "int13_fails ?s = int13_fails s" "int13_calls ?s = int13_calls s"
    "floppy_sector ?s = floppy_sector s" by (simp_all add: set_byte_ds_def byte_ds_def floppy_sector_def fun_eq_iff r(1))
  have "retry_room RetryCount msg_error ?s" using retry_room_step [OF assms(1), of 3 "int13_calls s"] by simp
  moreover have "byte_ds RetryCount ?s = of_nat (Suc 2)" by (simp add: set_byte_ds_def byte_ds_def)
  moreover have "(\<exists>k \<le> 2. P k) \<longleftrightarrow> (\<exists>k < 3. P k)" for P :: "nat \<Rightarrow> bool" by (simp add: less_Suc_eq_le numeral_3_eq_3 numeral_2_eq_2)
  ultimately show ?thesis using disk_read_retry_spec [of RetryCount msg_error ?s 2 ax es bx] assms(2) unfolding f by (simp add: disk_read_def)
qed

section \<open>A concrete boot sector\<close>

definition boot_loaded :: boot where
  "boot_loaded = floppy\<lparr>int13_fails := (\<lambda>_. False), bmem := (\<lambda>a.
     if 0x7C03 \<le> unat a \<and> unat a < 0x7C3E then bios_parameter_block ! (unat a - 0x7C03)
     else if 0x7D00 \<le> unat a \<and> unat a < 0x7D14 then db (''Loading Stage 2...'' @ [CHR 0x0D, CHR 0x0A]) ! (unat a - 0x7D00)
     else if 0x7D40 \<le> unat a \<and> unat a < 0x7D51 then db (''Disk Read Error'' @ [CHR 0x0D, CHR 0x0A]) ! (unat a - 0x7D40)
     else 0)\<rparr>"

lemma boot_loaded:
  "boot_sector_at boot_loaded" "message_at boot_loaded 0x7D00 ''Loading Stage 2...''" "message_at boot_loaded 0x7D40 ''Disk Read Error''"
proof -
  show "boot_sector_at boot_loaded" unfolding boot_sector_at_def
  proof (intro allI impI)
    fix i assume "i < length bios_parameter_block" "i \<noteq> 33"
    then have i: "i < 59" by (simp add: bios_parameter_block_def db_def dw_def dd_def)
    then have "unat (of_nat (0x7C03 + i) :: u32) = 0x7C03 + i" by (intro unat_of_nat_small) simp
    then show "bmem boot_loaded (of_nat (0x7C03 + i)) = bios_parameter_block ! i" using i by (simp add: boot_loaded_def del: of_nat_add)
  qed
  show "message_at boot_loaded 0x7D00 ''Loading Stage 2...''" "message_at boot_loaded 0x7D40 ''Disk Read Error''"
    by (simp_all add: message_at_def boot_loaded_def byte_ds_def linear_address_def db_def)
qed

section \<open>Properties\<close>



end
