(* ===== verification/Loader.thy ===== *)
theory Loader
  imports Stage1 Fat12
begin

text \<open>
  The boot loader from the boot sector to the jump to the kernel: the real-mode part of \<^verbatim>\<open>boot/stage2/entry.asm\<close>, which calls
  \<^verbatim>\<open>stage2_main\<close>, and the theorem that puts both stages together. On a floppy with the boot sector's own parameter block that
  has a kernel file in its root directory, and without read errors, the loader ends with the whole file at
  address 9000h.
\<close>

section \<open>The code\<close>

text \<open>The second stage prints with the same instructions as the boot sector, without saving registers.\<close>

definition stage2_puts :: "u16 \<Rightarrow> u16 \<Rightarrow> 'a boot_scheme \<Rightarrow> 'a boot_scheme option" where
  "stage2_puts si bx s = puts si bx s"

definition stage2_start :: "u16 \<Rightarrow> u16 \<Rightarrow> u8 \<Rightarrow> u16 \<Rightarrow> 'a fat_scheme \<Rightarrow> (outcome \<times> 'a fat_scheme) option" where
  "stage2_start message cs dl bx s =
     do { let s = s\<lparr>ds := cs\<rparr>;
          let s = s\<lparr>g_drive := dl\<rparr>;
          s \<leftarrow> stage2_puts message bx s;
          stage2_main s }"

text \<open>One stage after the other; None is a reboot.\<close>

definition boot_run :: "u16 \<Rightarrow> u16 \<Rightarrow> u16 \<Rightarrow> u8 \<Rightarrow> u16 \<Rightarrow> 'a fat_scheme \<Rightarrow> (outcome option \<times> 'a fat_scheme) option" where
  "boot_run msg_loading msg_error message dl bx s =
     do { (out, s) \<leftarrow> stage1_start msg_loading msg_error dl bx s;
          case out of
            Reboot \<Rightarrow> Some (None, s)
          | EnterStage2 dl \<Rightarrow> do { (out, s) \<leftarrow> stage2_start message STAGE2_SEGMENT dl 0 s; Some (Some out, s) } }"

section \<open>The floppy\<close>

text \<open>A 1.44 MB floppy in the drive, whose first sector is the boot sector, and which can be read.\<close>

definition floppy_in :: "u8 \<Rightarrow> 'a boot_scheme \<Rightarrow> bool" where
  "floppy_in dl s \<longleftrightarrow> fst (drive_geometry s dl) AND 0x3F = 18 \<and> snd (drive_geometry s dl) = 1 \<and> (\<forall>n. \<not> int13_fails s n) \<and>
     (\<forall>i < length bios_parameter_block. floppy_sector s dl 0 (3 + i) = bios_parameter_block ! i)"

text \<open>What the variables of the second stage are once it has read the parameter block.\<close>

definition mounted :: "u8 \<Rightarrow> 'a fat_scheme \<Rightarrow> 'a fat_scheme" where
  "mounted dl s = s\<lparr>g_drive := dl, g_sectors_per_track := 18, g_num_heads := 2, g_num_fats := 2, g_sectors_per_cluster := 1,
     g_bytes_per_sector := 512, g_reserved_sectors := 1, g_root_entry_count := 224, g_total_sectors := 2880, g_sectors_per_fat := 9,
     g_root_dir_sectors := 14, g_first_data_sector := 33, g_first_fat_sector := 1, g_first_root_dir_sector := 19,
     g_data_sectors := 2847, g_cluster_count := 2847, g_root_dir_first_sector := 19\<rparr>"

lemma sector_floppy:
  assumes "g_sectors_per_track s = 18" "g_num_heads s = 2"
  shows "sector s = floppy_sector s (g_drive s)"
proof
  fix lba show "sector s lba = floppy_sector s (g_drive s) lba"
    using div_mult2_eq [of lba 18 2] by (simp add: sector_def floppy_sector_def assms)
qed

lemma bpb_bytes: "length bios_parameter_block = 59"
  "map ((!) bios_parameter_block) [8, 9, 10, 11, 12, 13, 14, 15, 16, 17, 19, 20] = [0, 2, 1, 1, 0, 2, 0xE0, 0, 0x40, 0x0B, 9, 0]"
  by (simp_all add: bios_parameter_block_def db_def dw_def dd_def)

text \<open>Reading the parameter block: exactly the layout of the floppy.\<close>

lemma parse_bpb_floppy:
  assumes "\<forall>i < length bios_parameter_block. near BOOT_SECTOR_SEG s (3 + i) = bios_parameter_block ! i"
  shows "map_option fat_layout (parse_bpb s) = Some (0, (mounted (g_drive s) s)\<lparr>g_sectors_per_track := g_sectors_per_track s, g_num_heads := g_num_heads s\<rparr>)"
proof -
  let ?b = "near BOOT_SECTOR_SEG s"
  have b: "?b (3 + i) = bios_parameter_block ! i" if "i < 59" for i using assms that by (simp add: bpb_bytes(1))
  have bytes: "?b 11 = 0" "?b 12 = 2" "?b 13 = 1" "?b 14 = 1" "?b 15 = 0" "?b 16 = 2" "?b 17 = 0xE0" "?b 18 = 0" "?b 19 = 0x40" "?b 20 = 0x0B" "?b 22 = 9" "?b 23 = 0"
    using b [of 8] b [of 9] b [of 10] b [of 11] b [of 12] b [of 13] b [of 14] b [of 15] b [of 16] b [of 17] b [of 19] b [of 20] bpb_bytes(2) by simp_all
  have w: "read_le16 (\<lambda>i. ?b (11 + i)) = 512" "read_le16 (\<lambda>i. ?b (14 + i)) = 1" "read_le16 (\<lambda>i. ?b (17 + i)) = 224"
    "read_le16 (\<lambda>i. ?b (19 + i)) = 2880" "read_le16 (\<lambda>i. ?b (22 + i)) = 9"
    by (simp_all add: read_le16_def bytes)
  show ?thesis by (simp add: parse_bpb_def Let_def w bytes fat_layout_def mounted_def)
qed

lemma floppy_geometry:
  assumes "g_sectors_per_track s = 18" "g_num_heads s = 2"
  shows "geometry_ok s" "disk_size s = 36864"
  using assms by (simp_all add: geometry_ok_def disk_size_def)

lemma floppy_reads: "floppy_in dl s \<Longrightarrow> int13_fails s' = int13_fails s \<Longrightarrow> read_succeeds s'"
  by (auto simp: floppy_in_def read_succeeds_def intro: exI [of _ 0])

lemma boot_rest_mounted: "boot_rest s' = boot_rest s \<Longrightarrow> boot_rest (mounted dl s') = boot_rest (mounted dl s)"
proof -
  have c: "boot_rest (mounted dl t) = mounted dl (boot_rest t)" for t :: "'a fat_scheme" by (simp add: boot_rest_def mounted_def)
  assume "boot_rest s' = boot_rest s" then show ?thesis by (simp only: c)
qed

lemma fat_init_floppy:
  assumes "floppy_in dl s"
  shows "\<exists>s'. fat_init dl s = Some (0, s') \<and> boot_rest s' = boot_rest (mounted dl s) \<and>
    (\<forall>x. unat x < 16 * unat (ds s) + 0x2000 \<longrightarrow> bmem s' x = bmem s x)"
proof -
  obtain cl where g: "drive_geometry s dl = (cl, 1)" "cl AND 0x3F = 18" using assms by (cases "drive_geometry s dl") (auto simp: floppy_in_def)
  let ?s1 = "s\<lparr>g_drive := dl, int13_calls := Suc (int13_calls s), g_sectors_per_track := 18, g_num_heads := 2\<rparr>"
  have "\<not> int13_fails s n" for n using assms by (simp add: floppy_in_def)
  then have params: "disk_get_params (s\<lparr>g_drive := dl\<rparr>) = (0, ?s1)" by (simp add: disk_get_params_def int13_def g)
  note geo = floppy_geometry [of ?s1, simplified]
  have succ: "read_succeeds ?s1" by (rule floppy_reads [OF assms]) simp
  obtain n where read: "disk_read_sector 0 (ds s) BOOT_SECTOR_SEG ?s1 = Some (0, ?s1\<lparr>int13_calls := n,
      bmem := copy_sector (linear_address (ds s) BOOT_SECTOR_SEG) (sector ?s1 0) (bmem ?s1)\<rparr>)" (is "_ = Some (0, ?s2)")
    using disk_read_sector_spec [OF geo(1), of 0 "ds s" BOOT_SECTOR_SEG] succ geo(2) by auto
  have sec: "sector ?s1 0 = floppy_sector s dl 0" by (subst sector_floppy) (simp_all add: floppy_sector_def fun_eq_iff)
  have "near BOOT_SECTOR_SEG ?s2 i = floppy_sector s dl 0 i" if "i < 512" for i
    using near_copy [OF that, of BOOT_SECTOR_SEG ?s1 "sector ?s1 0" "bmem ?s1"] sec by (simp add: near_def BOOT_SECTOR_SEG_def)
  then have "\<forall>i < length bios_parameter_block. near BOOT_SECTOR_SEG ?s2 (3 + i) = bios_parameter_block ! i"
    using assms by (simp add: floppy_in_def bpb_bytes(1))
  from parse_bpb_floppy [OF this] have "map_option fat_layout (parse_bpb ?s2) =
    Some (0, (mounted (g_drive ?s2) ?s2)\<lparr>g_sectors_per_track := g_sectors_per_track ?s2, g_num_heads := g_num_heads ?s2\<rparr>)" .
  moreover have "(mounted (g_drive ?s2) ?s2)\<lparr>g_sectors_per_track := g_sectors_per_track ?s2, g_num_heads := g_num_heads ?s2\<rparr> = mounted dl ?s2"
    by (rule fat.equality) (simp_all add: mounted_def)
  ultimately have parse: "map_option fat_layout (parse_bpb ?s2) = Some (0, mounted dl ?s2)" by (simp only:)
  have "fat_init dl s = Some (0, mounted dl ?s2)"
    unfolding fat_init_def Let_def current_ds_def params using read parse by (simp only: prod.case) simp
  moreover have "boot_rest (mounted dl ?s2) = boot_rest (mounted dl s)" by (simp add: boot_rest_def mounted_def)
  moreover have "bmem (mounted dl ?s2) x = bmem s x" if "unat x < 16 * unat (ds s) + 0x2000" for x
    using read_sector_low [OF geo(1) read, of x] that by (simp add: mounted_def BOOT_SECTOR_SEG_def)
  ultimately show ?thesis by blast
qed

section \<open>The kernel file\<close>

definition kernel_entry :: "'a fat_scheme \<Rightarrow> (u16 \<times> u32) option" where
  "kernel_entry s = (case directory_lookup (bytes_of ''KERNEL     '') (root_directory s) of
     Some f \<Rightarrow> Some f | None \<Rightarrow> directory_lookup (bytes_of ''KERNEL  BIN'') (root_directory s))"

text \<open>The allocation table on the disk, the clusters of a file, and its bytes.\<close>

definition disk_table :: "'a boot_scheme \<Rightarrow> u8 \<Rightarrow> nat \<Rightarrow> u8" where
  "disk_table s dl i = floppy_sector s dl (1 + i div 512) (i mod 512)"

definition floppy_file :: "'a boot_scheme \<Rightarrow> u8 \<Rightarrow> u16 \<Rightarrow> nat \<Rightarrow> bool" where
  "floppy_file s dl first n \<longleftrightarrow> (\<forall>k. k * 512 < n \<longrightarrow> 2 \<le> unat (cluster_at (disk_table s dl) first k) \<and> unat (cluster_at (disk_table s dl) first k) < 2849)"

definition floppy_byte :: "'a boot_scheme \<Rightarrow> u8 \<Rightarrow> u16 \<Rightarrow> nat \<Rightarrow> u8" where
  "floppy_byte s dl first j = floppy_sector s dl (33 + (unat (cluster_at (disk_table s dl) first (j div 512)) - 2)) (j mod 512)"

lemma next_cluster_same:
  assumes "unat c < 2849" "\<And>i. i < 4608 \<Longrightarrow> t i = t' i"
  shows "fat12_next_cluster t c = fat12_next_cluster t' c"
  unfolding unat_inj using assms(1) by (simp add: next_cluster_unat Let_def) (auto intro!: arg_cong2 [of _ _ _ _ "(+)"] arg_cong [of _ _ unat] simp: assms(2))

lemma cluster_at_same:
  assumes "\<And>i. i < 4608 \<Longrightarrow> t i = t' i" "\<And>j. j < k \<Longrightarrow> unat (cluster_at t c j) < 2849"
  shows "cluster_at t' c k = cluster_at t c k"
  using assms(2)
proof (induction k)
  case (Suc k)
  then have "cluster_at t' c k = cluster_at t c k" "unat (cluster_at t c k) < 2849" by simp_all
  with next_cluster_same [of "cluster_at t c k" t t'] assms(1) show ?case by (simp add: cluster_at_def)
qed (simp add: cluster_at_def)

text \<open>The second stage has mounted the floppy.\<close>

definition floppy_mounted :: "u8 \<Rightarrow> 'b boot_scheme \<Rightarrow> 'a fat_scheme \<Rightarrow> bool" where
  "floppy_mounted dl s t \<longleftrightarrow> g_drive t = dl \<and> g_sectors_per_track t = 18 \<and> g_num_heads t = 2 \<and> g_bytes_per_sector t = 512 \<and>
     g_sectors_per_cluster t = 1 \<and> g_sectors_per_fat t = 9 \<and> g_first_fat_sector t = 1 \<and> g_first_data_sector t = 33 \<and>
     g_first_root_dir_sector t = 19 \<and> g_root_dir_sectors t = 14 \<and> ds t = ds s \<and> disk_image t = disk_image s \<and> int13_fails t = int13_fails s"

lemma floppy_mounted_rest:
  assumes "boot_rest t' = boot_rest t" "floppy_mounted dl s t"
  shows "floppy_mounted dl s t'"
  using assms(2) rest_same [OF assms(1)] by (simp add: floppy_mounted_def)

lemma floppy_mounted_emit [simp]: "floppy_mounted dl s (emit m t) = floppy_mounted dl s t"
  by (simp add: floppy_mounted_def emit_def)

lemma floppy_mounted_facts:
  assumes "floppy_mounted dl s t"
  shows "geometry_ok t" "disk_size t = 36864" "sector t = floppy_sector s dl"
    "i < 4608 \<Longrightarrow> fat_table t i = disk_table s dl i"
proof -
  show "geometry_ok t" "disk_size t = 36864" using assms floppy_geometry [of t] by (simp_all add: floppy_mounted_def)
  show sec: "sector t = floppy_sector s dl"
    using assms sector_floppy [of t] by (simp add: floppy_mounted_def floppy_sector_def fun_eq_iff)
  show "i < 4608 \<Longrightarrow> fat_table t i = disk_table s dl i"
    using assms by (simp add: fat_table_def disk_table_def sec) (simp add: floppy_mounted_def)
qed

lemma root_directory_floppy:
  assumes "floppy_mounted dl s t"
  shows "root_directory t = concat (map (\<lambda>i. map (\<lambda>j. dir_entry (\<lambda>k. floppy_sector s dl (19 + i) (32 * j + k))) [0..<16]) [0..<14])"
proof -
  have "unat (g_first_root_dir_sector t) = 19" "unat (g_root_dir_sectors t) = 14" using assms by (simp_all add: floppy_mounted_def)
  then show ?thesis by (simp only: root_directory_def sector_entries_def floppy_mounted_facts(3) [OF assms])
qed

lemma find_file_floppy:
  assumes "floppy_mounted dl s t" "\<forall>n. \<not> int13_fails s n"
  shows "\<exists>t'. fat_find_file name83 t = Some (directory_lookup name83 (root_directory t), t') \<and> floppy_mounted dl s t' \<and>
    (\<forall>x. unat x < 16 * unat (ds s) + 0x2000 \<longrightarrow> bmem t' x = bmem t x)"
proof -
  have "unat (g_first_root_dir_sector t) + unat (g_root_dir_sectors t) \<le> disk_size t" "g_bytes_per_sector t = 512" "int13_fails t = int13_fails s"
    using assms(1) floppy_mounted_facts(2) [OF assms(1)] by (simp_all add: floppy_mounted_def)
  with find_file_spec [OF floppy_mounted_facts(1) [OF assms(1)], of name83] assms(2) obtain t' where
    "fat_find_file name83 t = Some (directory_lookup name83 (root_directory t), t')" "boot_rest t' = boot_rest t" by auto
  moreover have "bmem t' x = bmem t x" if "unat x < 16 * unat (ds s) + 0x2000" for x
    using find_loop_low [OF floppy_mounted_facts(1) [OF assms(1)] calculation(1) [unfolded fat_find_file_def], of x] that assms(1) by (simp add: floppy_mounted_def)
  ultimately show ?thesis using floppy_mounted_rest assms(1) by blast
qed

lemma find_kernel_floppy:
  assumes "floppy_mounted dl s t" "\<forall>n. \<not> int13_fails s n"
  shows "\<exists>t'. find_kernel t = Some (kernel_entry t, t') \<and> floppy_mounted dl s t' \<and>
    (\<forall>x. unat x < 16 * unat (ds s) + 0x2000 \<longrightarrow> bmem t' x = bmem t x)"
proof -
  obtain t1 where t1: "fat_find_file (bytes_of ''KERNEL     '') t = Some (directory_lookup (bytes_of ''KERNEL     '') (root_directory t), t1)" "floppy_mounted dl s t1"
    "\<forall>x. unat x < 16 * unat (ds s) + 0x2000 \<longrightarrow> bmem t1 x = bmem t x"
    using find_file_floppy [OF assms] by blast
  obtain t2 where t2: "fat_find_file (bytes_of ''KERNEL  BIN'') t1 = Some (directory_lookup (bytes_of ''KERNEL  BIN'') (root_directory t1), t2)" "floppy_mounted dl s t2"
    "\<forall>x. unat x < 16 * unat (ds s) + 0x2000 \<longrightarrow> bmem t2 x = bmem t1 x"
    using find_file_floppy [OF t1(2) assms(2)] by blast
  have "root_directory t1 = root_directory t" by (simp only: root_directory_floppy [OF assms(1)] root_directory_floppy [OF t1(2)])
  with t1 t2 show ?thesis by (simp add: find_kernel_def kernel_entry_def split: option.splits)
qed

lemma load_file_floppy:
  assumes m: "floppy_mounted dl s t" and ok: "\<forall>i. \<not> int13_fails s i" and seg: "ds s = 0x500"
    and kf: "floppy_file s dl c (unat n)" and n: "0 < unat n" "unat n \<le> 0x8F000"
  shows "\<exists>t'. fat_load_file c n KERNEL_SEG t = Some (0, t') \<and> (\<forall>j < unat n. bmem t' (of_nat (0x9000 + j)) = floppy_byte s dl c j) \<and>
    (\<forall>x. unat x < 0x7000 \<longrightarrow> bmem t' x = bmem t x)"
proof -
  note f = floppy_mounted_facts [OF m]
  have fields: "g_bytes_per_sector t = 512" "unat (g_sectors_per_cluster t) = 1" "unat (g_sectors_per_fat t) = 9" "unat (g_first_fat_sector t) = 1"
    "unat (g_first_data_sector t) = 33" "unat (ds t) = 0x500" "int13_fails t = int13_fails s" "cluster_bytes t = 512"
    using m seg by (simp_all add: floppy_mounted_def cluster_bytes_def)
  have range: "2 \<le> unat (cluster_at (disk_table s dl) c k) \<and> unat (cluster_at (disk_table s dl) c k) < 2849" if "k * 512 < unat n" for k
    using kf that unfolding floppy_file_def by blast
  have same: "cluster_at (fat_table t) c k = cluster_at (disk_table s dl) c k" if "k * 512 < unat n" for k
  proof (rule cluster_at_same)
    fix j assume "j < k"
    then have "j * 512 < unat n" using that by (meson less_trans mult_less_cancel2 zero_less_numeral)
    with range show "unat (cluster_at (disk_table s dl) c j) < 2849" by blast
  qed (simp add: f(4))
  have chain: "chain_ok t (fat_table t) c (unat n)"
    unfolding chain_ok_def fields good_cluster_def using same range by fastforce
  have good: "good_cluster c" using range [of 0] n(1) by (simp add: good_cluster_def)
  have "file_byte t (fat_table t) c j = floppy_byte s dl c j" if "j < unat n" for j
  proof -
    have "j div 512 * 512 < unat n" using that by (metis div_times_less_eq_dividend le_less_trans)
    moreover have "j mod 512 div 512 = 0" by simp
    ultimately show ?thesis by (simp add: file_byte_def floppy_byte_def cluster_lba_def fields f(3) same)
  qed
  with load_file_spec [OF f(1) fields(1), of c n] chain good n(2) ok f(2) fields show ?thesis by auto
qed

section \<open>Both stages\<close>

lemma floppy_mounted_mounted: "ds t = ds s \<Longrightarrow> disk_image t = disk_image s \<Longrightarrow> int13_fails t = int13_fails s \<Longrightarrow> floppy_mounted dl s (mounted dl t)"
  by (simp add: floppy_mounted_def mounted_def)

lemma kernel_entry_floppy:
  assumes "floppy_mounted dl s t" "floppy_mounted dl s u"
  shows "kernel_entry t = kernel_entry u"
  by (simp only: kernel_entry_def root_directory_floppy [OF assms(1)] root_directory_floppy [OF assms(2)])

lemma stage2_main_loads:
  assumes fl: "floppy_in dl s" and dl: "g_drive s = dl" and seg: "ds s = 0x500" and ke: "kernel_entry (mounted dl s) = Some (c, n)"
    and kf: "floppy_file s dl c (unat n)" and n: "0 < unat n" "unat n \<le> 0x8F000"
  shows "\<exists>s'. stage2_main s = Some (JumpToKernel, s') \<and> last_message ''Starting kernel...'' s' \<and>
    (\<forall>j < unat n. bmem s' (of_nat (0x9000 + j)) = floppy_byte s dl c j) \<and> (\<forall>x. unat x < 0x7000 \<longrightarrow> bmem s' x = bmem s x)"
proof -
  have ok: "\<forall>i. \<not> int13_fails s i" using fl by (simp add: floppy_in_def)
  let ?s0 = "emit (''stage2_main reached!'' @ [CHR 0x0A]) s"
  have "floppy_in dl ?s0" using fl by (simp add: floppy_in_def emit_def floppy_sector_def)
  from fat_init_floppy [OF this] obtain s1 where s1: "fat_init dl ?s0 = Some (0, s1)" "boot_rest s1 = boot_rest (mounted dl ?s0)"
    "\<forall>x. unat x < 0x7000 \<longrightarrow> bmem s1 x = bmem s x" using seg by (auto simp: emit_def)
  have "floppy_mounted dl s (mounted dl ?s0)" by (rule floppy_mounted_mounted) (simp_all add: emit_def)
  then have m1: "floppy_mounted dl s (emit (''Looking for kernel...'' @ [CHR 0x0A]) s1)" using floppy_mounted_rest [OF s1(2)] by simp
  moreover have "floppy_mounted dl s (mounted dl s)" by (rule floppy_mounted_mounted) simp_all
  ultimately have ke': "kernel_entry (emit (''Looking for kernel...'' @ [CHR 0x0A]) s1) = Some (c, n)" using kernel_entry_floppy ke by metis
  from find_kernel_floppy [OF m1 ok] obtain s2 where
    s2: "find_kernel (emit (''Looking for kernel...'' @ [CHR 0x0A]) s1) = Some (Some (c, n), s2)" "floppy_mounted dl s s2"
    "\<forall>x. unat x < 0x7000 \<longrightarrow> bmem s2 x = bmem s1 x" unfolding ke' using seg by (auto simp: emit_def)
  from load_file_floppy [OF s2(2) ok seg kf n] obtain s3 where
    s3: "fat_load_file c n KERNEL_SEG s2 = Some (0, s3)" "\<forall>j < unat n. bmem s3 (of_nat (0x9000 + j)) = floppy_byte s dl c j"
    "\<forall>x. unat x < 0x7000 \<longrightarrow> bmem s3 x = bmem s2 x" by blast
  have drive: "g_drive ?s0 = dl" using dl by (simp add: emit_def)
  have "stage2_main s = Some (JumpToKernel, emit (''Starting kernel...'' @ [CHR 0x0A]) s3)"
    unfolding stage2_main_def bios_print_emit Let_def drive s1(1) using s2(1) s3(1) by simp
  moreover have "bmem (emit t s3) = bmem s3" for t by (simp add: emit_def)
  ultimately show ?thesis using s3(2,3) s2(3) s1(3) last_message_emit [of "''Starting kernel...''" s3] by (simp del: of_nat_add)
qed

text \<open>The second stage's message is part of its image on the disk.\<close>

definition stage2_message :: "u8 list" where
  "stage2_message = db (''Stage 2 reached!'' @ [CHR 0x0D, CHR 0x0A, CHR 0x00])"

definition stage2_on_disk :: "u16 \<Rightarrow> u8 \<Rightarrow> 'a boot_scheme \<Rightarrow> bool" where
  "stage2_on_disk message dl s \<longleftrightarrow> unat message + length stage2_message \<le> 16 * 512 \<and>
     (\<forall>i < length stage2_message. floppy_sector s dl (2864 + (unat message + i) div 512) ((unat message + i) mod 512) = stage2_message ! i)"

lemma stage2_message_string:
  assumes disk: "stage2_on_disk message dl s" and "ds t = 0x500"
    and mem: "\<And>i. i < 16 * 512 \<Longrightarrow> bmem t (of_nat (0x5000 + i)) = floppy_sector s dl (2864 + i div 512) (i mod 512)"
  shows "string_ds t message (butlast stage2_message)"
proof -
  have len: "unat message + length stage2_message \<le> 16 * 512" using disk by (simp add: stage2_on_disk_def)
  have b: "byte_ds (message + of_nat i) t = stage2_message ! i" if "i < length stage2_message" for i
  proof -
    have "unat (message + of_nat i) = unat message + i" using that len by (subst unat_plus_small) (simp_all add: unat_of_nat_small)
    then have "unat (linear_address 0x500 (message + of_nat i)) = 0x5000 + (unat message + i)" by (simp add: linear_address_unat)
    then have "linear_address 0x500 (message + of_nat i) = of_nat (0x5000 + (unat message + i))"
      using that len by (simp add: unat_inj unat_of_nat_small del: of_nat_add)
    then show ?thesis using that len disk by (simp add: byte_ds_def assms(2) mem stage2_on_disk_def del: of_nat_add)
  qed
  have l: "length stage2_message = 19" "stage2_message ! 18 = 0" "0 \<notin> set (butlast stage2_message)" by (simp_all add: stage2_message_def db_def)
  show ?thesis by (rule string_dsI) (use b [of 18] l in \<open>auto simp: b nth_butlast simp del: of_nat_numeral\<close>)
qed

lemma floppy_view:
  assumes "disk_image t = disk_image s" "int13_fails t = int13_fails s" "drive_geometry t = drive_geometry s"
  shows "floppy_sector t = floppy_sector s" "floppy_in dl t = floppy_in dl s" "floppy_file t = floppy_file s" "floppy_byte t = floppy_byte s"
proof -
  show f: "floppy_sector t = floppy_sector s" by (simp add: floppy_sector_def fun_eq_iff assms(1))
  have d: "disk_table t = disk_table s" by (simp add: disk_table_def fun_eq_iff f)
  show "floppy_in dl t = floppy_in dl s" "floppy_file t = floppy_file s" "floppy_byte t = floppy_byte s"
    by (simp_all add: floppy_in_def floppy_file_def floppy_byte_def fun_eq_iff f d assms)
qed

lemma boot_run_loads:
  assumes bs: "boot_sector_at s" and ms: "message_at s msg_loading ''Loading Stage 2...''" "message_at s msg_error ''Disk Read Error''"
    and fl: "floppy_in dl s" and st2: "stage2_on_disk message dl s" and ke: "kernel_entry (mounted dl s) = Some (c, n)"
    and kf: "floppy_file s dl c (unat n)" and n: "0 < unat n" "unat n \<le> 0x8F000"
  shows "\<exists>s'. boot_run msg_loading msg_error message dl bx s = Some (Some JumpToKernel, s') \<and> last_message ''Starting kernel...'' s' \<and>
    (\<forall>j < unat n. bmem s' (of_nat (0x9000 + j)) = floppy_byte s dl c j) \<and>
    (\<forall>i < 16 * 512. bmem s' (of_nat (0x5000 + i)) = floppy_sector s dl (2864 + i div 512) (i mod 512))"
proof -
  have "\<not> int13_fails s (int13_calls s)" using fl by (simp add: floppy_in_def)
  with stage1_spec [OF bs ms, of dl bx] obtain s1 where s1: "stage1_start msg_loading msg_error dl bx s = Some (EnterStage2 dl, s1)"
    "s1 = s\<lparr>ds := 0, int10_trace := int10_trace s @ stage1_says bx ''Loading Stage 2...'', int13_calls := Suc (int13_calls s),
         bmem := (\<lambda>a. if 0x5000 \<le> unat a \<and> unat a < 0x7000 then floppy_sector s dl (2864 + (unat a - 0x5000) div 512) ((unat a - 0x5000) mod 512)
           else if a = 0x7C24 then dl else bmem s a)\<rparr>" by auto
  let ?s2 = "s1\<lparr>ds := STAGE2_SEGMENT, g_drive := dl\<rparr>"
  have u: "unat (of_nat (0x5000 + i) :: u32) = 0x5000 + i" if "i < 16 * 512" for i by (rule unat_of_nat_small) (use that in simp)
  then have "string_ds ?s2 message (butlast stage2_message)"
    by (intro stage2_message_string [OF st2]) (simp_all add: s1(2) STAGE2_SEGMENT_def del: of_nat_add)
  from puts_prints [OF this, of 0] obtain s3 where s3: "stage2_puts message 0 ?s2 = Some s3" "s3 = ?s2\<lparr>int10_trace := int10_trace s3\<rparr>"
    by (auto simp: stage2_puts_def)
  have f: "disk_image s3 = disk_image s" "int13_fails s3 = int13_fails s" "drive_geometry s3 = drive_geometry s" "ds s3 = 0x500" "g_drive s3 = dl"
    by (subst s3(2), simp add: s1(2) STAGE2_SEGMENT_def)+
  note view = floppy_view [OF f(1-3)]
  have "floppy_mounted dl s3 (mounted dl s3)" "floppy_mounted dl s3 (mounted dl (s\<lparr>ds := 0x500\<rparr>))"
    by (rule floppy_mounted_mounted; simp add: f)+
  moreover have "root_directory (mounted dl (s\<lparr>ds := 0x500\<rparr>)) = root_directory (mounted dl s)"
    by (simp add: root_directory_def sector_entries_def sector_def mounted_def)
  then have "kernel_entry (mounted dl (s\<lparr>ds := 0x500\<rparr>)) = kernel_entry (mounted dl s)" by (simp only: kernel_entry_def)
  ultimately have "kernel_entry (mounted dl s3) = Some (c, n)" using ke kernel_entry_floppy by metis
  from stage2_main_loads [OF _ f(5,4) this, unfolded view, OF fl kf n] obtain s' where s': "stage2_main s3 = Some (JumpToKernel, s')"
    "last_message ''Starting kernel...'' s'" "\<forall>j < unat n. bmem s' (of_nat (0x9000 + j)) = floppy_byte s dl c j"
    "\<forall>x. unat x < 0x7000 \<longrightarrow> bmem s' x = bmem s3 x" by blast
  have "bmem s3 = bmem s1" by (subst s3(2)) simp
  then have "bmem s' (of_nat (0x5000 + i)) = floppy_sector s dl (2864 + i div 512) (i mod 512)" if "i < 16 * 512" for i
    using that s'(4) u [OF that] by (simp add: s1(2) del: of_nat_add)
  moreover have "boot_run msg_loading msg_error message dl bx s = Some (Some JumpToKernel, s')"
    using s1(1) s3(1) s'(1) by (simp add: boot_run_def stage2_start_def)
  ultimately show ?thesis using s'(2,3) by blast
qed

section \<open>A concrete floppy\<close>

text \<open>Parameter block, a table with one cluster in use, a directory with the file \<^verbatim>\<open>KERNEL\<close> of 100 bytes, its data, the second stage.\<close>

definition byte_of :: "u8 list \<Rightarrow> nat \<Rightarrow> u8" where
  "byte_of bs i = (if i < length bs then bs ! i else 0)"

definition image_byte :: "u8 list \<Rightarrow> u8 list \<Rightarrow> nat \<Rightarrow> nat \<Rightarrow> u8" where
  "image_byte st2 kf lba i =
     (if lba = 0 then if 3 \<le> i \<and> i < 62 then bios_parameter_block ! (i - 3) else 0
      else if lba = 1 then byte_at [(3, 0xFF), (4, 0x0F)] i
      else if lba = 19 then byte_at [(0, 0x4B), (1, 0x45), (2, 0x52), (3, 0x4E), (4, 0x45), (5, 0x4C), (6, 0x20), (7, 0x20),
        (8, 0x20), (9, 0x20), (10, 0x20), (11, 0x20), (26, 2), (28, 100)] i
      else if lba = 33 then byte_of kf i
      else if lba = 2864 then byte_of st2 i
      else 0)"

definition boot_floppy :: "u8 list \<Rightarrow> u8 list \<Rightarrow> fat" where
  "boot_floppy st2 kf = boot.extend (boot_loaded\<lparr>disk_image := (\<lambda>_ cyl hd sec. image_byte st2 kf (18 * (2 * cyl + hd) + sec - 1))\<rparr>)
     (fat.fields 0 0 0 0 0 0 0 0 0 0 0 0 0 0)"

lemma boot_floppy_sector: "floppy_sector (boot_floppy st2 kf) dl lba = image_byte st2 kf lba"
proof -
  have "2 * (lba div 36) + lba div 18 mod 2 = lba div 18" using div_mult2_eq [of lba 18 2] by simp
  moreover have "18 * (lba div 18) + lba mod 18 = lba" by simp
  ultimately have "18 * (2 * (lba div 36) + lba div 18 mod 2) + lba mod 18 = lba" by metis
  then show ?thesis by (simp add: floppy_sector_def boot_floppy_def boot.defs)
qed

lemma boot_floppy:
  "boot_sector_at (boot_floppy st2 kf)" "message_at (boot_floppy st2 kf) 0x7D00 ''Loading Stage 2...''" "message_at (boot_floppy st2 kf) 0x7D40 ''Disk Read Error''"
  "floppy_in 0 (boot_floppy st2 kf)" "take 19 st2 = stage2_message \<Longrightarrow> stage2_on_disk 0 0 (boot_floppy st2 kf)" "floppy_file (boot_floppy st2 kf) 0 2 100"
proof -
  have m: "bmem (boot_floppy st2 kf) = bmem boot_loaded" by (simp add: boot_floppy_def boot.defs)
  then show "boot_sector_at (boot_floppy st2 kf)" using boot_loaded(1) by (simp add: boot_sector_at_def)
  have "byte_ds off ((boot_floppy st2 kf)\<lparr>ds := 0\<rparr>) = byte_ds off (boot_loaded\<lparr>ds := 0\<rparr>)" for off by (simp add: byte_ds_def m)
  then have "string_ds ((boot_floppy st2 kf)\<lparr>ds := 0\<rparr>) si bs = string_ds (boot_loaded\<lparr>ds := 0\<rparr>) si bs" for si bs
    by (induction bs arbitrary: si) simp_all
  then show "message_at (boot_floppy st2 kf) 0x7D00 ''Loading Stage 2...''" "message_at (boot_floppy st2 kf) 0x7D40 ''Disk Read Error''"
    using boot_loaded(2,3) by (simp_all add: message_at_def)
  show "floppy_in 0 (boot_floppy st2 kf)"
    by (simp add: floppy_in_def boot_floppy_sector image_byte_def bpb_bytes(1)) (simp add: boot_floppy_def boot_loaded_def boot.defs floppy_def)
  have l: "length stage2_message = 19" by (simp add: stage2_message_def db_def)
  show "stage2_on_disk 0 0 (boot_floppy st2 kf)" if st2: "take 19 st2 = stage2_message"
  proof -
    have "byte_of st2 i = stage2_message ! i" if "i < 19" for i
      using that st2 l nth_take [OF that, of st2] length_take [of 19 st2] by (auto simp: byte_of_def min_def split: if_splits)
    then show ?thesis using l by (simp add: stage2_on_disk_def boot_floppy_sector image_byte_def)
  qed
  show "floppy_file (boot_floppy st2 kf) 0 2 100" unfolding floppy_file_def
  proof (intro allI impI)
    fix k :: nat assume "k * 512 < 100"
    then have "k = 0" by simp
    then show "2 \<le> unat (cluster_at (disk_table (boot_floppy st2 kf) 0) 2 k) \<and> unat (cluster_at (disk_table (boot_floppy st2 kf) 0) 2 k) < 2849" by simp
  qed
qed

lemma boot_floppy_kernel: "kernel_entry (mounted 0 (boot_floppy st2 kf)) = Some (2, 100)"
proof -
  let ?t = "mounted 0 (boot_floppy st2 kf)"
  have m: "floppy_mounted 0 (boot_floppy st2 kf) ?t" by (rule floppy_mounted_mounted) simp_all
  have "\<exists>es. root_directory ?t = dir_entry (image_byte st2 kf 19) # es"
    unfolding root_directory_floppy [OF m] boot_floppy_sector by (simp add: upt_conv_Cons)
  moreover have e: "dir_entry (image_byte st2 kf 19) = \<lparr>name = [0x4B, 0x45, 0x52, 0x4E, 0x45, 0x4C, 0x20, 0x20], ext = [0x20, 0x20, 0x20],
      attribute = 0x20, firstCluster = 2, fileSize = 100\<rparr>"
    by (simp add: dir_entry_def image_byte_def byte_at_def read_le16_def read_le32_def upt_rec)
  moreover have "\<forall>i < 8. [0x4B, 0x45, 0x52, 0x4E, 0x45, 0x4C, 0x20, 0x20] ! i = bytes_of ''KERNEL     '' i"
    "\<forall>i < 3. [0x20, 0x20, 0x20] ! i = bytes_of ''KERNEL     '' (8 + i)"
    by code_simp+
  ultimately show ?thesis by (auto simp: kernel_entry_def directory_lookup_def regular_def)
qed

section \<open>Properties\<close>

text \<open>C5. The loader loads the kernel. The boot sector, started by the BIOS from a readable floppy that carries it, the second stage and
  a kernel file of at most 572 KiB, reaches the jump to the kernel through both stages, and then every byte of the file, along
  its chain of clusters in the allocation table on the disk, is in memory from address 9000h on; the sectors of the second
  stage, whose code is still running, are in memory unchanged.\<close>

theorem boot_loads_kernel:
  assumes "boot_sector_at s" "message_at s msg_loading ''Loading Stage 2...''" "message_at s msg_error ''Disk Read Error''"
    "floppy_in dl s" "stage2_on_disk message dl s" "kernel_entry (mounted dl s) = Some (c, n)"
    "floppy_file s dl c (unat n)" "0 < unat n" "unat n \<le> 0x8F000"
  shows "\<exists>s'. boot_run msg_loading msg_error message dl bx s = Some (Some JumpToKernel, s') \<and> last_message ''Starting kernel...'' s' \<and>
    (\<forall>j < unat n. bmem s' (of_nat (0x9000 + j)) = floppy_byte s dl c j) \<and>
    (\<forall>i < 16 * 512. bmem s' (of_nat (0x5000 + i)) = floppy_sector s dl (2864 + i div 512) (i mod 512))"
  by (rule boot_run_loads [OF assms])

theorem boot_loads_kernel_witness:
  "\<exists>s'. boot_run 0x7D00 0x7D40 0 0 0 (boot_floppy stage2_message [7, 8, 9]) = Some (Some JumpToKernel, s') \<and> bmem s' 0x9001 = 8"
proof -
  let ?s = "boot_floppy stage2_message [7, 8, 9]"
  have "take 19 stage2_message = stage2_message" by (simp add: stage2_message_def db_def)
  from boot_loads_kernel [where bx = 0 and s = ?s, OF boot_floppy(1-4) boot_floppy(5) [OF this] boot_floppy_kernel] boot_floppy(6) obtain s' where
    s': "boot_run 0x7D00 0x7D40 0 0 0 ?s = Some (Some JumpToKernel, s')" "\<forall>j < 100. bmem s' (of_nat (0x9000 + j)) = floppy_byte ?s 0 2 j" by auto
  have "floppy_byte ?s 0 2 1 = 8" by (simp add: floppy_byte_def boot_floppy_sector image_byte_def byte_of_def)
  with spec [OF s'(2), of 1] s'(1) show ?thesis by simp
qed

end
