(* ===== verification/Handover.thy ===== *)
theory Handover
  imports Start Loader
begin

text \<open>
  The protected-mode part of \<^verbatim>\<open>boot/stage2/entry.asm\<close>: \<^verbatim>\<open>jump_to_kernel\<close> opens the A20 gate, loads a descriptor table of its own, switches
  to protected mode and jumps to the kernel's entry point. It works on the processor and machine state of the kernel; its memory
  is the one the loader has filled. The descriptor table is found through the data segment, whose offsets the
  assembler assigns.
\<close>

section \<open>The code\<close>

definition KERNEL_ENTRY :: u32 where "KERNEL_ENTRY = 0x9000"
definition CODE_SEL :: u16 where "CODE_SEL = 0x08"

definition stage2_gdt :: "u64 list" where
  "stage2_gdt = [0x0000000000000000, 0x00CF9A000000FFFF, 0x00CF92000000FFFF]"

text \<open>With a 16-bit operand \<^verbatim>\<open>lgdt\<close> loads 24 bits of the base address. The word at B8000h is the first cell of the screen.\<close>

definition lgdt16 :: "memory \<Rightarrow> u32 \<Rightarrow> segments \<Rightarrow> segments" where
  "lgdt16 m a g = g\<lparr>GDTR := \<lparr>gdt_limit = load16 m a, gdt_base = load32 m (a + 2) AND 0xFFFFFF\<rparr>\<rparr>"

definition jump_to_kernel :: "u16 \<Rightarrow> cpu \<times> segments \<times> 'a vga_scheme \<Rightarrow> (cpu \<times> segments \<times> 'a vga_scheme) option" where
  "jump_to_kernel gdt_descriptor = (\<lambda>(c, g, s).
     do { let s = s\<lparr>eflags := eflags s AND NOT IF_BIT\<rparr>;
          let (al, s) = inb 0x92 s;
          let s = outb 0x92 (al OR 0x02) s;
          let g = lgdt16 (mem s) (linear_address (DS g) gdt_descriptor) g;
          let s = s\<lparr>cr0 := cr0 s OR 0x01\<rparr>;
          guard (code_loadable (mem s) (GDTR g) 0 CODE_SEL);
          let c = c\<lparr>CS := ucast CODE_SEL\<rparr>;
          g \<leftarrow> load_data_segments DATA_SEL (mem s) g;
          let c = c\<lparr>ESP := 0x9F000\<rparr>;
          let s = s\<lparr>vgaMem := set_vga_at 0 0 0x0F50 (vgaMem s)\<rparr>;
          Some (c\<lparr>EAX := KERNEL_ENTRY, EIP := KERNEL_ENTRY\<rparr>, g, s) })"

section \<open>Entering the kernel\<close>

lemma flat_table_stage2: "flat_table stage2_gdt"
  by (simp add: flat_table_def stage2_gdt_def kernel_gdt_def)

text \<open>The state at the kernel's entry point: protected mode with flat segments, interrupts off, the gate open, memory untouched.\<close>

definition handed_over :: "cpu \<times> segments \<times> 'a vga_scheme \<Rightarrow> 'a vga_scheme \<Rightarrow> bool" where
  "handed_over = (\<lambda>(c, g, s') s. EIP c = 0x9000 \<and> ESP c = 0x9F000 \<and> flat_segments (mem s') c g \<and> bit (cr0 s') 0 \<and> cr0 s' AND PG_BIT = cr0 s AND PG_BIT \<and>
     \<not> interrupts_enabled s' \<and> mem s' = mem s \<and> (\<exists>v. out_trace s' = out_trace s @ [(0x92, v)] \<and> bit v 1) \<and> vgaMem s' 0 = 0x0F50)"

lemma jump_enters:
  assumes img: "gdt_image stage2_gdt table (linear_address (DS g) gdt_descriptor) (mem s)" and low: "unat table < 2 ^ 24"
  shows "\<exists>t. jump_to_kernel gdt_descriptor (c, g, s) = Some t \<and> handed_over t s \<and>
    (\<exists>f n tr v w. snd (snd t) = s\<lparr>eflags := f, in_count := n, out_trace := tr, cr0 := v, vgaMem := w\<rparr>)"
proof -
  let ?a = "linear_address (DS g) gdt_descriptor"
  have m: "(0xFFFFFF :: u32) = mask 24" by (simp add: mask_eq_exp_minus_1)
  have "load32 (mem s) (?a + 2) = table" using img by (simp add: gdt_image_def)
  moreover have "table AND 0xFFFFFF = table" unfolding unat_inj m unat_and_mask using low by simp
  ultimately have g: "lgdt16 (mem s) ?a g = lgdt (mem s) ?a g" by (simp add: lgdt16_def lgdt_def)
  let ?g = "lgdt (mem s) ?a g"
  have r: "GDTR ?g = \<lparr>gdt_limit = load16 (mem s) ?a, gdt_base = load32 (mem s) (?a + 2)\<rparr>" by (simp add: lgdt_def)
  note ok = image_loadable [OF img flat_table_stage2 r]
  let ?v = "port_in s (in_count s) 0x92 OR 0x02"
  let ?s = "s\<lparr>eflags := eflags s AND NOT IF_BIT, in_count := Suc (in_count s), out_trace := out_trace s @ [(0x92, ?v)], cr0 := cr0 s OR 1,
    vgaMem := set_vga_at 0 0 0x0F50 (vgaMem s)\<rparr>"
  let ?c = "c\<lparr>CS := 0x08, ESP := 0x9F000, EAX := 0x9000, EIP := 0x9000\<rparr>"
  let ?g' = "?g\<lparr>DS := 0x10, ES := 0x10, FS := 0x10, GS := 0x10, SS := 0x10\<rparr>"
  have run: "jump_to_kernel gdt_descriptor (c, g, s) = Some (?c, ?g', ?s)"
    using ok by (simp add: jump_to_kernel_def g CODE_SEL_def DATA_SEL_def KERNEL_ENTRY_def inb_def outb_def Let_def)
  have "flat_segments (mem s) ?c ?g'" by (rule image_flat [OF img flat_table_stage2]) (simp_all add: lgdt_def)
  moreover have "bit ?v 1" "bit (cr0 s OR 1) 0" by (simp_all add: bit_or_iff)
  moreover have "(cr0 s OR 1) AND PG_BIT = cr0 s AND PG_BIT" by (simp add: PG_BIT_def bit.conj_disj_distrib2)
  moreover have "\<not> interrupts_enabled ?s" by (simp add: interrupts_enabled_def and.assoc)
  ultimately have "handed_over (?c, ?g', ?s) s" by (simp add: handed_over_def set_vga_at_def)
  moreover have "\<exists>f n tr v w. ?s = s\<lparr>eflags := f, in_count := n, out_trace := tr, cr0 := v, vgaMem := w\<rparr>" by (intro exI, rule refl)
  ultimately show ?thesis using run by (intro exI [of _ "(?c, ?g', ?s)"] conjI) (simp_all only: snd_conv)
qed

section \<open>From the loader to the running kernel\<close>

lemma handover_boots:
  fixes s :: "'a intr_scheme"
  assumes img: "gdt_image stage2_gdt table (linear_address (DS g) gdt_descriptor) (mem s)" "unat table < 2 ^ 24"
    and k: "linked (sym_kernel_end syms) s" "kernel_image syms (mem s)" "transmitter_lives s"
  shows "\<exists>c1 g1 s1 c' g' s2 s'. jump_to_kernel gdt_descriptor (c, g, s) = Some (c1, g1, s1) \<and> handed_over (c1, g1, s1) s \<and>
    start syms (c1, g1, s1) = Some (c', g', s') \<and> kmain (sym_kernel_end syms) s2 = Some s' \<and> unat (ESP c') = KERNEL_STACK_TOP \<and>
    flat_segments (mem s2) c' g' \<and> entered syms u s1 s2 \<and> booted s' \<and> interrupts_enabled s'"
proof -
  from jump_enters [OF img, of c] obtain c1 g1 s1 where s1: "jump_to_kernel gdt_descriptor (c, g, s) = Some (c1, g1, s1)" "handed_over (c1, g1, s1) s"
    "\<exists>f n tr v w. s1 = s\<lparr>eflags := f, in_count := n, out_trace := tr, cr0 := v, vgaMem := w\<rparr>" by (metis prod.exhaust snd_conv)
  have h: "ESP c1 = 0x9F000" "cr0 s1 AND PG_BIT = cr0 s AND PG_BIT" "mem s1 = mem s" using s1(2) by (simp_all add: handed_over_def)
  have "linked (sym_kernel_end syms) s1" using k(1) h(2) s1(3) by (auto simp: linked_def)
  moreover have "transmitter_lives s1" using k(3) s1(3) by (auto simp: transmitter_lives_def)
  ultimately have "\<exists>c' g' s2 s'. start syms (c1, g1, s1) = Some (c', g', s') \<and> kmain (sym_kernel_end syms) s2 = Some s' \<and> unat (ESP c') = KERNEL_STACK_TOP \<and>
    flat_segments (mem s2) c' g' \<and> entered syms u s1 s2 \<and> booted s' \<and> interrupts_enabled s'"
    using k(2) by (intro start_runs) (simp_all add: h)
  with s1(1,2) show ?thesis by blast
qed

text \<open>The images of the second stage and of the kernel as they are on the floppy, seen from the addresses they are loaded to.\<close>

definition stage2_image :: "'a boot_scheme \<Rightarrow> u8 \<Rightarrow> memory" where
  "stage2_image s dl = (\<lambda>x. floppy_sector s dl (2864 + (unat x - 0x5000) div 512) ((unat x - 0x5000) mod 512))"

definition kernel_file :: "'a boot_scheme \<Rightarrow> u8 \<Rightarrow> u16 \<Rightarrow> memory" where
  "kernel_file s dl c = (\<lambda>x. floppy_byte s dl c (unat x - 0x9000))"

lemma loaded_images:
  assumes k: "\<forall>j < n. m (of_nat (0x9000 + j)) = floppy_byte s dl c j" and st2: "\<forall>i < 16 * 512. m (of_nat (0x5000 + i)) = floppy_sector s dl (2864 + i div 512) (i mod 512)"
  shows "0x9000 \<le> unat x \<Longrightarrow> unat x < 0x9000 + n \<Longrightarrow> m x = kernel_file s dl c x"
    "0x5000 \<le> unat x \<Longrightarrow> unat x < 0x7000 \<Longrightarrow> m x = stage2_image s dl x"
proof -
  have "of_nat (a + (unat x - a)) = x" if "a \<le> unat x" for a :: nat using that by (simp only: le_add_diff_inverse) simp
  note a = this [of "0x9000"] this [of "0x5000"]
  show "m x = kernel_file s dl c x" if "0x9000 \<le> unat x" "unat x < 0x9000 + n"
    using spec [OF k, of "unat x - 0x9000"] a(1) that by (simp add: kernel_file_def del: of_nat_add)
  show "m x = stage2_image s dl x" if "0x5000 \<le> unat x" "unat x < 0x7000"
    using spec [OF st2, of "unat x - 0x5000"] a(2) that by (simp add: stage2_image_def del: of_nat_add)
qed

section \<open>A concrete system\<close>

definition dq :: "u64 \<Rightarrow> u8 list" where
  "dq w = dd (ucast w) @ dd (ucast (drop_bit 32 w))"

definition system_stage2 :: "u8 list" where
  "system_stage2 = stage2_message @ [0, 0, 0, 0, 0] @ concat (map dq stage2_gdt) @ dw 23 @ dd 0x5018"

definition system_kernel :: "u8 list" where
  "system_kernel = concat (map dq kernel_gdt) @ dw 39 @ dd 0x9000 @ [0, 0] @ msg_kernel"

definition system_symbols :: symbols where
  "system_symbols = \<lparr>sym_gdt = 0x9000, sym_gdtr = 0x9028, sym_flushed = 0x9050, sym_bss_start = 0x9064, sym_bss_end = 0x40000,
     sym_msg_kernel = 0x9030, sym_kernel_end = 0x40000\<rparr>"

definition system_floppy :: fat where
  "system_floppy = boot_floppy system_stage2 system_kernel"

definition system_machine :: intr where
  "system_machine = intr_loaded\<lparr>port_in := (\<lambda>_ _. 0x20)\<rparr>"

definition system_segments :: segments where
  "system_segments = \<lparr>DS = STAGE2_SEGMENT, ES = STAGE2_SEGMENT, FS = 0, GS = 0, SS = STAGE2_SEGMENT, GDTR = \<lparr>gdt_limit = 0, gdt_base = 0\<rparr>\<rparr>"

definition system_uart :: uart where
  "system_uart = \<lparr>divisor_low = 1, divisor_high = 0, ier = 0, fcr = 0, lcr = 0, mcr = 0, sent = []\<rparr>"

lemma system_stage2_image:
  "take 19 system_stage2 = stage2_message" "gdt_image stage2_gdt 0x5018 0x5030 (stage2_image system_floppy 0)"
proof -
  show "take 19 system_stage2 = stage2_message" by (simp add: system_stage2_def stage2_message_def db_def)
  have b: "stage2_image system_floppy 0 x = byte_of system_stage2 (unat x - 0x5000)" if "0x5000 \<le> unat x" "unat x < 0x5200" for x
    using that by (simp add: stage2_image_def system_floppy_def boot_floppy_sector image_byte_def)
  show "gdt_image stage2_gdt 0x5018 0x5030 (stage2_image system_floppy 0)"
    by (simp add: gdt_image_def stage2_gdt_def All_less_Suc load64_def load32_def load16_def b byte_of_def system_stage2_def stage2_message_def
        db_def dq_def dd_def dw_def)
qed

lemma system_kernel_image:
  "kernel_image system_symbols (kernel_file system_floppy 0 2)"
proof -
  have b: "kernel_file system_floppy 0 2 x = byte_of system_kernel (unat x - 0x9000)" if "0x9000 \<le> unat x" "unat x < 0x9200" for x
    using that by (simp add: kernel_file_def floppy_byte_def system_floppy_def boot_floppy_sector image_byte_def)
  let ?m = "kernel_file system_floppy 0 2"
  have "gdt_image kernel_gdt 0x9000 0x9028 ?m"
    by (simp add: gdt_image_def kernel_gdt_def All_less_Suc load64_def load32_def load16_def b byte_of_def system_kernel_def msg_kernel_def
        dq_def dd_def dw_def)
  moreover have "?m (0x9030 + of_nat i) = msg_kernel ! i" if "i < length msg_kernel" for i
  proof -
    have i: "i < 17" using that by (simp add: msg_kernel_def)
    then have "unat (0x9030 + of_nat i :: u32) = 0x9030 + i" by (subst unat_plus_small) (simp_all add: unat_of_nat_small)
    moreover have "system_kernel ! (48 + i) = msg_kernel ! i" "length system_kernel = 65"
      by (simp_all add: system_kernel_def nth_append kernel_gdt_def dq_def dd_def dw_def msg_kernel_def)
    ultimately show ?thesis using i by (simp add: b byte_of_def)
  qed
  moreover have "length kernel_gdt = 5" "length msg_kernel = 17" by (simp_all add: kernel_gdt_def msg_kernel_def)
  ultimately show ?thesis by (simp add: kernel_image_def system_symbols_def word_le_nat_alt)
qed

end
