(* ===== verification/Spec2Isabelle.thy ===== *)
theory Spec2Isabelle
  imports Prelude Machine Format Vga Physical Kmalloc Mmu Paging Scheduler Bios Bootlib Fat12 Timer Keyboard Interrupts Kernel
    Segments Serial Start Stage1 Loader Handover
begin

text \<open>
  A verification library for neilOS, a small 32-bit x86 operating system written in C and assembly: a boot sector
  and a second-stage loader that reads the kernel from a FAT12 floppy, and a kernel with a text terminal, a page
  allocator, a heap, paging, a preemptive scheduler, a timer and a keyboard driver, all driven by interrupts.

  \<^bold>\<open>How the program is modelled.\<close> Every function is a HOL function on an explicit state. The state of the kernel is one
  record that grows file by file: \<open>machine\<close> (flags, memory, control registers, lookaside buffer, ports), then \<open>vga\<close>, \<open>phys\<close>,
  \<open>kheap\<close>, \<open>pg\<close>, \<open>sched\<close>, \<open>timer\<close>, \<open>kbd\<close> and \<open>intr\<close>, each adding the static variables of one file. The loader has its own
  chain, \<open>boot\<close> and \<open>fat\<close>. Integers keep their width. Memory is a function from 32-bit addresses to bytes where the code builds
  structures in it (heap headers, page tables, stacks, interrupt frames, disk buffers); arrays that are only indexed are
  lists or functions, and an index out of range, a division by zero, a page fault or a protection fault is \<open>None\<close>. A loop that
  the code does not bound is a \<open>partial_function\<close> in the option type; that it returns is then part of a theorem. The hardware
  is an environment: what a port delivers on the n-th read, what the BIOS reads from the disk and when it fails are
  unconstrained functions in the state; output is a trace.

  \<^bold>\<open>The theories, in the order of the code.\<close>
  \<^item> \<open>Prelude\<close>: words, searches, 32-bit access to byte memory, frames (\<open>changes_only\<close>). \<open>Machine\<close>: \<^verbatim>\<open>kernel/arch/x86/io.h\<close>.
  \<^item> \<open>Format\<close>, \<open>Vga\<close>: \<^verbatim>\<open>kernel/drivers/video/vga.c\<close>. The locale \<open>char_sink\<close> is what formatted output relies on; it is interpreted on
    the terminal (\<open>screen\<close>). Writing never leaves the buffer, keeps the screen equal to the window, and
    formatted output equals a reference text.
  \<^item> \<open>Physical\<close>: \<^verbatim>\<open>kernel/mm/physical.c\<close>. The bitmap refines a set of used pages; the locale \<open>frame_allocator\<close>, interpreted as \<open>physical\<close>,
    gives what clients of an allocator need.
  \<^item> \<open>Kmalloc\<close>: \<^verbatim>\<open>kernel/mm/kmalloc.c\<close>. The linked list of headers in memory refines a list of blocks; \<^verbatim>\<open>kmalloc\<close> is first fit with
    splitting, \<^verbatim>\<open>kfree\<close> is coalescing. The locale \<open>block_allocator\<close>, interpreted as \<open>kernel_heap\<close>, gives that blocks are arrays of their own.
  \<^item> \<open>Mmu\<close>, \<open>Paging\<close>: \<^verbatim>\<open>kernel/mm/paging.c\<close> over the processor's page walk. Every access of the code to a table goes through
    the translation it is changing. The locale \<open>page_mapper\<close>, interpreted as \<open>kernel_paging\<close>, gives that mapping and
    unmapping concern the named page only.
  \<^item> \<open>Scheduler\<close>: \<^verbatim>\<open>kernel/scheduler/scheduler.c\<close>. One invariant for all operations, an inductive relation for runs of
    events, round robin order and absence of starvation: a ready task runs within 16 slots of 10 ticks.
  \<^item> \<open>Timer\<close>, \<open>Keyboard\<close>: \<^verbatim>\<open>pic.c\<close>, \<^verbatim>\<open>pit.c\<close>, \<^verbatim>\<open>keyboard.c\<close>. The ports are read back through a model of the chips; typing is writing.
  \<^item> \<open>Interrupts\<close>: \<^verbatim>\<open>kernel/arch/x86/idt.c\<close> and \<^verbatim>\<open>isr.asm\<close>, with delivery through a gate, \<^verbatim>\<open>pusha\<close>, \<^verbatim>\<open>popa\<close> and \<^verbatim>\<open>iretd\<close>. A context is a processor
    state together with its flags; \<open>contexts_ok\<close> says where each suspended task's context lies in memory, and a context switch
    is shown to resume exactly the saved context of the task that the scheduler has chosen.
  \<^item> \<open>Kernel\<close>: \<^verbatim>\<open>kernel/kernel.c\<close>; initialisation in stages, each keeping what the earlier ones have established.
  \<^item> \<open>Segments\<close>, \<open>Serial\<close>, \<open>Start\<close>: \<^verbatim>\<open>gdt.asm\<close>, \<^verbatim>\<open>gdt.h\<close> and \<^verbatim>\<open>main.asm\<close>; descriptors as the processor decodes them, the serial port, and the
    path from the entry point to \<^verbatim>\<open>kmain\<close>.
  \<^item> \<open>Bios\<close>, \<open>Bootlib\<close>, \<open>Fat12\<close>: \<^verbatim>\<open>boot/stage2/disk.asm\<close>, \<^verbatim>\<open>lib\<close> and \<^verbatim>\<open>stage2.c\<close>. Disk access reads the sector it is asked for, lookup and loading
    agree with the directory and the cluster chain on the disk, and the loader ends on every disk.
  \<^item> \<open>Stage1\<close>, \<open>Loader\<close>, \<open>Handover\<close>: \<^verbatim>\<open>boot/stage1/boot.asm\<close> and \<^verbatim>\<open>boot/stage2/entry.asm\<close>; both stages together, and the switch to protected mode.
  This theory joins the two chains: a floppy with the system on it boots into the state from which the
  theorems about interrupts and tasks start.

  \<^bold>\<open>Bounds.\<close> No theorem depends on fuel. The waits of the keyboard driver are the 100000 attempts of the code. The BIOS is asked
  three times, as in the code. A file is loaded completely when it ends at least a sector below 1 MiB; the kernel file has at most
  8F000h bytes, from the load address 9000h to the linker's limit 98000h; a loaded table has at most 15 sectors, since a longer
  one would overwrite the load area. The serial port must become ready again and again (\<open>transmitter_lives\<close>), or \<^verbatim>\<open>serial_puts\<close> would not return. The placement of static objects is that of
  the linker script (\<open>linked\<close>, \<open>kernel_image\<close>).

  \<^bold>\<open>Not modelled.\<close> The tests under \<^verbatim>\<open>kernel/tests\<close>, which are compiled only into a test image, drive the components and print
  verdicts; the components they call are modelled, the test driver and its cases are not. Endless loops of \<^verbatim>\<open>hlt\<close>
  (the end of \<^verbatim>\<open>kmain\<close>, the idle task, the loops behind calls that do not return) do nothing and appear as the end of a function or as an address. The stack frames of C
  functions and BIOS calls are not followed: a handler runs on the stack it interrupts below its saved frame, and whether a
  4 KiB task stack suffices for it is a question about compiled code. \<^verbatim>\<open>gdt_init\<close> is declared in \<^verbatim>\<open>gdt.h\<close> and defined nowhere. Code under
  \<^verbatim>\<open>DEBUG\<close> is not compiled. Changes of privilege level do not occur, as no task runs in ring 3. The initial values of
  variables are arbitrary where the code sets them before use, which is more general than zero.
\<close>

section \<open>The kernel as a whole\<close>

lemma booted_running:
  assumes "booted s" "interruptible c" "{unat (ESP c) - 60..<unat (ESP c)} \<subseteq> {KERNEL_STACK_LOW..<KERNEL_STACK_TOP}"
  shows "running KERNEL_STACK_LOW (idle_context s) (Task 0) c s"
  using assms by (simp add: booted_def tasks_ready_def running_def)

lemma booted_identity:
  assumes "booted s" "unat va < 0x400000"
  shows "translate va s = Some va"
proof -
  have "frame va < 1024" using assms(2) by (simp add: frame_def less_mult_imp_div_less)
  with assms(1) show ?thesis unfolding booted_def pg_inv_def by (blast intro: core_identity)
qed

lemma intr_loaded_linked: "linked 0x40000 intr_loaded"
proof -
  have "length (pageBitMap phys_booted) = 512" using phys_booted(2) by (simp add: phys_inv_def)
  then have "length (pageBitMap intr_loaded) = 512" "pageDirectory intr_loaded = 0x10000" "firstPageTable intr_loaded = 0x11000" "cr0 intr_loaded = 1"
    by (simp_all add: intr_loaded_def kbd_loaded_def intr.defs kbd.defs timer.defs sched.defs sched_loaded_def pg.defs pg_loaded_def)
  then show ?thesis
    by (simp add: linked_def placed_def intr_loaded IDT_ENTRIES_def physical_consts kernel_end_limit_def word_le_nat_alt PG_BIT_def)
qed

lemma system_machine: "linked (sym_kernel_end system_symbols) system_machine" "transmitter_lives system_machine"
proof -
  show "linked (sym_kernel_end system_symbols) system_machine"
    using intr_loaded_linked by (simp add: system_symbols_def system_machine_def linked_def)
  show "transmitter_lives system_machine" by (simp add: transmitter_lives_def system_machine_def)
qed

section \<open>Properties\<close>



text \<open>C4. The kernel boots. For any image the linker script can produce, \<^verbatim>\<open>kmain\<close> runs without a fault to the point where it waits
  for interrupts, and there the invariants of all components hold together: interrupts are enabled; the ten lines of
  messages are the text of the terminal; paging is on and the first 4 MiB are mapped to themselves; exactly the first
  512 pages are in use; the heap is one free block; the interrupt controllers use vectors 32 to 47 and let the
  keyboard through; every gate leads to its stub; and \<^verbatim>\<open>kmain\<close> itself is the running task 0, with the idle task's
  context ready, so that every later interrupt finds what it relies on.\<close>

theorem kmain_boots:
  assumes "linked kernel_end s"
  shows "\<exists>s'. kmain kernel_end s = Some s' \<and> interrupts_enabled s' \<and> vga_inv s' \<and>
    (\<exists>t. vga_write (lines_text banner) (vga_init s) = Some t \<and> terminal_text t = terminal_text s') \<and>
    pg_inv s' \<and> (\<forall>va. unat va < 0x400000 \<longrightarrow> translate va s' = Some va) \<and> used_pages s' = {..<512} \<and>
    heap_inv [(0x100000 - 16, True)] s' \<and> pics_ready True s' \<and>
    (\<forall>c. interruptible c \<and> {unat (ESP c) - 60..<unat (ESP c)} \<subseteq> {KERNEL_STACK_LOW..<KERNEL_STACK_TOP} \<longrightarrow>
      running KERNEL_STACK_LOW (idle_context s') (Task 0) c s')"
proof -
  obtain s' where s': "kmain kernel_end s = Some s'" "booted s'" "wrote (lines_text banner) (vga_init s) s'" "interrupts_enabled s'"
    using kmain_stages [OF assms] by blast
  from s'(2) have "pg_inv s'" "used_pages s' = {..<512}" "heap_inv [(0x100000 - 16, True)] s'" "pics_ready True s'"
    by (simp_all add: booted_def)
  with s' booted_identity [OF s'(2)] booted_running [OF s'(2)] show ?thesis by (auto simp: wrote_def)
qed

theorem kmain_boots_witness:
  "\<exists>s'. kmain 0x40000 intr_loaded = Some s' \<and> interrupts_enabled s' \<and> translate 0xB8000 s' = Some 0xB8000 \<and>
     running KERNEL_STACK_LOW (idle_context s') (Task 0) cpu_started s'"
  using kmain_boots [OF intr_loaded_linked] cpu_started(1)
  by (auto simp: cpu_started(2) KERNEL_STACK_LOW_def KERNEL_STACK_TOP_def)

end
